(* ===== verification/Prelude.thy ===== *)
theory Prelude
  imports Main "HOL-Library.Word" "HOL-Library.AList" "HOL-Library.Multiset"
    "HOL-Library.Monad_Syntax"
begin

unbundle bit_operations_syntax

text \<open>
  The vocabulary every component shares: Go's fixed-width integers, byte slices, maps and
  durations, and the generic facts about them that the component proofs use.

  \<^item> A \<open>byte\<close>, \<open>uint16\<close>, \<open>uint32\<close>, \<open>uint64\<close> is a word of that width, so \<open>+\<close>
    and \<open>-\<close> wrap as in Go, and the conversion \<open>int32(x)\<close> is \<open>sint x\<close>.
  \<^item> A \<open>[]byte\<close> is a list of bytes. Reads that Go checks at run time are \<open>go_index\<close>
    and \<open>go_slice\<close>, whose value \<open>None\<close> is the run-time panic.
  \<^item> A Go map is an association list with distinct keys; its order is one of the orders a
    \<open>range\<close> may visit. The laws a map gives its clients are the locale \<open>go_map\<close>.
  \<^item> A \<open>time.Time\<close> and a \<open>time.Duration\<close> are integers (nanoseconds).
\<close>

section \<open>Types\<close>

type_synonym byte = "8 word"
type_synonym u16 = "16 word"
type_synonym u32 = "32 word"
type_synonym u64 = "64 word"
type_synonym bytes = "byte list"
type_synonym ('k, 'v) gomap = "('k \<times> 'v) list"
type_synonym time = int
type_synonym duration = int

named_theorems map_simps "laws of Go maps, for rewriting"
named_theorems inv_intros "operations keep the component invariants"

section \<open>Byte slices\<close>

definition go_index :: "'a list \<Rightarrow> nat \<Rightarrow> 'a option" where
  "go_index xs i = (if i < length xs then Some (xs ! i) else None)"

definition go_slice :: "'a list \<Rightarrow> nat \<Rightarrow> nat \<Rightarrow> 'a list option" where
  "go_slice xs lo hi =
     (if lo \<le> hi \<and> hi \<le> length xs then Some (take (hi - lo) (drop lo xs)) else None)"

definition go_slice_from :: "'a list \<Rightarrow> nat \<Rightarrow> 'a list option" where
  "go_slice_from xs lo = (if lo \<le> length xs then Some (drop lo xs) else None)"

abbreviation bslice :: "'a list \<Rightarrow> nat \<Rightarrow> nat \<Rightarrow> 'a list" where
  "bslice xs lo hi \<equiv> take (hi - lo) (drop lo xs)"

text \<open>\<open>encoding/binary.BigEndian\<close>: the readers, and the writers the round trips use.\<close>

definition be16 :: "bytes \<Rightarrow> u16" where
  "be16 b = push_bit 8 (ucast (b ! 0)) OR ucast (b ! 1)"

definition be32 :: "bytes \<Rightarrow> u32" where
  "be32 b = push_bit 24 (ucast (b ! 0)) OR push_bit 16 (ucast (b ! 1))
            OR push_bit 8 (ucast (b ! 2)) OR ucast (b ! 3)"

definition put_be16 :: "u16 \<Rightarrow> bytes" where
  "put_be16 w = [ucast (drop_bit 8 w), ucast w]"

definition put_be32 :: "u32 \<Rightarrow> bytes" where
  "put_be32 w = [ucast (drop_bit 24 w), ucast (drop_bit 16 w), ucast (drop_bit 8 w), ucast w]"

section \<open>Time\<close>

text \<open>\<open>t.Sub(u)\<close> saturates at the range of a 64-bit duration.\<close>

definition max_duration :: duration where
  "max_duration = 2 ^ 63 - 1"

definition min_duration :: duration where
  "min_duration = - (2 ^ 63)"

definition time_Sub :: "time \<Rightarrow> time \<Rightarrow> duration" where
  "time_Sub t u = max min_duration (min max_duration (t - u))"

definition Second :: duration where
  "Second = 1000000000"

definition Millisecond :: duration where
  "Millisecond = 1000000"

section \<open>Generic lemmas\<close>

lemma go_index_Some [simp]: "i < length xs \<Longrightarrow> go_index xs i = Some (xs ! i)"
  by (simp add: go_index_def)

lemma go_slice_Some [simp]:
  "lo \<le> hi \<Longrightarrow> hi \<le> length xs \<Longrightarrow> go_slice xs lo hi = Some (bslice xs lo hi)"
  by (simp add: go_slice_def)

lemma go_slice_from_Some [simp]: "lo \<le> length xs \<Longrightarrow> go_slice_from xs lo = Some (drop lo xs)"
  by (simp add: go_slice_from_def)

lemma be16_put_be16 [simp]: "be16 (put_be16 w) = w"
  unfolding be16_def put_be16_def
  by (rule bit_word_eqI)
    (auto simp: bit_simps)

lemma be32_put_be32 [simp]: "be32 (put_be32 w) = w"
proof (rule bit_word_eqI)
  fix n assume "n < LENGTH(32)"
  then have "n < 32" by simp
  then have "n < 8 \<or> (\<exists>k<8. n = 8 + k) \<or> (\<exists>k<8. n = 16 + k) \<or> (\<exists>k<8. n = 24 + k)"
    by presburger
  then show "bit (be32 (put_be32 w)) n \<longleftrightarrow> bit w n"
    by (elim disjE exE conjE) (auto simp: be32_def put_be32_def bit_simps)
qed

lemma length_put_be16 [simp]: "length (put_be16 w) = 2"
  by (simp add: put_be16_def)

lemma length_put_be32 [simp]: "length (put_be32 w) = 4"
  by (simp add: put_be32_def)

lemma time_Sub_less_iff:
  "min_duration < d \<Longrightarrow> d \<le> max_duration \<Longrightarrow> time_Sub t u < d \<longleftrightarrow> t - u < d"
  by (auto simp: time_Sub_def min_def max_def)

text \<open>Signed distance between two sequence numbers: the arithmetic of \<open>int32(s - t)\<close>.\<close>

lemma sint_of_nat_small: "n < 2 ^ 31 \<Longrightarrow> sint (of_nat n :: u32) = int n"
  by (simp add: signed_of_nat signed_take_bit_int_eq_self)

lemma sint_minus_small:
  fixes a b :: u32
  assumes "0 \<le> sint b" and "sint b \<le> sint a"
  shows "sint (a - b) = sint a - sint b"
proof -
  have "sint (a - b) = signed_take_bit 31 (sint a - sint b)" by (simp add: sint_word_ariths(2))
  moreover have "sint a < 2 ^ 31" using sint_lt [of a] by simp
  ultimately show ?thesis using assms by (simp add: signed_take_bit_int_eq_self)
qed

lemma sint_diff_nonneg:
  fixes x y :: u32
  assumes "0 \<le> sint (y - c)" and "sint (y - c) \<le> sint (x - c)"
  shows "sint (x - y) = sint (x - c) - sint (y - c)"
  using sint_minus_small [OF assms] by simp

lemma sint_uminus_pos:
  fixes w :: u32
  assumes "0 < sint w"
  shows "sint (- w) = - sint w"
proof -
  have "sint (- w) = signed_take_bit 31 (- sint w)" by (simp add: sint_word_ariths)
  moreover have "sint w < 2 ^ 31" using sint_lt [of w] by simp
  ultimately show ?thesis using assms by (simp add: signed_take_bit_int_eq_self)
qed

text \<open>Within half of the sequence space, the sign of the difference is the order of the offsets.\<close>

lemma sint_diff_less_iff:
  fixes a b c :: u32
  assumes "0 \<le> sint (a - c)" and "0 \<le> sint (b - c)"
  shows "sint (a - b) < 0 \<longleftrightarrow> sint (a - c) < sint (b - c)"
proof (cases "sint (b - c) \<le> sint (a - c)")
  case True
  then show ?thesis using sint_diff_nonneg [OF assms(2)] by simp
next
  case False
  then have "sint (b - a) = sint (b - c) - sint (a - c)" using assms(1) by (intro sint_diff_nonneg) simp_all
  with False sint_uminus_pos [of "b - a"] show ?thesis by simp
qed

end
