(* ===== verification/Packet.thy ===== *)
theory Packet
  imports Prelude
begin

text \<open>
  The TCP/IPv4 header parser of \<open>utility/reseq.go\<close> (\<open>parseTCP\<close>), which decides whether
  a packet takes part in resequencing and reads its flow key and sequence range.

  \<open>parseTCP_go\<close> follows the code with Go's run-time bounds checks: \<open>None\<close> is a panic, and
  \<open>Some None\<close> is the return with \<open>ok == false\<close>. \<open>parseTCP\<close> is the same parser without
  the checks, which the other components call; \<open>parseTCP_no_panic\<close> shows that they agree, so
  no packet makes the parser panic. \<open>mk_segment\<close> builds a well-formed segment, and the round
  trip says that the parser reads back exactly the fields it was built from.
\<close>

section \<open>Model\<close>

text \<open>\<open>srcIP(4) dstIP(4) srcPort(2) dstPort(2) proto(1)\<close>: a \<open>[13]byte\<close>.\<close>

type_synonym flowKey = bytes

text \<open>\<open>key[12] = 6\<close>; the four \<open>copy\<close> calls fill bytes 0 to 11.\<close>

definition flow_key :: "bytes \<Rightarrow> bytes \<Rightarrow> flowKey" where
  "flow_key ip tcp =
     bslice ip 12 16 @ bslice ip 16 20 @ bslice tcp 0 2 @ bslice tcp 2 4 @ [6]"

text \<open>
  The sequence space a segment consumes: its payload, and one more when SYN or FIN is set.
\<close>

definition seg_consumed :: "nat \<Rightarrow> byte \<Rightarrow> nat" where
  "seg_consumed payloadLen flags =
     (if flags AND 2 \<noteq> 0 \<or> flags AND 1 \<noteq> 0 then payloadLen + 1 else payloadLen)"

definition parseTCP :: "bytes \<Rightarrow> (u32 \<times> u32 \<times> flowKey) option" where
  "parseTCP ip =
     (if length ip < 20 \<or> drop_bit 4 (ip ! 0) \<noteq> 4 then None
      else let ihl = unat (ip ! 0 AND 15) * 4 in
      if ihl < 20 \<or> length ip < ihl + 20 \<or> ip ! 9 \<noteq> 6 then None
      else let tcp = drop ihl ip; dataOff = unat (drop_bit 4 (tcp ! 12)) * 4 in
      if dataOff < 20 \<or> length tcp < dataOff then None
      else let seq = be32 (bslice tcp 4 8);
               payloadLen = length ip - ihl - dataOff;
               consumed = seg_consumed payloadLen (tcp ! 13) in
      if consumed = 0 then None
      else Some (seq, seq + of_nat consumed, flow_key ip tcp))"

definition parseTCP_go :: "bytes \<Rightarrow> (u32 \<times> u32 \<times> flowKey) option option" where
  "parseTCP_go ip =
     (if length ip < 20 then Some None
      else do {
        b0 \<leftarrow> go_index ip 0;
        if drop_bit 4 b0 \<noteq> 4 then Some None
        else do {
          let ihl = unat (b0 AND 15) * 4;
          if ihl < 20 \<or> length ip < ihl + 20 then Some None
          else do {
            proto \<leftarrow> go_index ip 9;
            if proto \<noteq> 6 then Some None
            else do {
              tcp \<leftarrow> go_slice_from ip ihl;
              b12 \<leftarrow> go_index tcp 12;
              let dataOff = unat (drop_bit 4 b12) * 4;
              if dataOff < 20 \<or> length tcp < dataOff then Some None
              else do {
                sq \<leftarrow> go_slice tcp 4 8;
                flags \<leftarrow> go_index tcp 13;
                let consumed = seg_consumed (length ip - ihl - dataOff) flags;
                if consumed = 0 then Some None
                else do {
                  sip \<leftarrow> go_slice ip 12 16;
                  dip \<leftarrow> go_slice ip 16 20;
                  sport \<leftarrow> go_slice tcp 0 2;
                  dport \<leftarrow> go_slice tcp 2 4;
                  Some (Some (be32 sq, be32 sq + of_nat consumed,
                              sip @ dip @ sport @ dport @ [6]))
                }
              }
            }
          }
        }
      })"

section \<open>A builder of well-formed segments\<close>

text \<open>An IPv4 packet from its fields: \<open>front\<close> are header bytes 1 to 8, \<open>csum\<close> the header
  checksum and \<open>opts\<close> the options; a transport header begins with the two ports.\<close>

definition ip4_packet ::
  "bytes \<Rightarrow> byte \<Rightarrow> bytes \<Rightarrow> bytes \<Rightarrow> bytes \<Rightarrow> bytes \<Rightarrow> bytes \<Rightarrow> bytes" where
  "ip4_packet front proto csum src dst opts body =
     [0x40 OR word_of_nat (5 + length opts div 4)] @ front @ [proto] @ csum @ src @ dst @ opts @ body"

definition ip4_fields_ok :: "bytes \<Rightarrow> bytes \<Rightarrow> bytes \<Rightarrow> bytes \<Rightarrow> bytes \<Rightarrow> bool" where
  "ip4_fields_ok front csum src dst opts \<longleftrightarrow>
     length front = 8 \<and> length csum = 2 \<and> length src = 4 \<and> length dst = 4
     \<and> length opts \<le> 40 \<and> length opts mod 4 = 0"

text \<open>
  A TCP segment with IP options (\<open>sg_opts\<close>) and TCP options (\<open>sg_topts\<close>), each up to ten words.
  The fields the parser does not read are free too: \<open>sg_front\<close> (type of service to time to
  live), the header checksum \<open>sg_csum\<close>, the acknowledgement number, the reserved bits beside the
  data offset, and \<open>sg_tail\<close> (window, checksum, urgent pointer).
\<close>

record segment =
  sg_front :: bytes
  sg_csum :: bytes
  sg_src :: bytes
  sg_dst :: bytes
  sg_opts :: bytes
  sg_sport :: bytes
  sg_dport :: bytes
  sg_seq :: u32
  sg_ack :: bytes
  sg_reserved :: byte
  sg_flags :: byte
  sg_tail :: bytes
  sg_topts :: bytes
  sg_payload :: bytes

definition data_offset_byte :: "bytes \<Rightarrow> byte \<Rightarrow> byte" where
  "data_offset_byte topts res = push_bit 4 (word_of_nat (5 + length topts div 4)) OR res"

definition tcp_part :: "segment \<Rightarrow> bytes" where
  "tcp_part g =
     sg_sport g @ sg_dport g @ put_be32 (sg_seq g) @ sg_ack g
     @ [data_offset_byte (sg_topts g) (sg_reserved g), sg_flags g] @ sg_tail g @ sg_topts g @ sg_payload g"

definition mk_segment :: "segment \<Rightarrow> bytes" where
  "mk_segment g = ip4_packet (sg_front g) 6 (sg_csum g) (sg_src g) (sg_dst g) (sg_opts g) (tcp_part g)"

definition segment_ok :: "segment \<Rightarrow> bool" where
  "segment_ok g \<longleftrightarrow>
     ip4_fields_ok (sg_front g) (sg_csum g) (sg_src g) (sg_dst g) (sg_opts g)
     \<and> length (sg_sport g) = 2 \<and> length (sg_dport g) = 2 \<and> length (sg_ack g) = 4
     \<and> sg_reserved g < 16 \<and> length (sg_tail g) = 6
     \<and> length (sg_topts g) \<le> 40 \<and> length (sg_topts g) mod 4 = 0"

text \<open>Segments of one flow between two fixed endpoints, for the concrete examples.\<close>

definition demo_key :: flowKey where
  "demo_key = [10, 0, 0, 1, 10, 0, 0, 2, 0, 80, 31, 144, 6]"

definition demo_seg :: "u32 \<Rightarrow> bytes \<Rightarrow> bytes" where
  "demo_seg sq payload = mk_segment
     \<lparr>sg_front = [0, 0, 0, 0, 0, 0, 0, 64], sg_csum = [0, 0], sg_src = [10, 0, 0, 1], sg_dst = [10, 0, 0, 2],
      sg_opts = [], sg_sport = [0, 80], sg_dport = [31, 144], sg_seq = sq, sg_ack = [0, 0, 0, 0],
      sg_reserved = 0, sg_flags = 0x10, sg_tail = [0, 0, 0, 0, 0, 0], sg_topts = [], sg_payload = payload\<rparr>"

section \<open>Lemmas\<close>

lemma parseTCP_go_eq: "parseTCP_go ip = Some (parseTCP ip)"
proof (cases "length ip < 20")
  case False
  define ihl where "ihl = unat (ip ! 0 AND 15) * 4"
  define tcp where "tcp = drop ihl ip"
  from False have hd: "go_index ip 0 = Some (ip ! 0)" "go_index ip 9 = Some (ip ! 9)"
    "go_slice ip 12 16 = Some (bslice ip 12 16)" "go_slice ip 16 20 = Some (bslice ip 16 20)"
    by (auto simp: go_index_def)
  show ?thesis
  proof (cases "ihl < 20 \<or> length ip < ihl + 20")
    case True
    with False hd show ?thesis
      by (auto simp: parseTCP_go_def parseTCP_def Let_def ihl_def [symmetric])
  next
    case ihl: False
    then have len: "20 \<le> length tcp" and t: "go_slice_from ip ihl = Some tcp"
      by (auto simp: tcp_def)
    from len have idx: "go_index tcp 12 = Some (tcp ! 12)" "go_index tcp 13 = Some (tcp ! 13)"
      "go_slice tcp 4 8 = Some (bslice tcp 4 8)" "go_slice tcp 0 2 = Some (bslice tcp 0 2)"
      "go_slice tcp 2 4 = Some (bslice tcp 2 4)"
      by simp_all
    with False ihl show ?thesis
      unfolding parseTCP_go_def parseTCP_def Let_def hd Option.bind_lunit ihl_def [symmetric]
        tcp_def [symmetric] t flow_key_def idx
      by simp
  qed
qed (simp add: parseTCP_go_def parseTCP_def)

lemma parseTCP_SomeE:
  assumes "parseTCP ip = Some (sq, nxt, key)"
  obtains ihl dataOff fl where "20 \<le> ihl" and "20 \<le> dataOff" and "ihl + dataOff \<le> length ip"
    and "seg_consumed (length ip - ihl - dataOff) fl \<noteq> 0"
    and "nxt = sq + of_nat (seg_consumed (length ip - ihl - dataOff) fl)"
    and "key = flow_key ip (drop ihl ip)"
proof -
  define ihl where "ihl = unat (ip ! 0 AND 15) * 4"
  define tcp where "tcp = drop ihl ip"
  define off where "off = unat (drop_bit 4 (tcp ! 12)) * 4"
  have g: "20 \<le> ihl" "20 \<le> off" "off \<le> length tcp" "ihl + 20 \<le> length ip"
    and c: "seg_consumed (length ip - ihl - off) (tcp ! 13) \<noteq> 0"
      "nxt = sq + of_nat (seg_consumed (length ip - ihl - off) (tcp ! 13))"
      "key = flow_key ip tcp"
    using assms
    unfolding parseTCP_def Let_def ihl_def [symmetric] tcp_def [symmetric] off_def [symmetric]
    by (auto split: if_splits)
  then have "ihl + off \<le> length ip" by (simp add: tcp_def)
  with g c show thesis by (auto simp: tcp_def intro: that)
qed

lemma parseTCP_Some_length: "parseTCP ip = Some (sq, nxt, key) \<Longrightarrow> 40 \<le> length ip"
  by (auto elim: parseTCP_SomeE)

lemma length_flow_key:
  "20 \<le> length ip \<Longrightarrow> 4 \<le> length tcp \<Longrightarrow> length (flow_key ip tcp) = 13"
  by (simp add: flow_key_def)

lemma parseTCP_key_length: "parseTCP ip = Some (sq, nxt, key) \<Longrightarrow> length key = 13"
  by (auto elim!: parseTCP_SomeE simp: length_flow_key)

text \<open>A segment that takes part in resequencing always advances the stream.\<close>

lemma seg_consumed_bound: "seg_consumed n fl \<le> Suc n"
  by (simp add: seg_consumed_def)

lemma parseTCP_advance:
  assumes "parseTCP ip = Some (sq, nxt, key)"
  obtains n where "0 < n" and "n < length ip" and "nxt = sq + of_nat n"
proof -
  from assms obtain ihl off fl where "20 \<le> ihl" "20 \<le> off" "ihl + off \<le> length ip"
    and n: "seg_consumed (length ip - ihl - off) fl \<noteq> 0"
      "nxt = sq + of_nat (seg_consumed (length ip - ihl - off) fl)"
    by (rule parseTCP_SomeE)
  with seg_consumed_bound [of "length ip - ihl - off" fl]
  have "seg_consumed (length ip - ihl - off) fl < length ip" by linarith
  with n show thesis by (intro that) auto
qed

text \<open>The header lengths that the builder encodes are read back.\<close>

lemma version_ihl:
  assumes "length opts \<le> 40" and "length opts mod 4 = 0"
  defines "b \<equiv> 0x40 OR word_of_nat (5 + length opts div 4) :: byte"
  shows "drop_bit 4 b = 4" and "unat (b AND 0x0f) * 4 = 20 + length opts"
proof -
  define n where "n = length opts div 4"
  have "n \<le> 10" using assms(1) unfolding n_def by linarith
  moreover have "\<forall>k\<in>set [0..<11]. drop_bit 4 (0x40 OR word_of_nat (5 + k) :: byte) = 4
      \<and> unat ((0x40 OR word_of_nat (5 + k) :: byte) AND 0x0f) = 5 + k"
    by code_simp
  ultimately have "drop_bit 4 b = 4 \<and> unat (b AND 0x0f) = 5 + n"
    unfolding b_def n_def [symmetric] by simp
  moreover have "n * 4 = length opts" using assms(2) unfolding n_def by presburger
  ultimately show "drop_bit 4 b = 4" and "unat (b AND 0x0f) * 4 = 20 + length opts" by simp_all
qed

lemma data_offset_read:
  assumes "length topts \<le> 40" and "length topts mod 4 = 0" and "res < 16"
  shows "unat (drop_bit 4 (data_offset_byte topts res)) * 4 = 20 + length topts"
proof -
  define n where "n = length topts div 4"
  have "n \<in> set [0..<11]" using assms(1) unfolding n_def by simp
  moreover have "res \<in> set (map word_of_nat [0..<16])"
    using assms(3) by (auto simp: word_less_nat_alt intro!: image_eqI [of _ _ "unat res"])
  moreover have "\<forall>k\<in>set [0..<11]. \<forall>r\<in>set (map word_of_nat [0..<16]).
      unat (drop_bit 4 (push_bit 4 (word_of_nat (5 + k)) OR r :: byte)) = 5 + k"
    by code_simp
  ultimately have "unat (drop_bit 4 (data_offset_byte topts res)) = 5 + n"
    unfolding data_offset_byte_def n_def [symmetric] by blast
  moreover have "n * 4 = length topts" using assms(2) unfolding n_def by presburger
  ultimately show ?thesis by simp
qed

lemma ip4_packet_read:
  fixes proto :: byte and body :: bytes
  assumes "ip4_fields_ok front csum src dst opts"
  defines "p \<equiv> ip4_packet front proto csum src dst opts body"
  shows "drop_bit 4 (p ! 0) = 4" and "unat (p ! 0 AND 15) * 4 = 20 + length opts" and "p ! 9 = proto"
    and "bslice p 12 16 = src" and "bslice p 16 20 = dst" and "drop (20 + length opts) p = body"
    and "length p = 20 + length opts + length body"
proof -
  note len = assms(1) [unfolded ip4_fields_ok_def]
  show "drop_bit 4 (p ! 0) = 4" "unat (p ! 0 AND 15) * 4 = 20 + length opts"
    using version_ihl [of opts] len by (simp_all add: p_def ip4_packet_def)
  define pre where "pre = [0x40 OR word_of_nat (5 + length opts div 4)] @ front @ [proto] @ csum
    @ src @ dst @ opts"
  have "p = pre @ body" and "length pre = 20 + length opts"
    using len by (simp_all add: pre_def p_def ip4_packet_def)
  then show "drop (20 + length opts) p = body" by simp
  show "p ! 9 = proto" "bslice p 12 16 = src" "bslice p 16 20 = dst" "length p = 20 + length opts + length body"
    using len by (auto simp: p_def ip4_packet_def nth_append)
qed

lemma tcp_part_read:
  assumes "segment_ok g"
  shows "tcp_part g ! 12 = data_offset_byte (sg_topts g) (sg_reserved g)" and "tcp_part g ! 13 = sg_flags g"
    and "bslice (tcp_part g) 0 2 = sg_sport g" and "bslice (tcp_part g) 2 4 = sg_dport g"
    and "bslice (tcp_part g) 4 8 = put_be32 (sg_seq g)"
    and "length (tcp_part g) = 20 + length (sg_topts g) + length (sg_payload g)"
  using assms by (auto simp: segment_ok_def tcp_part_def nth_append)

lemma parseTCP_mk_segment_raw:
  assumes "segment_ok g"
  shows "parseTCP (mk_segment g) =
    (let n = seg_consumed (length (sg_payload g)) (sg_flags g) in
     if n = 0 then None
     else Some (sg_seq g, sg_seq g + of_nat n, sg_src g @ sg_dst g @ sg_sport g @ sg_dport g @ [6]))"
proof -
  have ip: "ip4_fields_ok (sg_front g) (sg_csum g) (sg_src g) (sg_dst g) (sg_opts g)"
    and off: "unat (drop_bit 4 (data_offset_byte (sg_topts g) (sg_reserved g))) * 4 = 20 + length (sg_topts g)"
    using assms data_offset_read by (auto simp: segment_ok_def)
  note rd = ip4_packet_read [OF ip, of 6 "tcp_part g", folded mk_segment_def] and td = tcp_part_read [OF assms]
  show ?thesis
    unfolding parseTCP_def Let_def rd(1,2,3,6) td(1,2) off flow_key_def rd(4,5) td(3,4,5) be32_put_be32
    using rd(7) td(6) by simp
qed

lemma parseTCP_demo_seg:
  "payload \<noteq> [] \<Longrightarrow>
     parseTCP (demo_seg sq payload) = Some (sq, sq + of_nat (length payload), demo_key)"
  by (simp add: demo_seg_def demo_key_def parseTCP_mk_segment_raw segment_ok_def ip4_fields_ok_def
      seg_consumed_def)

section \<open>Properties\<close>

text \<open>
  C11: \<open>parseTCP\<close> never panics: on every byte slice the version of the parser in which each
  index and slice expression is checked at run time returns, with the result of the unchecked
  one. The length tests before each read are therefore sufficient.
\<close>

theorem parseTCP_no_panic: "parseTCP_go ip = Some (parseTCP ip)"
  by (rule parseTCP_go_eq)

text \<open>
  C12: Round trip of the header parser. For a TCP/IPv4 segment built from its header fields, with
  any IP and TCP options, the parser returns its sequence number, the sequence number after the
  payload and a SYN or FIN, and the 13-byte key made of exactly the endpoints and ports; a segment
  that consumes no sequence space (a pure ACK) is not accepted. None of the other fields and
  neither of the options has an influence.
\<close>

theorem parseTCP_round_trip:
  assumes "segment_ok g"
  shows "parseTCP (mk_segment g) =
    (let n = length (sg_payload g) + (if sg_flags g AND 2 \<noteq> 0 \<or> sg_flags g AND 1 \<noteq> 0 then 1 else 0) in
     if n = 0 then None
     else Some (sg_seq g, sg_seq g + of_nat n, sg_src g @ sg_dst g @ sg_sport g @ sg_dport g @ [6]))"
  using parseTCP_mk_segment_raw [OF assms] by (simp add: seg_consumed_def Let_def)

text \<open>A FIN segment with one word of IP options and three words of TCP options.\<close>

definition demo_fin :: segment where
  "demo_fin =
     \<lparr>sg_front = [0, 0, 66, 1, 2, 64, 0, 64], sg_csum = [3, 4], sg_src = [10, 0, 0, 1], sg_dst = [10, 0, 0, 2],
      sg_opts = [1, 1, 1, 0], sg_sport = [0, 80], sg_dport = [31, 144], sg_seq = 4294967295,
      sg_ack = [9, 9, 9, 9], sg_reserved = 1, sg_flags = 0x11, sg_tail = [1, 0, 5, 6, 0, 0],
      sg_topts = [1, 1, 8, 10, 0, 0, 0, 1, 0, 0, 0, 2], sg_payload = [7, 8]\<rparr>"

theorem parseTCP_round_trip_witness:
  "parseTCP (mk_segment demo_fin) =
    Some (4294967295, 2, [10, 0, 0, 1, 10, 0, 0, 2, 0, 80, 31, 144, 6])"
proof -
  have "segment_ok demo_fin" by (simp add: segment_ok_def ip4_fields_ok_def demo_fin_def)
  from parseTCP_round_trip [OF this] show ?thesis by (simp add: demo_fin_def Let_def)
qed

end
