(* ===== verification/Go_Map.thy ===== *)
theory Go_Map
  imports Prelude
begin

text \<open>
  The interface a Go map gives the code that uses it: lookup with comma-ok, assignment,
  \<open>delete\<close>, \<open>len\<close>, and a \<open>range\<close> that visits every key once in an order the runtime
  picks. The locale states the laws, the lemmas in it are what the resequencer, the observers
  and the configuration reader rely on, and the interpretation discharges the laws for the
  association lists that the models use.
\<close>

locale go_map =
  fixes empty :: 'm
    and get :: "'m \<Rightarrow> 'k \<Rightarrow> 'v option"
    and put :: "'k \<Rightarrow> 'v \<Rightarrow> 'm \<Rightarrow> 'm"
    and del :: "'k \<Rightarrow> 'm \<Rightarrow> 'm"
    and len :: "'m \<Rightarrow> nat"
    and keys :: "'m \<Rightarrow> 'k list"
    and invar :: "'m \<Rightarrow> bool"
  assumes get_empty: "get empty k = None"
    and get_put: "get (put k v m) j = (if j = k then Some v else get m j)"
    and get_del: "get (del k m) j = (if j = k then None else get m j)"
    and set_keys: "set (keys m) = {k. get m k \<noteq> None}"
    and distinct_keys: "invar m \<Longrightarrow> distinct (keys m)"
    and len_keys: "len m = length (keys m)"
    and invar_empty: "invar empty"
    and invar_put: "invar m \<Longrightarrow> invar (put k v m)"
    and invar_del: "invar m \<Longrightarrow> invar (del k m)"
begin

lemma len_card: "invar m \<Longrightarrow> len m = card {k. get m k \<noteq> None}"
  using distinct_card [OF distinct_keys, of m] by (simp add: len_keys set_keys)

lemma finite_get: "finite {k. get m k \<noteq> None}"
  using finite_set [of "keys m"] by (simp only: set_keys)

lemma len_put:
  assumes "invar m"
  shows "len (put k v m) = (if get m k = None then Suc (len m) else len m)"
proof -
  have "{j. get (put k v m) j \<noteq> None} = insert k {j. get m j \<noteq> None}"
    by (auto simp: get_put)
  then show ?thesis
    using assms finite_get [of m] by (simp add: len_card invar_put card_insert_if)
qed

lemma len_del:
  assumes "invar m"
  shows "len (del k m) = (if get m k = None then len m else len m - 1)"
proof -
  have "{j. get (del k m) j \<noteq> None} = {j. get m j \<noteq> None} - {k}"
    by (auto simp: get_del)
  then show ?thesis
    using assms finite_get [of m] by (simp add: len_card invar_del card_Diff_singleton_if)
qed

lemma len_eq_0_iff: "invar m \<Longrightarrow> len m = 0 \<longleftrightarrow> (\<forall>k. get m k = None)"
  using finite_get [of m] by (auto simp: len_card)

lemma len_del_less: "invar m \<Longrightarrow> get m k = Some v \<Longrightarrow> len (del k m) < len m"
  using len_eq_0_iff [of m] by (cases "len m") (auto simp: len_del)

text \<open>A sweep that deletes, in any order, the visited keys that satisfy a condition.\<close>

lemma get_sweep:
  "get (fold (\<lambda>k m. if P k then del k m else m) ks m) j =
     (if j \<in> set ks \<and> P j then None else get m j)"
  by (induction ks arbitrary: m) (auto simp: get_del)

lemma invar_sweep: "invar m \<Longrightarrow> invar (fold (\<lambda>k m. if P k then del k m else m) ks m)"
  by (induction ks arbitrary: m) (auto simp: invar_del)

end

text \<open>The representation: association lists with distinct keys.\<close>

abbreviation map_ok :: "('k, 'v) gomap \<Rightarrow> bool" where
  "map_ok m \<equiv> distinct (map fst m)"

interpretation alist: go_map "[]" map_of AList.update AList.delete length "map fst" map_ok
proof unfold_locales
  show "set (map fst m) = {k. map_of m k \<noteq> None}" for m :: "('k, 'v) gomap"
    by (force simp: map_of_eq_None_iff)
qed (auto simp: update_conv' delete_conv' distinct_update distinct_delete)

lemmas alist_simps [map_simps] =
  alist.get_put alist.get_del alist.len_put alist.len_del

lemma delete_filter: "AList.delete k m = filter (\<lambda>p. fst p \<noteq> k) m"
  by (auto simp: AList.delete_eq case_prod_beta' intro: filter_cong)

lemma sweep_filter:
  "fold (\<lambda>k m. if P k then AList.delete k m else m) ks m =
     filter (\<lambda>p. \<not> (fst p \<in> set ks \<and> P (fst p))) m"
  by (induction ks arbitrary: m) (auto simp: delete_filter intro: filter_cong)

text \<open>The multiset of the stored values, for the conservation laws.\<close>

definition vals_mset :: "('k, 'v) gomap \<Rightarrow> 'v multiset" where
  "vals_mset m = mset (map snd m)"

lemma update_new: "map_of m k = None \<Longrightarrow> AList.update k v m = m @ [(k, v)]"
  by (induction m) (auto split: if_splits)

lemma vals_mset_put_new [map_simps]:
  "map_of m k = None \<Longrightarrow> vals_mset (AList.update k v m) = add_mset v (vals_mset m)"
  by (simp add: vals_mset_def update_new)

lemma vals_mset_del [map_simps]:
  "map_ok m \<Longrightarrow> map_of m k = Some v \<Longrightarrow>
     vals_mset m = add_mset v (vals_mset (AList.delete k m))"
proof (induction m)
  case (Cons p m)
  have "k \<notin> fst ` set m \<Longrightarrow> filter (\<lambda>p. fst p \<noteq> k) m = m"
    by (rule filter_True) force
  with Cons show ?case
    by (cases "fst p = k") (auto simp: vals_mset_def delete_filter)
qed simp

lemma vals_mset_filter:
  "vals_mset m = vals_mset (filter P m) + vals_mset (filter (\<lambda>p. \<not> P p) m)"
  by (induction m) (auto simp: vals_mset_def)

lemma map_of_filter_key:
  "map_of (filter (\<lambda>p. P (fst p)) m) k = (if P k then map_of m k else None)"
  by (induction m) auto

lemma map_ok_filter [simp]: "map_ok m \<Longrightarrow> map_ok (filter P m)"
  by (simp add: distinct_map_filter)

end
