(* ===== verification/Reseq.thy ===== *)
theory Reseq
  imports Packet Go_Map
begin

text \<open>
  The receiver-side resequencer of \<open>utility/reseq.go\<close>: \<open>NewForwardReseq\<close>, \<open>Push\<close>,
  \<open>FlushExpired\<close>, \<open>drain\<close> and \<open>skipGap\<close> over per-flow state.

  A packet is a byte list. The buffered copies and the slice that \<open>Push\<close> returns directly are
  the same value here; the caller writes a returned slice before it reuses its read buffer.
  Each method holds the mutex for its whole body, so a method is one atomic step. A \<open>range\<close>
  over a map takes the order it visits as an argument: \<open>skipGap_ord\<close> for the buffer of a flow
  (its result is shown not to depend on that order), and \<open>ks\<close> in \<open>FlushExpired\<close> for the flows.
\<close>

section \<open>State\<close>

record reseqEntry =
  data :: bytes
  nextAfter :: u32

record reseqFlow =
  primed :: bool
  nextSeq :: u32
  buf :: "(u32, reseqEntry) gomap"
  lastSeen :: time

record ForwardReseq =
  flows :: "(flowKey, reseqFlow) gomap"
  window :: int
  maxAge :: duration

definition NewForwardReseq :: "int \<Rightarrow> duration \<Rightarrow> ForwardReseq" where
  "NewForwardReseq w age =
     \<lparr>flows = [],
      window = (if w \<le> 0 then 128 else w),
      maxAge = (if age \<le> 0 then 5 * Millisecond else age)\<rparr>"

section \<open>Operations\<close>

text \<open>
  \<open>drain\<close> deletes one buffered segment per iteration, so it ends: the buffer shrinks. Two
  entries with one key cannot occur in a Go map; the measure does not need that.
\<close>

lemma length_delete_less: "map_of m k = Some v \<Longrightarrow> length (AList.delete k m) < length m"
  by (auto simp: delete_filter dest!: map_of_SomeD intro!: length_filter_less)

function drain :: "reseqFlow \<Rightarrow> bytes list \<Rightarrow> reseqFlow \<times> bytes list" where
  "drain f out =
     (case map_of (buf f) (nextSeq f) of
        None \<Rightarrow> (f, out)
      | Some e \<Rightarrow>
          drain (f\<lparr>buf := AList.delete (nextSeq f) (buf f), nextSeq := nextAfter e\<rparr>)
                (out @ [data e]))"
  by pat_completeness auto
termination
  by (relation "measure (\<lambda>(f, out). length (buf f))") (auto simp: length_delete_less)

declare drain.simps [simp del]

text \<open>
  The \<open>range\<close> loop of \<open>skipGap\<close>: it deletes the entries at or before the cursor and keeps
  the nearest future one, \<open>best\<close> being \<open>None\<close> while \<open>found\<close> is false.
\<close>

fun skipGap_scan ::
  "u32 list \<Rightarrow> u32 \<Rightarrow> (u32, reseqEntry) gomap \<Rightarrow> (u32 \<times> int) option
     \<Rightarrow> (u32, reseqEntry) gomap \<times> (u32 \<times> int) option" where
  "skipGap_scan [] nx m best = (m, best)"
| "skipGap_scan (s # ss) nx m best =
     (let dist = sint (s - nx) in
      if dist \<le> 0 then skipGap_scan ss nx (AList.delete s m) best
      else if (case best of None \<Rightarrow> True | Some (_, b) \<Rightarrow> dist < b)
        then skipGap_scan ss nx m (Some (s, dist))
      else skipGap_scan ss nx m best)"

definition zero_entry :: reseqEntry where
  "zero_entry = \<lparr>data = [], nextAfter = 0\<rparr>"

definition skipGap_ord ::
  "u32 list \<Rightarrow> reseqFlow \<Rightarrow> bytes list \<Rightarrow> reseqFlow \<times> bytes list \<times> bool" where
  "skipGap_ord order f out =
     (case skipGap_scan order (nextSeq f) (buf f) None of
        (m, None) \<Rightarrow> (f\<lparr>buf := m\<rparr>, out, False)
      | (m, Some (oldest, _)) \<Rightarrow>
          let e = (case map_of m oldest of None \<Rightarrow> zero_entry | Some e \<Rightarrow> e);
              (f', out') = drain (f\<lparr>buf := AList.delete oldest m, nextSeq := nextAfter e\<rparr>)
                                 (out @ [data e])
          in (f', out', True))"

definition skipGap :: "reseqFlow \<Rightarrow> bytes list \<Rightarrow> reseqFlow \<times> bytes list \<times> bool" where
  "skipGap f out = skipGap_ord (map fst (buf f)) f out"

text \<open>The part of \<open>Push\<close> after the flow has been looked up.\<close>

definition new_flow :: reseqFlow where
  "new_flow = \<lparr>primed = False, nextSeq = 0, buf = [], lastSeen = 0\<rparr>"

definition push_seg ::
  "int \<Rightarrow> u32 \<Rightarrow> u32 \<Rightarrow> bytes \<Rightarrow> reseqFlow \<Rightarrow> bytes list \<Rightarrow> reseqFlow \<times> bytes list" where
  "push_seg w sq nxt ip f out =
     (let d = sint (sq - nextSeq f) in
      if d = 0 then drain (f\<lparr>nextSeq := nxt\<rparr>) (out @ [ip])
      else if d < 0 then (f, out @ [ip])
      else let f' = (case map_of (buf f) sq of
                       None \<Rightarrow> f\<lparr>buf := AList.update sq \<lparr>data = ip, nextAfter = nxt\<rparr> (buf f)\<rparr>
                     | Some _ \<Rightarrow> f)
           in if int (length (buf f')) > w
              then let (f'', out', _) = skipGap f' out in (f'', out')
              else (f', out))"

definition touch :: "time \<Rightarrow> u32 \<Rightarrow> reseqFlow \<Rightarrow> reseqFlow" where
  "touch now sq f =
     (let f1 = f\<lparr>lastSeen := now\<rparr>
      in if \<not> primed f1 then f1\<lparr>primed := True, nextSeq := sq\<rparr> else f1)"

definition Push ::
  "bytes \<Rightarrow> time \<Rightarrow> bytes list \<Rightarrow> ForwardReseq \<Rightarrow> ForwardReseq \<times> bytes list" where
  "Push ip now out r =
     (case parseTCP ip of
        None \<Rightarrow> (r, out @ [ip])
      | Some (sq, nxt, key) \<Rightarrow>
          let f = (case map_of (flows r) key of None \<Rightarrow> new_flow | Some f \<Rightarrow> f);
              (f', out') = push_seg (window r) sq nxt ip (touch now sq f) out
          in (r\<lparr>flows := AList.update key f' (flows r)\<rparr>, out'))"

section \<open>Facts about drain\<close>

abbreviation held :: "reseqFlow \<Rightarrow> bytes multiset" where
  "held f \<equiv> image_mset data (vals_mset (buf f))"

lemma drain_None: "map_of (buf f) (nextSeq f) = None \<Longrightarrow> drain f out = (f, out)"
  by (simp add: drain.simps)

lemma drain_Some:
  "map_of (buf f) (nextSeq f) = Some e \<Longrightarrow>
     drain f out =
       drain (f\<lparr>buf := AList.delete (nextSeq f) (buf f), nextSeq := nextAfter e\<rparr>) (out @ [data e])"
  by (simp add: drain.simps [of f])

lemma drain_append: "drain f (xs @ ys) = (fst (drain f ys), xs @ snd (drain f ys))"
proof (induction f ys arbitrary: xs rule: drain.induct)
  case (1 f out)
  then show ?case
    by (cases "map_of (buf f) (nextSeq f)") (simp_all add: drain_None drain_Some)
qed

lemma drain_out: "drain f out = (fst (drain f []), out @ snd (drain f []))"
  using drain_append [of f out "[]"] by simp

text \<open>
  Everything else about \<open>drain\<close> is a step-wise fact, proved by computation induction from an
  empty output.
\<close>

lemma drain_induct [case_names stop step]:
  assumes "\<And>f. map_of (buf f) (nextSeq f) = None \<Longrightarrow> P f f []"
    and "\<And>f e g ds. map_of (buf f) (nextSeq f) = Some e \<Longrightarrow>
      P (f\<lparr>buf := AList.delete (nextSeq f) (buf f), nextSeq := nextAfter e\<rparr>) g ds \<Longrightarrow>
      P f g (data e # ds)"
  shows "P f (fst (drain f [])) (snd (drain f []))"
proof (induction "length (buf f)" arbitrary: f rule: less_induct)
  case less
  show ?case
  proof (cases "map_of (buf f) (nextSeq f)")
    case None
    then show ?thesis by (simp add: drain_None assms(1))
  next
    case (Some e)
    let ?f = "f\<lparr>buf := AList.delete (nextSeq f) (buf f), nextSeq := nextAfter e\<rparr>"
    have "P ?f (fst (drain ?f [])) (snd (drain ?f []))"
      by (rule less) (simp add: Some length_delete_less)
    then have "P f (fst (drain ?f [])) (data e # snd (drain ?f []))"
      by (rule assms(2) [OF Some])
    moreover have "drain f [] = (fst (drain ?f []), data e # snd (drain ?f []))"
      using drain_out [of ?f "[data e]"] by (simp add: drain_Some [OF Some])
    ultimately show ?thesis by simp
  qed
qed

lemma drain_stops: "map_of (buf (fst (drain f []))) (nextSeq (fst (drain f []))) = None"
  by (rule drain_induct) auto

lemma drain_frame:
  "primed (fst (drain f [])) = primed f \<and> lastSeen (fst (drain f [])) = lastSeen f"
  by (rule drain_induct) auto

lemma drain_buf_subset: "set (buf (fst (drain f []))) \<subseteq> set (buf f)"
  by (rule drain_induct) (auto simp: delete_filter)

lemma drain_length_le: "length (buf (fst (drain f []))) \<le> length (buf f)"
proof (rule drain_induct)
  fix f :: reseqFlow and e and g :: reseqFlow
  assume "map_of (buf f) (nextSeq f) = Some e"
    and "length (buf g) \<le>
      length (buf (f\<lparr>buf := AList.delete (nextSeq f) (buf f), nextSeq := nextAfter e\<rparr>))"
  then show "length (buf g) \<le> length (buf f)"
    using length_delete_less [of "buf f" "nextSeq f" e] by simp
qed simp

lemma drain_map_ok: "map_ok (buf f) \<Longrightarrow> map_ok (buf (fst (drain f [])))"
proof -
  have "map_ok (buf f) \<longrightarrow> map_ok (buf (fst (drain f [])))"
    by (rule drain_induct) (auto simp: alist.invar_del)
  then show "map_ok (buf f) \<Longrightarrow> ?thesis" by blast
qed

lemma drain_held:
  "map_ok (buf f) \<Longrightarrow> held f = held (fst (drain f [])) + mset (snd (drain f []))"
proof -
  have "map_ok (buf f) \<longrightarrow> held f = held (fst (drain f [])) + mset (snd (drain f []))"
    by (rule drain_induct) (auto simp: alist.invar_del vals_mset_del)
  then show "map_ok (buf f) \<Longrightarrow> ?thesis" by blast
qed

section \<open>Facts about skipGap\<close>

abbreviation ahead :: "u32 \<Rightarrow> u32 \<Rightarrow> int" where
  "ahead nx s \<equiv> sint (s - nx)"

lemma ahead_inj: "ahead nx s = ahead nx t \<Longrightarrow> s = t"
  by (drule signed_word_eqI) simp

lemma ahead_eq_0_iff: "ahead nx s = 0 \<longleftrightarrow> s = nx"
proof
  assume "ahead nx s = 0"
  then have "ahead nx s = ahead nx nx" by (simp only: diff_self sint_0)
  then show "s = nx" by (rule ahead_inj)
qed simp

lemma skipGap_scan_fst:
  "fst (skipGap_scan ss nx m best) =
     filter (\<lambda>p. \<not> (fst p \<in> set ss \<and> ahead nx (fst p) \<le> 0)) m"
proof -
  have "fst (skipGap_scan ss nx m best) =
      fold (\<lambda>k m. if ahead nx k \<le> 0 then AList.delete k m else m) ss m"
    by (induction ss arbitrary: m best) (auto simp: Let_def)
  then show ?thesis by (simp add: sweep_filter)
qed

definition nearest :: "u32 \<Rightarrow> u32 set \<Rightarrow> (u32 \<times> int) option \<Rightarrow> bool" where
  "nearest nx S best =
     (case best of None \<Rightarrow> S = {}
      | Some (s, d) \<Rightarrow> s \<in> S \<and> d = ahead nx s \<and> (\<forall>t \<in> S. ahead nx s \<le> ahead nx t))"

lemma nearest_empty: "nearest nx {} best \<longleftrightarrow> best = None"
  by (auto simp: nearest_def split: option.splits)

lemma nearestE:
  assumes "nearest nx S best" and "S \<noteq> {}"
  obtains s where "best = Some (s, ahead nx s)" and "s \<in> S" and "\<And>t. t \<in> S \<Longrightarrow> ahead nx s \<le> ahead nx t"
  using assms by (auto simp: nearest_def split: option.splits)

lemma nearest_unique: "nearest nx S a \<Longrightarrow> nearest nx S b \<Longrightarrow> a = b"
  by (fastforce simp: nearest_def split: option.splits intro: ahead_inj)

lemma skipGap_scan_snd:
  "nearest nx S best \<Longrightarrow>
     nearest nx (S \<union> {s \<in> set ss. 0 < ahead nx s}) (snd (skipGap_scan ss nx m best))"
proof (induction ss arbitrary: S m best)
  case Nil
  then show ?case by simp
next
  case (Cons s ss)
  show ?case
  proof (cases "ahead nx s \<le> 0")
    case True
    then have "{t \<in> set (s # ss). 0 < ahead nx t} = {t \<in> set ss. 0 < ahead nx t}" by auto
    with Cons True show ?thesis by (simp add: Let_def)
  next
    case False
    then have eq: "S \<union> {t \<in> set (s # ss). 0 < ahead nx t}
        = insert s S \<union> {t \<in> set ss. 0 < ahead nx t}" by auto
    show ?thesis
    proof (cases "case best of None \<Rightarrow> True | Some (_, b) \<Rightarrow> ahead nx s < b")
      case True
      with Cons.prems have "nearest nx (insert s S) (Some (s, ahead nx s))"
        by (auto simp: nearest_def split: option.splits prod.splits)
      from Cons.IH [OF this, of m] True False show ?thesis unfolding eq by (simp add: Let_def)
    next
      case skip: False
      with Cons.prems have "nearest nx (insert s S) best"
        by (auto simp: nearest_def split: option.splits prod.splits)
      from Cons.IH [OF this, of m] skip False show ?thesis unfolding eq by (simp add: Let_def)
    qed
  qed
qed

text \<open>The order in which \<open>range\<close> visits the buffer does not matter.\<close>

lemma skipGap_scan_order:
  assumes "set ss = fst ` set m" and "set ts = fst ` set m"
  shows "skipGap_scan ss nx m None = skipGap_scan ts nx m None"
proof (rule prod_eqI)
  show "fst (skipGap_scan ss nx m None) = fst (skipGap_scan ts nx m None)"
    by (simp add: skipGap_scan_fst assms)
  have n: "nearest nx {} None" by (simp add: nearest_def)
  show "snd (skipGap_scan ss nx m None) = snd (skipGap_scan ts nx m None)"
    using skipGap_scan_snd [OF n, of ss m] skipGap_scan_snd [OF n, of ts m]
    by (simp add: assms) (rule nearest_unique)
qed

lemma skipGap_ord_eq: "set order = fst ` set (buf f) \<Longrightarrow> skipGap_ord order f out = skipGap f out"
  by (simp add: skipGap_ord_def skipGap_def skipGap_scan_order [of order "buf f" "map fst (buf f)"])

abbreviation future :: "reseqFlow \<Rightarrow> (u32, reseqEntry) gomap" where
  "future f \<equiv> filter (\<lambda>p. 0 < ahead (nextSeq f) (fst p)) (buf f)"

abbreviation orphans :: "reseqFlow \<Rightarrow> bytes multiset" where
  "orphans f \<equiv>
     image_mset data (vals_mset (filter (\<lambda>p. \<not> 0 < ahead (nextSeq f) (fst p)) (buf f)))"

text \<open>The flow after the jump to the buffered segment \<open>s\<close>, before \<open>drain\<close>.\<close>

abbreviation jumped :: "reseqFlow \<Rightarrow> u32 \<Rightarrow> reseqEntry \<Rightarrow> reseqFlow" where
  "jumped f s e \<equiv> f\<lparr>buf := AList.delete s (future f), nextSeq := nextAfter e\<rparr>"

lemma skipGap_none:
  assumes "future f = []"
  shows "skipGap f out = (f\<lparr>buf := []\<rparr>, out, False)"
proof -
  let ?r = "skipGap_scan (map fst (buf f)) (nextSeq f) (buf f) None"
  from assms have "fst ?r = []" by (auto simp: skipGap_scan_fst filter_empty_conv not_less)
  moreover from assms have S: "{s \<in> set (map fst (buf f)). 0 < ahead (nextSeq f) s} = {}"
    by (auto simp: filter_empty_conv)
  have "snd ?r = None"
    using skipGap_scan_snd [of "nextSeq f" "{}" None "map fst (buf f)" "buf f"]
    unfolding S by (simp add: nearest_empty)
  ultimately have "?r = ([], None)" by (metis prod.collapse)
  then show ?thesis by (simp add: skipGap_def skipGap_ord_def)
qed

lemma skipGap_some:
  assumes "future f \<noteq> []"
  obtains s e where "map_of (buf f) s = Some e" and "0 < ahead (nextSeq f) s"
    and "\<And>t. t \<in> fst ` set (future f) \<Longrightarrow> ahead (nextSeq f) s \<le> ahead (nextSeq f) t"
    and "\<And>out. skipGap f out =
      (fst (drain (jumped f s e) []), out @ data e # snd (drain (jumped f s e) []), True)"
proof -
  let ?r = "skipGap_scan (map fst (buf f)) (nextSeq f) (buf f) None"
  have "(\<lambda>p. \<not> (fst p \<in> set (map fst (buf f)) \<and> ahead (nextSeq f) (fst p) \<le> 0)) x \<longleftrightarrow>
      0 < ahead (nextSeq f) (fst x)" if "x \<in> set (buf f)" for x
    using that by force
  then have m: "fst ?r = future f" unfolding skipGap_scan_fst by (rule filter_cong [OF refl])
  have S: "{s \<in> set (map fst (buf f)). 0 < ahead (nextSeq f) s} = fst ` set (future f)" by auto
  have n: "nearest (nextSeq f) (fst ` set (future f)) (snd ?r)"
    using skipGap_scan_snd [of "nextSeq f" "{}" None "map fst (buf f)" "buf f"]
    unfolding S by (simp add: nearest_empty)
  moreover from assms have "fst ` set (future f) \<noteq> {}" by (metis image_is_empty set_empty)
  ultimately obtain s where "snd ?r = Some (s, ahead (nextSeq f) s)"
    and s: "s \<in> fst ` set (future f)"
    and min: "\<And>t. t \<in> fst ` set (future f) \<Longrightarrow> ahead (nextSeq f) s \<le> ahead (nextSeq f) t"
    by (rule nearestE) blast
  with m have r: "?r = (future f, Some (s, ahead (nextSeq f) s))" by (metis prod.collapse)
  from s have "0 < ahead (nextSeq f) s" by auto
  moreover from s have "map_of (future f) s \<noteq> None" by (simp add: map_of_eq_None_iff)
  ultimately obtain e where "map_of (buf f) s = Some e" "map_of (future f) s = Some e"
    by (auto simp: map_of_filter_key [of "\<lambda>k. 0 < ahead (nextSeq f) k"])
  then show thesis
    using \<open>0 < ahead (nextSeq f) s\<close> min
    by (rule_tac that [of s e])
      (simp_all add: skipGap_def skipGap_ord_def r drain_out [of _ "_ @ _"] case_prod_beta Let_def)
qed

text \<open>A successful \<open>skipGap\<close> removes a buffered segment, so the flush loop ends.\<close>

lemma skipGap_shrinks: "skipGap f out = (g, out', True) \<Longrightarrow> length (buf g) < length (buf f)"
proof (cases "future f = []")
  case False
  then obtain s e where e: "map_of (buf f) s = Some e" "0 < ahead (nextSeq f) s"
    and sk: "\<And>out. skipGap f out =
      (fst (drain (jumped f s e) []), out @ data e # snd (drain (jumped f s e) []), True)"
    by (rule skipGap_some) blast
  assume "skipGap f out = (g, out', True)"
  then have "length (buf g) \<le> length (AList.delete s (future f))"
    using drain_length_le [of "jumped f s e"] by (simp add: sk)
  also have "\<dots> < length (future f)"
    using e by (intro length_delete_less [of _ _ e])
      (simp add: map_of_filter_key [of "\<lambda>k. 0 < ahead (nextSeq f) k"])
  also have "\<dots> \<le> length (buf f)" by simp
  finally show ?thesis .
qed (simp add: skipGap_none)

section \<open>FlushExpired\<close>

function flush_flow :: "reseqFlow \<Rightarrow> bytes list \<Rightarrow> reseqFlow \<times> bytes list" where
  "flush_flow f out =
     (if length (buf f) > 0
      then (case skipGap f out of
              (f', out', ok) \<Rightarrow> if ok then flush_flow f' out' else (f', out'))
      else (f, out))"
  by pat_completeness auto
termination
  by (relation "measure (\<lambda>(f, out). length (buf f))") (auto dest: skipGap_shrinks [OF sym])

declare flush_flow.simps [simp del]

fun FlushExpired_loop ::
  "flowKey list \<Rightarrow> time \<Rightarrow> bytes list \<Rightarrow> ForwardReseq \<Rightarrow> ForwardReseq \<times> bytes list" where
  "FlushExpired_loop [] now out r = (r, out)"
| "FlushExpired_loop (k # ks) now out r =
     (case map_of (flows r) k of
        None \<Rightarrow> FlushExpired_loop ks now out r
      | Some f \<Rightarrow>
          if time_Sub now (lastSeen f) < maxAge r then FlushExpired_loop ks now out r
          else FlushExpired_loop ks now (snd (flush_flow f out))
                 (r\<lparr>flows := AList.delete k (flows r)\<rparr>))"

text \<open>\<open>ks\<close> is the order in which this call's \<open>range r.flows\<close> visits the keys.\<close>

definition FlushExpired ::
  "flowKey list \<Rightarrow> time \<Rightarrow> bytes list \<Rightarrow> ForwardReseq \<Rightarrow> ForwardReseq \<times> bytes list" where
  "FlushExpired ks now out r = FlushExpired_loop ks now out r"

section \<open>The resequencing branch of the reader\<close>

text \<open>
  One packet in the resequencing branch of the reader goroutine of \<open>main.go\<close>: \<open>Push\<close> with
  an empty output, then \<open>FlushExpired\<close> at the same time stamp. An event carries the packet,
  the clock reading and the order in which the flush visits the flows.
\<close>

type_synonym reseq_event = "bytes \<times> time \<times> flowKey list"

definition reseq_step :: "reseq_event \<Rightarrow> ForwardReseq \<Rightarrow> ForwardReseq \<times> bytes list" where
  "reseq_step e r =
     (case e of (ip, now, ks) \<Rightarrow>
        let (r1, o1) = Push ip now [] r in FlushExpired ks now o1 r1)"

end
