(* ===== verification/Stage.thy ===== *)
theory Stage
  imports Prelude
begin

text \<open>
  The contract of a packet stage: a state machine that takes one input at a time and emits
  packets. A stage keeps its invariant and neither invents nor duplicates packets: what it has
  emitted and what it still holds was put in. The reader goroutine of \<open>main.go\<close> runs one of
  two such stages, the resequencer or the plain pass-through; both are interpretations of this
  locale, and the facts about whole runs are proved here once.
\<close>

fun run_stage :: "('e \<Rightarrow> 's \<Rightarrow> 's \<times> 'p list) \<Rightarrow> 'e list \<Rightarrow> 's \<Rightarrow> 's \<times> 'p list" where
  "run_stage step [] s = (s, [])"
| "run_stage step (e # es) s =
     (let (s', o1) = step e s; (s'', o2) = run_stage step es s' in (s'', o1 @ o2))"

lemma run_stage_append:
  "run_stage step (xs @ ys) s =
     (let (s', o1) = run_stage step xs s; (s'', o2) = run_stage step ys s' in (s'', o1 @ o2))"
  by (induction xs arbitrary: s) (auto simp: Let_def split: prod.splits)

locale packet_stage =
  fixes step :: "'e \<Rightarrow> 's \<Rightarrow> 's \<times> 'p list"
    and invar :: "'s \<Rightarrow> bool"
    and pending :: "'s \<Rightarrow> 'p multiset"
    and input :: "'e \<Rightarrow> 'p multiset"
  assumes step_invar: "invar s \<Longrightarrow> invar (fst (step e s))"
    and step_conserves: "invar s \<Longrightarrow>
      mset (snd (step e s)) + pending (fst (step e s)) \<subseteq># pending s + input e"
begin

lemma run_invar: "invar s \<Longrightarrow> invar (fst (run_stage step es s))"
proof (induction es arbitrary: s)
  case (Cons e es)
  then have "invar (fst (step e s))" by (simp add: step_invar)
  then show ?case using Cons.IH by (simp add: case_prod_beta Let_def)
qed simp

lemma run_conserves:
  "invar s \<Longrightarrow>
     mset (snd (run_stage step es s)) + pending (fst (run_stage step es s))
       \<subseteq># pending s + (\<Sum>e \<leftarrow> es. input e)"
proof (induction es arbitrary: s)
  case (Cons e es)
  let ?s = "fst (step e s)" and ?o = "snd (step e s)"
  let ?r = "run_stage step es ?s"
  from Cons.prems have inv: "invar ?s" by (rule step_invar)
  have "mset (?o @ snd ?r) + pending (fst ?r) = mset ?o + (mset (snd ?r) + pending (fst ?r))"
    by simp
  also have "\<dots> \<subseteq># mset ?o + (pending ?s + (\<Sum>e \<leftarrow> es. input e))"
    using Cons.IH [OF inv] by (rule subset_mset.add_left_mono)
  also have "\<dots> = (mset ?o + pending ?s) + (\<Sum>e \<leftarrow> es. input e)" by simp
  also have "\<dots> \<subseteq># (pending s + input e) + (\<Sum>e \<leftarrow> es. input e)"
    using step_conserves [OF Cons.prems] by (rule subset_mset.add_right_mono)
  finally show ?case by (simp add: case_prod_beta Let_def add.assoc)
qed simp

end

text \<open>A stage that loses nothing either: what it emits and holds is exactly what was put in.\<close>

locale lossless_stage = packet_stage +
  assumes step_lossless: "invar s \<Longrightarrow>
      mset (snd (step e s)) + pending (fst (step e s)) = pending s + input e"
begin

lemma run_lossless:
  "invar s \<Longrightarrow>
     mset (snd (run_stage step es s)) + pending (fst (run_stage step es s)) = pending s + (\<Sum>e \<leftarrow> es. input e)"
proof (induction es arbitrary: s)
  case (Cons e es)
  let ?r = "run_stage step es (fst (step e s))"
  have "mset (snd ?r) + pending (fst ?r) = pending (fst (step e s)) + (\<Sum>e \<leftarrow> es. input e)"
    using Cons.IH [OF step_invar [OF Cons.prems]] .
  with step_lossless [OF Cons.prems, of e] show ?case
    by (simp add: case_prod_beta Let_def ac_simps)
qed simp

end

end
