(* ===== verification/Reseq_Inv.thy ===== *)
theory Reseq_Inv
  imports Reseq Stage
begin

text \<open>
  What every operation of the resequencer keeps and promises: the well-formedness of its
  state (bounded buffers, every buffered packet filed under its own sequence number, nothing
  deliverable left in a buffer), the conservation of packets, the isolation of flows, and the
  effect of \<open>FlushExpired\<close>.
\<close>

section \<open>The invariant\<close>

definition entry_ok :: "flowKey \<Rightarrow> u32 \<times> reseqEntry \<Rightarrow> bool" where
  "entry_ok k p \<longleftrightarrow> parseTCP (data (snd p)) = Some (fst p, nextAfter (snd p), k)"

definition buf_ok :: "flowKey \<Rightarrow> reseqFlow \<Rightarrow> bool" where
  "buf_ok k f \<longleftrightarrow> primed f \<and> map_ok (buf f) \<and> list_all (entry_ok k) (buf f)"

definition flow_ok :: "flowKey \<Rightarrow> int \<Rightarrow> reseqFlow \<Rightarrow> bool" where
  "flow_ok k w f \<longleftrightarrow>
     buf_ok k f \<and> map_of (buf f) (nextSeq f) = None \<and> int (length (buf f)) \<le> w"

definition reseq_ok :: "ForwardReseq \<Rightarrow> bool" where
  "reseq_ok r \<longleftrightarrow>
     0 < window r \<and> 0 < maxAge r \<and> maxAge r \<le> max_duration \<and> map_ok (flows r)
     \<and> list_all (\<lambda>(k, f). flow_ok k (window r) f) (flows r)"

lemma reseq_ok_flow: "reseq_ok r \<Longrightarrow> map_of (flows r) k = Some f \<Longrightarrow> flow_ok k (window r) f"
  by (auto simp: reseq_ok_def list_all_iff dest: map_of_SomeD)

lemma reseq_ok_new [inv_intros]:
  "age \<le> max_duration \<Longrightarrow> reseq_ok (NewForwardReseq w age)"
  by (simp add: reseq_ok_def NewForwardReseq_def max_duration_def Millisecond_def)

lemma buf_ok_entry: "buf_ok k f \<Longrightarrow> map_of (buf f) s = Some e \<Longrightarrow>
    parseTCP (data e) = Some (s, nextAfter e, k)"
  by (auto simp: buf_ok_def list_all_iff entry_ok_def dest!: map_of_SomeD)

lemma drain_buf_ok: "buf_ok k f \<Longrightarrow> buf_ok k (fst (drain f []))"
  using drain_buf_subset [of f] drain_frame [of f] drain_map_ok [of f]
  by (auto simp: buf_ok_def list_all_iff)

lemma drain_flow_ok [inv_intros]:
  "buf_ok k f \<Longrightarrow> int (length (buf f)) \<le> w \<Longrightarrow> flow_ok k w (fst (drain f []))"
  using drain_length_le [of f] by (simp add: flow_ok_def drain_buf_ok drain_stops)

lemma buf_ok_jumped: "buf_ok k f \<Longrightarrow> buf_ok k (jumped f s e)"
  by (auto simp: buf_ok_def list_all_iff delete_filter)

lemma skipGap_flow_ok [inv_intros]:
  assumes "buf_ok k f" and "int (length (buf f)) \<le> w + 1" and "0 \<le> w"
  shows "flow_ok k w (fst (skipGap f out))"
proof (cases "future f = []")
  case True
  with assms show ?thesis by (simp add: skipGap_none flow_ok_def buf_ok_def)
next
  case False
  then obtain s e where "map_of (buf f) s = Some e" "0 < ahead (nextSeq f) s"
    and sk: "\<And>out. skipGap f out =
      (fst (drain (jumped f s e) []), out @ data e # snd (drain (jumped f s e) []), True)"
    by (rule skipGap_some) blast
  have "length (buf (fst (skipGap f out))) < length (buf f)"
    by (rule skipGap_shrinks) (simp add: sk)
  with assms have "int (length (buf (fst (drain (jumped f s e) [])))) \<le> w" by (simp add: sk)
  then show ?thesis
    by (simp add: sk flow_ok_def drain_stops drain_buf_ok buf_ok_jumped assms)
qed

lemma push_seg_flow_ok [inv_intros]:
  assumes ok: "flow_ok k w f" and p: "parseTCP ip = Some (sq, nxt, k)" and w: "0 \<le> w"
  shows "flow_ok k w (fst (push_seg w sq nxt ip f out))"
proof -
  let ?d = "ahead (nextSeq f) sq"
  let ?g = "f\<lparr>buf := AList.update sq \<lparr>data = ip, nextAfter = nxt\<rparr> (buf f)\<rparr>"
  have m: "map_ok (buf f)" and b: "buf_ok k f" and len: "int (length (buf f)) \<le> w"
    using ok by (simp_all add: flow_ok_def buf_ok_def)
  have drop: "flow_ok k w (fst (drain (f\<lparr>nextSeq := nxt\<rparr>) (out @ [ip])))"
    using b len by (subst drain_out) (auto intro!: drain_flow_ok simp: buf_ok_def)
  show ?thesis
  proof (cases "0 < ?d \<and> map_of (buf f) sq = None")
    case True
    then have "buf_ok k ?g" "int (length (buf ?g)) \<le> w + 1"
      using b len p m by (auto simp: buf_ok_def update_new entry_ok_def map_of_eq_None_iff)
    moreover have "map_of (buf ?g) (nextSeq f) = None"
      using True ok by (auto simp: flow_ok_def alist.get_put)
    ultimately show ?thesis
      using True skipGap_flow_ok [of k ?g w out] w
      by (auto simp: push_seg_def Let_def flow_ok_def case_prod_beta)
  next
    case False
    with ok drop len show ?thesis
      by (auto simp: push_seg_def Let_def split: option.splits)
  qed
qed

lemma touch_flow_ok [inv_intros]: "flow_ok k w f \<Longrightarrow> flow_ok k w (touch now sq f)"
  by (simp add: touch_def flow_ok_def buf_ok_def)

lemma touch_new_flow_ok [inv_intros]: "0 \<le> w \<Longrightarrow> flow_ok k w (touch now sq new_flow)"
  by (simp add: touch_def flow_ok_def buf_ok_def new_flow_def)

text \<open>The flow that \<open>Push\<close> works on: the stored one, or a new one, primed and stamped.\<close>

abbreviation cur_flow :: "time \<Rightarrow> u32 \<Rightarrow> flowKey \<Rightarrow> ForwardReseq \<Rightarrow> reseqFlow" where
  "cur_flow now sq k r \<equiv>
     touch now sq (case map_of (flows r) k of None \<Rightarrow> new_flow | Some f \<Rightarrow> f)"

lemma cur_flow_ok: "reseq_ok r \<Longrightarrow> flow_ok k (window r) (cur_flow now sq k r)"
  by (cases "map_of (flows r) k")
    (auto simp: reseq_ok_flow touch_flow_ok intro: touch_new_flow_ok simp: reseq_ok_def)

lemma Push_Some:
  assumes "parseTCP ip = Some (sq, nxt, k)"
  shows "Push ip now out r =
    (r\<lparr>flows := AList.update k (fst (push_seg (window r) sq nxt ip (cur_flow now sq k r) out)) (flows r)\<rparr>,
     snd (push_seg (window r) sq nxt ip (cur_flow now sq k r) out))"
  by (simp add: Push_def assms case_prod_beta Let_def)

lemma Push_None: "parseTCP ip = None \<Longrightarrow> Push ip now out r = (r, out @ [ip])"
  by (simp add: Push_def)

lemma set_update_subset: "set (AList.update k v m) \<subseteq> insert (k, v) (set m)"
  by (induction m) auto

lemma Push_ok: "reseq_ok r \<Longrightarrow> reseq_ok (fst (Push ip now out r))"
proof (cases "parseTCP ip")
  case (Some t)
  obtain sq nxt k where t: "t = (sq, nxt, k)" by (cases t)
  let ?g = "fst (push_seg (window r) sq nxt ip (cur_flow now sq k r) out)"
  assume r: "reseq_ok r"
  then have "flow_ok k (window r) ?g"
    using Some t by (intro push_seg_flow_ok cur_flow_ok) (auto simp: reseq_ok_def)
  with r set_update_subset [of k ?g "flows r"] show ?thesis
    by (auto simp: Push_Some [OF Some [unfolded t]] reseq_ok_def alist.invar_put list_all_iff)
qed (simp add: Push_None)

section \<open>Flushing\<close>

lemma skipGap_out:
  "skipGap f out = (fst (skipGap f []), out @ fst (snd (skipGap f [])), snd (snd (skipGap f [])))"
proof (cases "future f = []")
  case False
  then obtain s e where "map_of (buf f) s = Some e" "0 < ahead (nextSeq f) s"
    and "\<And>out. skipGap f out =
      (fst (drain (jumped f s e) []), out @ data e # snd (drain (jumped f s e) []), True)"
    by (rule skipGap_some) blast
  then show ?thesis by simp
qed (simp add: skipGap_none)

lemma flush_flow_out: "flush_flow f out = (fst (flush_flow f []), out @ snd (flush_flow f []))"
proof (induction "length (buf f)" arbitrary: f out rule: less_induct)
  case less
  obtain g ds ok where sk: "skipGap f [] = (g, ds, ok)" by (cases "skipGap f []")
  have sk': "skipGap f xs = (g, xs @ ds, ok)" for xs
    using skipGap_out [of f xs] by (simp add: sk)
  show ?case
  proof (cases "0 < length (buf f) \<and> ok")
    case True
    then have "length (buf g) < length (buf f)" using sk by (auto dest: skipGap_shrinks)
    from less [OF this, of "out @ ds"] less [OF this, of ds] True show ?thesis
      by (simp add: flush_flow.simps [of f] sk')
  next
    case False
    then show ?thesis by (auto simp: flush_flow.simps [of f] sk')
  qed
qed

text \<open>
  Induction over the iterations of the flush loop: it stops on an empty buffer, or on one with
  only past segments, or jumps to the nearest future segment, drains and goes on.
\<close>

lemma flush_flow_induct [case_names empty past jump]:
  assumes "\<And>f. buf f = [] \<Longrightarrow> P f []"
    and "\<And>f. buf f \<noteq> [] \<Longrightarrow> future f = [] \<Longrightarrow> P f []"
    and "\<And>f s e ds. map_of (buf f) s = Some e \<Longrightarrow> 0 < ahead (nextSeq f) s \<Longrightarrow>
      (\<And>t. t \<in> fst ` set (future f) \<Longrightarrow> ahead (nextSeq f) s \<le> ahead (nextSeq f) t) \<Longrightarrow>
      P (fst (drain (jumped f s e) [])) ds \<Longrightarrow>
      P f (data e # snd (drain (jumped f s e) []) @ ds)"
  shows "P f (snd (flush_flow f []))"
proof (induction "length (buf f)" arbitrary: f rule: less_induct)
  case less
  consider "buf f = []" | "buf f \<noteq> []" "future f = []" | "buf f \<noteq> []" "future f \<noteq> []" by blast
  then show ?case
  proof cases
    case 1
    then show ?thesis by (simp add: flush_flow.simps assms(1))
  next
    case 2
    then show ?thesis by (simp add: flush_flow.simps skipGap_none assms(2))
  next
    case 3
    then obtain s e where e: "map_of (buf f) s = Some e" "0 < ahead (nextSeq f) s"
      and min: "\<And>t. t \<in> fst ` set (future f) \<Longrightarrow> ahead (nextSeq f) s \<le> ahead (nextSeq f) t"
      and sk: "\<And>out. skipGap f out =
        (fst (drain (jumped f s e) []), out @ data e # snd (drain (jumped f s e) []), True)"
      using skipGap_some [of f] by blast
    let ?g = "fst (drain (jumped f s e) [])"
    from sk [of "[]"] have "length (buf ?g) < length (buf f)" by (auto dest: skipGap_shrinks)
    then have "P ?g (snd (flush_flow ?g []))" by (rule less)
    with assms(3) [OF e min] have "P f (data e # snd (drain (jumped f s e) []) @ snd (flush_flow ?g []))"
      by blast
    with 3 show ?thesis
      using flush_flow_out [of ?g "data e # snd (drain (jumped f s e) [])"]
      by (simp add: flush_flow.simps [of f] sk)
  qed
qed

lemma vals_mset_delete_future:
  assumes "map_ok (buf f)" and "map_of (buf f) s = Some e" and "0 < ahead (nextSeq f) s"
  shows "held f = add_mset (data e) (held (jumped f s e)) + orphans f"
proof -
  have "map_of (future f) s = Some e"
    using assms by (simp add: map_of_filter_key [of "\<lambda>k. 0 < ahead (nextSeq f) k"])
  then have "vals_mset (future f) = add_mset e (vals_mset (AList.delete s (future f)))"
    using assms(1) by (intro vals_mset_del) simp_all
  then show ?thesis
    by (subst vals_mset_filter [of "buf f" "\<lambda>p. 0 < ahead (nextSeq f) (fst p)"]) simp
qed

lemma map_ok_jumped: "map_ok (buf f) \<Longrightarrow> map_ok (buf (jumped f s e))"
  by (simp add: alist.invar_del)

text \<open>A gap skip loses exactly the segments at or behind the cursor.\<close>

lemma skipGap_held:
  assumes "map_ok (buf f)"
  shows "held f = held (fst (skipGap f [])) + mset (fst (snd (skipGap f []))) + orphans f"
proof (cases "future f = []")
  case True
  then have "filter (\<lambda>p. \<not> 0 < ahead (nextSeq f) (fst p)) (buf f) = buf f"
    by (simp add: filter_empty_conv filter_id_conv)
  with True show ?thesis by (simp add: skipGap_none vals_mset_def)
next
  case False
  then obtain s e where e: "map_of (buf f) s = Some e" "0 < ahead (nextSeq f) s"
    and sk: "\<And>out. skipGap f out =
      (fst (drain (jumped f s e) []), out @ data e # snd (drain (jumped f s e) []), True)"
    by (rule skipGap_some) blast
  show ?thesis
    using vals_mset_delete_future [OF assms e] drain_held [OF map_ok_jumped [OF assms, of e s]]
    by (simp add: sk)
qed

lemma flush_flow_subset: "map_ok (buf f) \<Longrightarrow> mset (snd (flush_flow f [])) \<subseteq># held f"
proof -
  have "map_ok (buf f) \<longrightarrow> mset (snd (flush_flow f [])) \<subseteq># held f"
  proof (induction rule: flush_flow_induct)
    case (jump f s e ds)
    let ?j = "jumped f s e"
    show ?case
    proof
      assume m: "map_ok (buf f)"
      with jump have "mset ds \<subseteq># held (fst (drain ?j []))"
        by (simp only: drain_map_ok map_ok_jumped simp_thms)
      then have "add_mset (data e) (mset (snd (drain ?j [])) + mset ds) \<subseteq># add_mset (data e) (held ?j)"
        using drain_held [OF map_ok_jumped [OF m, of e s]] by (simp add: add.commute)
      also have "\<dots> \<subseteq># held f"
        using vals_mset_delete_future [OF m jump(1,2)] by simp
      finally show "mset (data e # snd (drain ?j []) @ ds) \<subseteq># held f" by simp
    qed
  qed simp_all
  then show "map_ok (buf f) \<Longrightarrow> ?thesis" by blast
qed

lemma flush_flow_clears: "buf (fst (flush_flow f out)) = []"
proof (induction f out rule: flush_flow.induct)
  case (1 f out)
  show ?case
  proof (cases "future f = []")
    case True
    then show ?thesis by (simp add: flush_flow.simps skipGap_none)
  next
    case False
    then obtain s e where "map_of (buf f) s = Some e" "0 < ahead (nextSeq f) s"
      and "\<And>out. skipGap f out =
        (fst (drain (jumped f s e) []), out @ data e # snd (drain (jumped f s e) []), True)"
      by (rule skipGap_some) blast
    with 1 show ?thesis by (cases "buf f") (simp_all add: flush_flow.simps [of f])
  qed
qed

abbreviation expired :: "time \<Rightarrow> ForwardReseq \<Rightarrow> reseqFlow \<Rightarrow> bool" where
  "expired now r f \<equiv> \<not> time_Sub now (lastSeen f) < maxAge r"

lemma map_of_filter_snd:
  "map_ok m \<Longrightarrow> map_of (filter (\<lambda>p. \<not> (fst p \<in> fst ` set m \<and> P (snd p))) m) k =
     (case map_of m k of None \<Rightarrow> None | Some v \<Rightarrow> if P v then None else Some v)"
proof -
  assume m: "map_ok m"
  have "filter (\<lambda>p. \<not> (fst p \<in> fst ` set m \<and> P (snd p))) m = filter (\<lambda>p. \<not> P (snd p)) m"
    by (intro filter_cong) auto
  moreover have "map_of (filter (\<lambda>p. \<not> P (snd p)) m) k =
     (case map_of m k of None \<Rightarrow> None | Some v \<Rightarrow> if P v then None else Some v)"
    using m
  proof (induction m)
    case (Cons p m)
    then have "fst p = k \<Longrightarrow> map_of m k = None" by (auto simp: map_of_eq_None_iff)
    with Cons show ?case by auto
  qed simp
  ultimately show ?thesis by simp
qed

text \<open>What one call of \<open>FlushExpired\<close> does to the map of flows, and what it emits.\<close>

lemma FlushExpired_loop_state:
  "map_ok (flows r) \<Longrightarrow> fst (FlushExpired_loop ks now out r) =
     r\<lparr>flows := filter (\<lambda>p. \<not> (fst p \<in> set ks \<and> expired now r (snd p))) (flows r)\<rparr>"
proof (induction ks now out r rule: FlushExpired_loop.induct)
  case (2 k ks now out r)
  show ?case
  proof (cases "map_of (flows r) k")
    case None
    then have "p \<in> set (flows r) \<Longrightarrow> fst p \<noteq> k" for p by (auto simp: map_of_eq_None_iff)
    with 2 None show ?thesis
      by (auto intro!: arg_cong [where f = "\<lambda>x. r\<lparr>flows := x\<rparr>"] filter_cong)
  next
    case (Some f)
    have f: "p \<in> set (flows r) \<Longrightarrow> fst p = k \<Longrightarrow> snd p = f" for p
      using 2(4) Some by (metis map_of_is_SomeI option.inject prod.collapse)
    show ?thesis
    proof (cases "expired now r f")
      case True
      then have "fst (FlushExpired_loop (k # ks) now out r) =
          r\<lparr>flows := filter (\<lambda>p. \<not> (fst p \<in> set ks \<and> expired now r (snd p)))
             (AList.delete k (flows r))\<rparr>"
        using 2 Some by (simp add: delete_filter)
      also have "\<dots> = r\<lparr>flows := filter (\<lambda>p. \<not> (fst p \<in> set (k # ks) \<and> expired now r (snd p)))
             (flows r)\<rparr>"
        using True f by (auto simp: delete_filter intro!: arg_cong [where f = "\<lambda>x. r\<lparr>flows := x\<rparr>"]
            filter_cong)
      finally show ?thesis .
    next
      case False
      with 2 Some f show ?thesis
        by (auto intro!: arg_cong [where f = "\<lambda>x. r\<lparr>flows := x\<rparr>"] filter_cong)
    qed
  qed
qed simp

definition flushed :: "time \<Rightarrow> ForwardReseq \<Rightarrow> flowKey \<Rightarrow> bytes list" where
  "flushed now r k =
     (case map_of (flows r) k of
        None \<Rightarrow> []
      | Some f \<Rightarrow> if expired now r f then snd (flush_flow f []) else [])"

lemma flushed_delete: "j \<noteq> k \<Longrightarrow> flushed now (r\<lparr>flows := AList.delete k (flows r)\<rparr>) j = flushed now r j"
  by (simp add: flushed_def alist.get_del split: option.split)

lemma FlushExpired_loop_out:
  "distinct ks \<Longrightarrow>
     snd (FlushExpired_loop ks now out r) = out @ concat (map (flushed now r) ks)"
proof (induction ks now out r rule: FlushExpired_loop.induct)
  case (2 k ks now out r)
  show ?case
  proof (cases "\<exists>f. map_of (flows r) k = Some f \<and> expired now r f")
    case True
    then obtain f where f: "map_of (flows r) k = Some f" "expired now r f" by blast
    let ?r = "r\<lparr>flows := AList.delete k (flows r)\<rparr>"
    have "map (flushed now ?r) ks = map (flushed now r) ks"
      using 2(4) by (intro map_cong refl flushed_delete) auto
    then have "snd (FlushExpired_loop ks now (snd (flush_flow f out)) ?r) =
        snd (flush_flow f out) @ concat (map (flushed now r) ks)"
      using 2(3) [OF f] 2(4) by (simp del: map_eq_conv)
    with f show ?thesis by (simp add: flush_flow_out [of f out] flushed_def [of _ _ k])
  next
    case False
    with 2 show ?thesis by (auto simp: flushed_def split: option.splits)
  qed
qed simp

lemma FlushExpired_ok: "reseq_ok r \<Longrightarrow> reseq_ok (fst (FlushExpired ks now out r))"
  by (auto simp: FlushExpired_def FlushExpired_loop_state reseq_ok_def list_all_iff)

section \<open>Order of emission\<close>

text \<open>
  A list of segments of flow \<open>k\<close> is in order from the cursor \<open>c\<close> when each one starts at or
  ahead of the end of the one before it; \<open>cursor\<close> is where the last one ends.
\<close>

fun in_order :: "flowKey \<Rightarrow> u32 \<Rightarrow> bytes list \<Rightarrow> bool" where
  "in_order k c [] \<longleftrightarrow> True"
| "in_order k c (p # ps) \<longleftrightarrow>
     (case parseTCP p of
        None \<Rightarrow> False
      | Some (sq, nx, k') \<Rightarrow> k' = k \<and> 0 \<le> ahead c sq \<and> in_order k nx ps)"

fun cursor :: "u32 \<Rightarrow> bytes list \<Rightarrow> u32" where
  "cursor c [] = c"
| "cursor c (p # ps) =
     (case parseTCP p of None \<Rightarrow> cursor c ps | Some (_, nx, _) \<Rightarrow> cursor nx ps)"

lemma in_order_append: "in_order k c (xs @ ys) \<longleftrightarrow> in_order k c xs \<and> in_order k (cursor c xs) ys"
  by (induction xs arbitrary: c) (auto split: option.splits)

lemma cursor_append: "cursor c (xs @ ys) = cursor (cursor c xs) ys"
  by (induction xs arbitrary: c) (auto split: option.splits)

lemma buf_ok_delete:
  "buf_ok k f \<Longrightarrow> buf_ok k (f\<lparr>buf := AList.delete s (buf f), nextSeq := c\<rparr>)"
  by (auto simp: buf_ok_def list_all_iff delete_filter)

lemma drain_in_order:
  "buf_ok k f \<Longrightarrow> in_order k (nextSeq f) (snd (drain f []))
     \<and> nextSeq (fst (drain f [])) = cursor (nextSeq f) (snd (drain f []))"
proof -
  have "buf_ok k f \<longrightarrow> in_order k (nextSeq f) (snd (drain f []))
     \<and> nextSeq (fst (drain f [])) = cursor (nextSeq f) (snd (drain f []))"
    by (induction rule: drain_induct) (auto simp: buf_ok_entry buf_ok_delete)
  then show "buf_ok k f \<Longrightarrow> ?thesis" by blast
qed

lemma skipGap_in_order:
  assumes "buf_ok k f"
  shows "in_order k (nextSeq f) (fst (snd (skipGap f [])))
     \<and> nextSeq (fst (skipGap f [])) = cursor (nextSeq f) (fst (snd (skipGap f [])))"
proof (cases "future f = []")
  case False
  then obtain s e where e: "map_of (buf f) s = Some e" "0 < ahead (nextSeq f) s"
    and sk: "\<And>out. skipGap f out =
      (fst (drain (jumped f s e) []), out @ data e # snd (drain (jumped f s e) []), True)"
    by (rule skipGap_some) blast
  show ?thesis
    using drain_in_order [OF buf_ok_jumped [OF assms, of e s]] e buf_ok_entry [OF assms e(1)]
    by (simp add: sk)
qed (simp add: skipGap_none)

lemma flush_flow_in_order: "buf_ok k f \<Longrightarrow> in_order k (nextSeq f) (snd (flush_flow f []))"
proof -
  have "buf_ok k f \<longrightarrow> in_order k (nextSeq f) (snd (flush_flow f []))"
  proof (induction rule: flush_flow_induct)
    case (jump f s e ds)
    let ?j = "jumped f s e"
    show ?case
    proof
      assume b: "buf_ok k f"
      from jump b have "in_order k (nextSeq (fst (drain ?j []))) ds"
        by (simp only: drain_buf_ok buf_ok_jumped simp_thms)
      with drain_in_order [OF buf_ok_jumped [OF b, of e s]] buf_ok_entry [OF b jump(1)] jump(2)
      show "in_order k (nextSeq f) (data e # snd (drain ?j []) @ ds)"
        by (simp add: in_order_append)
    qed
  qed simp_all
  then show "buf_ok k f \<Longrightarrow> ?thesis" by blast
qed

lemma push_seg_out:
  "push_seg w sq nxt ip f out =
     (fst (push_seg w sq nxt ip f []), out @ snd (push_seg w sq nxt ip f []))"
  using drain_append [of "f\<lparr>nextSeq := nxt\<rparr>" out "[ip]"]
  by (auto simp: push_seg_def Let_def case_prod_beta skipGap_out [of _ out])

lemma push_seg_in_order:
  assumes ok: "flow_ok k w f" and p: "parseTCP ip = Some (sq, nxt, k)"
    and d: "0 \<le> ahead (nextSeq f) sq"
  shows "in_order k (nextSeq f) (snd (push_seg w sq nxt ip f []))
     \<and> nextSeq (fst (push_seg w sq nxt ip f [])) = cursor (nextSeq f) (snd (push_seg w sq nxt ip f []))"
proof -
  let ?f = "f\<lparr>nextSeq := nxt\<rparr>"
  let ?g = "f\<lparr>buf := AList.update sq \<lparr>data = ip, nextAfter = nxt\<rparr> (buf f)\<rparr>"
  have b: "buf_ok k f" using ok by (simp add: flow_ok_def)
  consider "ahead (nextSeq f) sq = 0" | "0 < ahead (nextSeq f) sq" "map_of (buf f) sq = None"
    | "0 < ahead (nextSeq f) sq" "map_of (buf f) sq \<noteq> None" using d by linarith
  then show ?thesis
  proof cases
    case 1
    have "buf_ok k ?f" using b by (simp add: buf_ok_def)
    with 1 show ?thesis
      using drain_in_order [of k ?f] p
      by (simp add: push_seg_def drain_out [of ?f "[ip]"])
  next
    case 2
    then have "buf_ok k ?g"
      using b p by (auto simp: buf_ok_def update_new entry_ok_def map_of_eq_None_iff)
    with 2 show ?thesis
      using skipGap_in_order [of k ?g] by (simp add: push_seg_def Let_def case_prod_beta)
  next
    case 3
    with ok show ?thesis by (auto simp: push_seg_def Let_def flow_ok_def)
  qed
qed

section \<open>Conservation\<close>

lemma push_seg_conserves:
  assumes m: "map_ok (buf f)"
  shows "mset (snd (push_seg w sq nxt ip f [])) + held (fst (push_seg w sq nxt ip f []))
     \<subseteq># add_mset ip (held f)"
proof -
  let ?f = "f\<lparr>nextSeq := nxt\<rparr>"
  let ?g = "f\<lparr>buf := AList.update sq \<lparr>data = ip, nextAfter = nxt\<rparr> (buf f)\<rparr>"
  consider "ahead (nextSeq f) sq = 0" | "ahead (nextSeq f) sq < 0"
    | "0 < ahead (nextSeq f) sq" "map_of (buf f) sq = None"
    | e where "0 < ahead (nextSeq f) sq" "map_of (buf f) sq = Some e" by force
  then show ?thesis
  proof cases
    case 1
    with drain_held [of ?f] m show ?thesis
      by (simp add: push_seg_def drain_out [of ?f "[ip]"] add.commute)
  next
    case 2
    then show ?thesis by (simp add: push_seg_def)
  next
    case 3
    with skipGap_held [of ?g] m have "held ?g = add_mset ip (held f)"
      and "mset (fst (snd (skipGap ?g []))) + held (fst (skipGap ?g [])) \<subseteq># held ?g"
      by (simp_all add: vals_mset_put_new alist.invar_put add.commute)
    with 3 show ?thesis by (simp add: push_seg_def Let_def case_prod_beta)
  next
    case 4
    with skipGap_held [OF m] have "mset (fst (snd (skipGap f []))) + held (fst (skipGap f [])) \<subseteq># held f"
      by (simp add: add.commute)
    with 4 show ?thesis
      by (auto simp: push_seg_def Let_def case_prod_beta intro: subset_mset.order_trans)
  qed
qed

text \<open>
  Nothing is lost when the segment is not a second copy of a buffered one and no buffered
  segment has fallen behind the cursor.
\<close>

lemma push_seg_lossless:
  assumes m: "map_ok (buf f)" and new: "map_of (buf f) sq = None"
    and fut: "\<And>s. s \<in> fst ` set (buf f) \<Longrightarrow> 0 < ahead (nextSeq f) s"
  shows "mset (snd (push_seg w sq nxt ip f [])) + held (fst (push_seg w sq nxt ip f []))
     = add_mset ip (held f)"
proof -
  let ?f = "f\<lparr>nextSeq := nxt\<rparr>"
  let ?g = "f\<lparr>buf := AList.update sq \<lparr>data = ip, nextAfter = nxt\<rparr> (buf f)\<rparr>"
  consider "ahead (nextSeq f) sq = 0" | "ahead (nextSeq f) sq < 0"
    | "0 < ahead (nextSeq f) sq" by force
  then show ?thesis
  proof cases
    case 1
    with drain_held [of ?f] m show ?thesis
      by (simp add: push_seg_def drain_out [of ?f "[ip]"] add.commute)
  next
    case 2
    then show ?thesis by (simp add: push_seg_def)
  next
    case 3
    with fut have e: "filter (\<lambda>p. \<not> 0 < ahead (nextSeq ?g) (fst p)) (buf ?g) = []"
      by (auto simp: filter_empty_conv update_new [OF new])
    have "map_ok (buf ?g)" using m by (simp add: alist.invar_put)
    from skipGap_held [OF this, unfolded e]
    have "mset (fst (snd (skipGap ?g []))) + held (fst (skipGap ?g [])) = held ?g"
      by (simp add: vals_mset_def add.commute)
    moreover have "held ?g = add_mset ip (held f)"
      using m new by (simp add: vals_mset_put_new)
    ultimately show ?thesis
      using 3 new by (simp add: push_seg_def Let_def case_prod_beta)
  qed
qed

definition held_all :: "ForwardReseq \<Rightarrow> bytes multiset" where
  "held_all r = (\<Sum>p \<leftarrow> flows r. held (snd p))"

lemma held_all_delete:
  assumes "map_ok (flows r)" and "map_of (flows r) k = Some f"
  shows "held_all r = held f + held_all (r\<lparr>flows := AList.delete k (flows r)\<rparr>)"
proof -
  have "map_ok m \<Longrightarrow> map_of m k = Some f \<Longrightarrow>
    (\<Sum>p \<leftarrow> m. held (snd p)) = held f + (\<Sum>p \<leftarrow> AList.delete k m. held (snd p))" for m
  proof (induction m)
    case (Cons p m)
    from Cons.prems have "fst p = k \<Longrightarrow> filter (\<lambda>p. fst p \<noteq> k) m = m"
      by (auto intro!: filter_True simp: image_iff)
    with Cons show ?case
      by (cases "fst p = k") (auto simp: delete_filter union_ac)
  qed simp
  with assms show ?thesis by (simp add: held_all_def)
qed

lemma held_all_update:
  assumes "map_ok (flows r)"
  shows "held_all (r\<lparr>flows := AList.update k f (flows r)\<rparr>) =
    held f + held_all (r\<lparr>flows := AList.delete k (flows r)\<rparr>)"
proof -
  let ?r = "r\<lparr>flows := AList.update k f (flows r)\<rparr>"
  have "AList.delete k (AList.update k f m) = AList.delete k m" for m
    by (induction m) (auto simp: delete_filter)
  with held_all_delete [of ?r k f] assms show ?thesis
    by (simp add: alist.invar_put alist.get_put)
qed

lemma held_all_delete_None:
  "map_of (flows r) k = None \<Longrightarrow> r\<lparr>flows := AList.delete k (flows r)\<rparr> = r"
proof -
  assume "map_of (flows r) k = None"
  then have "AList.delete k (flows r) = flows r"
    by (auto simp: delete_filter map_of_eq_None_iff intro!: filter_True)
  then show ?thesis by simp
qed

lemma Push_conserves:
  assumes "reseq_ok r"
  shows "mset (snd (Push ip now [] r)) + held_all (fst (Push ip now [] r))
    \<subseteq># add_mset ip (held_all r)"
proof (cases "parseTCP ip")
  case None
  then show ?thesis by (simp add: Push_None)
next
  case (Some t)
  obtain sq nxt k where t: "t = (sq, nxt, k)" by (cases t)
  let ?f = "cur_flow now sq k r" and ?m = "r\<lparr>flows := AList.delete k (flows r)\<rparr>"
  let ?g = "push_seg (window r) sq nxt ip ?f []"
  have m: "map_ok (flows r)" using assms by (simp add: reseq_ok_def)
  have "map_ok (buf ?f)"
    using cur_flow_ok [OF assms, of k now sq] by (simp add: flow_ok_def buf_ok_def)
  then have "mset (snd ?g) + held (fst ?g) \<subseteq># add_mset ip (held ?f)"
    by (rule push_seg_conserves)
  moreover have "held_all r = held ?f + held_all ?m"
    using held_all_delete [OF m, of k] held_all_delete_None [of r k]
    by (cases "map_of (flows r) k") (auto simp: touch_def Let_def new_flow_def vals_mset_def)
  moreover have "held_all (fst (Push ip now [] r)) = held (fst ?g) + held_all ?m"
    using held_all_update [OF m] by (simp add: Push_Some [OF Some [unfolded t]])
  moreover have "snd (Push ip now [] r) = snd ?g" by (simp add: Push_Some [OF Some [unfolded t]])
  ultimately show ?thesis
    by (metis (no_types, lifting) add.assoc mset_subset_eq_mono_add_right_cancel
        union_mset_add_mset_left)
qed

lemma FlushExpired_loop_conserves:
  "reseq_ok r \<Longrightarrow> mset (snd (FlushExpired_loop ks now out r))
     + held_all (fst (FlushExpired_loop ks now out r)) \<subseteq># mset out + held_all r"
proof (induction ks now out r rule: FlushExpired_loop.induct)
  case (2 k ks now out r)
  show ?case
  proof (cases "\<exists>f. map_of (flows r) k = Some f \<and> expired now r f")
    case True
    then obtain f where f: "map_of (flows r) k = Some f" "expired now r f" by blast
    let ?r = "r\<lparr>flows := AList.delete k (flows r)\<rparr>" and ?o = "snd (flush_flow f out)"
    have "reseq_ok ?r"
      using 2(4) by (auto simp: reseq_ok_def list_all_iff delete_filter)
    then have "mset (snd (FlushExpired_loop ks now ?o ?r))
        + held_all (fst (FlushExpired_loop ks now ?o ?r)) \<subseteq># mset ?o + held_all ?r"
      by (rule 2(3) [OF f])
    also have "mset ?o \<subseteq># mset out + held f"
      using flush_flow_subset [of f] reseq_ok_flow [OF 2(4) f(1)]
      by (simp add: flush_flow_out [of f out] flow_ok_def buf_ok_def)
    then have "mset ?o + held_all ?r \<subseteq># mset out + held_all r"
      using held_all_delete [OF _ f(1)] 2(4) by (simp add: reseq_ok_def flip: add.assoc)
    finally show ?thesis using f by simp
  next
    case False
    with 2 show ?thesis by (auto split: option.splits)
  qed
qed simp

interpretation reseq: packet_stage reseq_step reseq_ok held_all "\<lambda>e. {#fst e#}"
proof unfold_locales
  fix e :: reseq_event and r
  assume r: "reseq_ok r"
  obtain ip now ks where e: "e = (ip, now, ks)" by (cases e)
  let ?p = "Push ip now [] r"
  have p: "reseq_ok (fst ?p)" using r by (rule Push_ok)
  have step: "reseq_step e r = FlushExpired ks now (snd ?p) (fst ?p)"
    unfolding e reseq_step_def by (simp add: case_prod_beta)
  show "reseq_ok (fst (reseq_step e r))" unfolding step using p by (rule FlushExpired_ok)
  show "mset (snd (reseq_step e r)) + held_all (fst (reseq_step e r)) \<subseteq># held_all r + {#fst e#}"
    using subset_mset.order_trans [OF FlushExpired_loop_conserves [OF p, of ks now "snd ?p"]
        Push_conserves [OF r, of ip now]]
    unfolding step by (simp add: FlushExpired_def e)
qed

lemma reseq_step_window: "map_ok (flows r) \<Longrightarrow> window (fst (reseq_step e r)) = window r"
proof (cases e)
  case (fields ip now ks)
  moreover assume "map_ok (flows r)"
  then have "map_ok (flows (fst (Push ip now [] r)))" and "window (fst (Push ip now [] r)) = window r"
    by (auto simp: Push_def case_prod_beta Let_def alist.invar_put split: option.split)
  ultimately show ?thesis
    by (simp add: reseq_step_def case_prod_beta Let_def FlushExpired_def FlushExpired_loop_state)
qed

lemma reseq_run_window: "reseq_ok r \<Longrightarrow> window (fst (run_stage reseq_step es r)) = window r"
proof (induction es arbitrary: r)
  case (Cons e es)
  then have "reseq_ok (fst (reseq_step e r))" by (intro reseq.step_invar)
  with Cons show ?case
    by (simp add: case_prod_beta Let_def reseq_step_window reseq_ok_def)
qed simp

section \<open>Flushing loses nothing from a well-spaced buffer\<close>

text \<open>
  The buffer is well spaced from the cursor \<open>c\<close>: every segment lies at or ahead of it, and no
  two segments overlap. Then no segment can fall behind the cursor while the flush jumps from
  one to the next.
\<close>

definition spaced :: "u32 \<Rightarrow> (u32, reseqEntry) gomap \<Rightarrow> bool" where
  "spaced c m \<longleftrightarrow>
     (\<forall>(s, e) \<in> set m. 0 \<le> ahead c s \<and> ahead c s < ahead c (nextAfter e)
        \<and> (\<forall>(t, _) \<in> set m. ahead c s < ahead c t \<longrightarrow> ahead c (nextAfter e) \<le> ahead c t))"

lemma spacedI:
  assumes "\<And>s e. (s, e) \<in> set m \<Longrightarrow> 0 \<le> ahead c s"
    and "\<And>s e. (s, e) \<in> set m \<Longrightarrow> ahead c s < ahead c (nextAfter e)"
    and "\<And>s e t e'. (s, e) \<in> set m \<Longrightarrow> (t, e') \<in> set m \<Longrightarrow> ahead c s < ahead c t \<Longrightarrow>
      ahead c (nextAfter e) \<le> ahead c t"
  shows "spaced c m"
  unfolding spaced_def using assms by blast

lemma spacedD:
  assumes "spaced c m" and "(s, e) \<in> set m"
  shows "0 \<le> ahead c s" and "ahead c s < ahead c (nextAfter e)"
    and "(t, e') \<in> set m \<Longrightarrow> ahead c s < ahead c t \<Longrightarrow> ahead c (nextAfter e) \<le> ahead c t"
  using assms unfolding spaced_def by blast+

lemma spaced_advance:
  assumes sp: "spaced c m" and e: "(s, e) \<in> set m"
    and min: "\<And>t. t \<in> fst ` set m \<Longrightarrow> ahead c s \<le> ahead c t"
  shows "spaced (nextAfter e) (AList.delete s m)"
proof -
  let ?n = "nextAfter e"
  have n: "0 \<le> ahead c ?n" using spacedD(1,2) [OF sp e] by linarith
  have le: "ahead c ?n \<le> ahead c t" if "(t, e') \<in> set (AList.delete s m)" for t e'
  proof -
    have t: "(t, e') \<in> set m" "t \<noteq> s" using that by (auto simp: delete_filter)
    have "ahead c s \<noteq> ahead c t" using t(2) ahead_inj by metis
    with min [of t] t(1) have "ahead c s < ahead c t" by force
    with t(1) show ?thesis by (rule spacedD(3) [OF sp e])
  qed
  have sh: "ahead ?n t = ahead c t - ahead c ?n" if "ahead c ?n \<le> ahead c t" for t
    by (rule sint_diff_nonneg [OF n that])
  have le': "ahead c ?n \<le> ahead c (nextAfter e')" if "(t, e') \<in> set (AList.delete s m)" for t e'
    using le [OF that] spacedD(2) [OF sp, of t e'] that by (fastforce simp: delete_filter)
  have sub: "(t, e') \<in> set m" if "(t, e') \<in> set (AList.delete s m)" for t e'
    using that by (simp add: delete_filter)
  show ?thesis
  proof (rule spacedI)
    fix t e' assume t: "(t, e') \<in> set (AList.delete s m)"
    show "0 \<le> ahead ?n t" using sh [OF le [OF t]] le [OF t] by linarith
    show "ahead ?n t < ahead ?n (nextAfter e')"
      using sh [OF le [OF t]] sh [OF le' [OF t]] spacedD(2) [OF sp sub [OF t]] by linarith
    fix u e'' assume u: "(u, e'') \<in> set (AList.delete s m)" and "ahead ?n t < ahead ?n u"
    then have "ahead c t < ahead c u" using sh [OF le [OF t]] sh [OF le [OF u]] by linarith
    then have "ahead c (nextAfter e') \<le> ahead c u"
      by (rule spacedD(3) [OF sp sub [OF t] sub [OF u]])
    then show "ahead ?n (nextAfter e') \<le> ahead ?n u"
      using sh [OF le' [OF t]] sh [OF le [OF u]] by linarith
  qed
qed

lemma spaced_drain: "spaced (nextSeq f) (buf f) \<Longrightarrow>
    spaced (nextSeq (fst (drain f []))) (buf (fst (drain f [])))"
proof -
  have "spaced (nextSeq f) (buf f) \<longrightarrow> spaced (nextSeq (fst (drain f []))) (buf (fst (drain f [])))"
  proof (induction rule: drain_induct)
    case (step f e g ds)
    show ?case
    proof
      assume sp: "spaced (nextSeq f) (buf f)"
      from step(1) have "(nextSeq f, e) \<in> set (buf f)" by (rule map_of_SomeD)
      moreover have "ahead (nextSeq f) (nextSeq f) \<le> ahead (nextSeq f) t" if "t \<in> fst ` set (buf f)" for t
        using sp that by (auto simp: spaced_def)
      ultimately have "spaced (nextAfter e) (AList.delete (nextSeq f) (buf f))"
        by (rule spaced_advance [OF sp])
      with step(2) show "spaced (nextSeq g) (buf g)" by simp
    qed
  qed simp
  then show "spaced (nextSeq f) (buf f) \<Longrightarrow> ?thesis" by blast
qed

lemma spaced_future:
  assumes "spaced (nextSeq f) (buf f)" and "map_of (buf f) (nextSeq f) = None"
  shows "future f = buf f"
proof (rule filter_True)
  show "\<forall>p \<in> set (buf f). 0 < ahead (nextSeq f) (fst p)"
  proof
    fix p assume p: "p \<in> set (buf f)"
    with assms(2) have "fst p \<noteq> nextSeq f" by (force simp: map_of_eq_None_iff)
    then have "ahead (nextSeq f) (fst p) \<noteq> 0" by (simp only: ahead_eq_0_iff not_False_eq_True)
    moreover have "0 \<le> ahead (nextSeq f) (fst p)"
      using p by (intro spacedD(1) [OF assms(1), of _ "snd p"]) simp
    ultimately show "0 < ahead (nextSeq f) (fst p)" by linarith
  qed
qed

lemma flush_flow_complete:
  "map_ok (buf f) \<Longrightarrow> spaced (nextSeq f) (buf f) \<Longrightarrow> map_of (buf f) (nextSeq f) = None \<Longrightarrow>
     mset (snd (flush_flow f [])) = held f"
proof -
  have "map_ok (buf f) \<and> spaced (nextSeq f) (buf f) \<and> map_of (buf f) (nextSeq f) = None \<longrightarrow>
     mset (snd (flush_flow f [])) = held f"
  proof (induction rule: flush_flow_induct)
    case (empty f)
    then show ?case by (simp add: vals_mset_def)
  next
    case (past f)
    then show ?case using spaced_future [of f] by auto
  next
    case (jump f s e ds)
    let ?j = "jumped f s e"
    show ?case
    proof
      assume a: "map_ok (buf f) \<and> spaced (nextSeq f) (buf f) \<and> map_of (buf f) (nextSeq f) = None"
      then have fut: "future f = buf f" using spaced_future [of f] by blast
      have "spaced (nextSeq ?j) (buf ?j)"
        using spaced_advance [OF _ map_of_SomeD [OF jump(1)], of "nextSeq f"] a jump(3)
        by (simp add: fut)
      then have "mset ds = held (fst (drain ?j []))"
        using jump(4) a map_ok_jumped [of f e s]
        by (simp only: drain_map_ok drain_stops spaced_drain simp_thms)
      moreover have "held ?j = held (fst (drain ?j [])) + mset (snd (drain ?j []))"
        by (rule drain_held) (use a map_ok_jumped in blast)
      moreover have "held f = add_mset (data e) (held ?j)"
        using vals_mset_del [of "buf f" s e] a jump(1) by (simp add: fut)
      ultimately show "mset (data e # snd (drain ?j []) @ ds) = held f"
        by (simp add: add.commute)
    qed
  qed
  then show "map_ok (buf f) \<Longrightarrow> spaced (nextSeq f) (buf f) \<Longrightarrow>
    map_of (buf f) (nextSeq f) = None \<Longrightarrow> ?thesis" by blast
qed

text \<open>
  The segments a flush leaves out: a segment ahead of the cursor is dropped only when an emitted
  segment of the flow reaches up to or past its start.
\<close>

definition overtaken :: "flowKey \<Rightarrow> u32 \<Rightarrow> bytes list \<Rightarrow> bool" where
  "overtaken k t out \<longleftrightarrow> (\<exists>p\<in>set out. \<exists>a b. parseTCP p = Some (a, b, k) \<and> ahead b t \<le> 0)"

lemma overtaken_append: "overtaken k t (xs @ ys) \<longleftrightarrow> overtaken k t xs \<or> overtaken k t ys"
  by (auto simp: overtaken_def)

lemma cursor_end: "in_order k c ps \<Longrightarrow> ps \<noteq> [] \<Longrightarrow> \<exists>p\<in>set ps. \<exists>a. parseTCP p = Some (a, cursor c ps, k)"
proof (induction ps arbitrary: c)
  case (Cons p ps)
  then obtain a b where p: "parseTCP p = Some (a, b, k)" and "in_order k b ps"
    by (auto split: option.splits)
  with Cons.IH [of b] show ?case by (cases "ps = []") auto
qed simp

lemma drain_keeps:
  "map_ok (buf f) \<Longrightarrow> (t, x) \<in> set (buf f) \<Longrightarrow>
     (t, x) \<in> set (buf (fst (drain f []))) \<or> data x \<in> set (snd (drain f []))"
proof -
  have "map_ok (buf f) \<longrightarrow> (t, x) \<in> set (buf f) \<longrightarrow>
     (t, x) \<in> set (buf (fst (drain f []))) \<or> data x \<in> set (snd (drain f []))"
    by (rule drain_induct) (auto simp: alist.invar_del delete_filter dest: map_of_is_SomeI)
  then show "map_ok (buf f) \<Longrightarrow> (t, x) \<in> set (buf f) \<Longrightarrow> ?thesis" by blast
qed

lemma flush_flow_covers:
  "buf_ok k f \<Longrightarrow> (t, x) \<in> set (future f) \<Longrightarrow>
     data x \<in> set (snd (flush_flow f [])) \<or> overtaken k t (snd (flush_flow f []))"
proof -
  have "buf_ok k f \<longrightarrow> (\<forall>(t, x) \<in> set (future f).
     data x \<in> set (snd (flush_flow f [])) \<or> overtaken k t (snd (flush_flow f [])))"
  proof (induction rule: flush_flow_induct)
    case (jump f s e ds)
    let ?j = "jumped f s e"
    let ?g = "fst (drain ?j [])" and ?out = "data e # snd (drain ?j [])"
    show ?case
    proof (intro impI ballI, clarify)
      fix t x
      assume b: "buf_ok k f" and f: "(t, x) \<in> set (future f)" and n: "\<not> overtaken k t (data e # snd (drain ?j []) @ ds)"
      have m: "map_ok (buf ?j)" using b by (intro map_ok_jumped) (simp add: buf_ok_def)
      have n': "\<not> overtaken k t ?out" "\<not> overtaken k t ds"
        using n overtaken_append [of k t ?out ds] by simp_all
      have ord: "in_order k (nextSeq f) ?out" and nx: "nextSeq ?g = cursor (nextSeq f) ?out"
        using drain_in_order [OF buf_ok_jumped [OF b, of e s]] buf_ok_entry [OF b jump(1)] jump(2) by simp_all
      then obtain p a where "p \<in> set ?out" "parseTCP p = Some (a, nextSeq ?g, k)"
        using cursor_end [OF ord] by auto
      with n'(1) have "\<not> ahead (nextSeq ?g) t \<le> 0" unfolding overtaken_def by blast
      moreover have "map_of (buf f) t = Some x"
        using f b by (intro map_of_is_SomeI) (auto simp: buf_ok_def)
      then have "t = s \<and> x = e \<or> (t, x) \<in> set (buf ?j)"
        using f jump(1) by (auto simp: delete_filter)
      moreover have "data x \<in> set ds" if "(t, x) \<in> set (future ?g)"
        using jump(4) that n'(2) buf_ok_jumped [OF b, of e s] drain_buf_ok by blast
      ultimately show "data x \<in> set (data e # snd (drain ?j []) @ ds)"
        using drain_keeps [OF m, of t x] by auto
    qed
  qed simp_all
  then show "buf_ok k f \<Longrightarrow> (t, x) \<in> set (future f) \<Longrightarrow> ?thesis" by blast
qed

end
