(* ===== verification/Reseq_Props.thy ===== *)
theory Reseq_Props
  imports Reseq_Order
begin

text \<open>
  The properties of the resequencer: reachable states, conservation of packets, the gap skip,
  the order and completeness of what \<open>Push\<close> and \<open>FlushExpired\<close> emit, and the restoration
  of stream order over whole runs. Each follows from the library facts of the theories before.
\<close>

text \<open>
  C2: Bounded memory and a clean buffer, in every state the reader can reach. However the
  packets, the clock and the iteration orders fall out, each flow of the resequencer buffers at
  most \<open>window\<close> segments (128 when the constructor is given a value that is not positive),
  each filed under its own sequence number and flow, and never the segment the flow waits for.
\<close>

theorem reseq_reachable_invariant:
  assumes "age \<le> max_duration"
    and "map_of (flows (fst (run_stage reseq_step es (NewForwardReseq w age)))) k = Some f"
  shows "int (length (buf f)) \<le> (if w \<le> 0 then 128 else w)
    \<and> map_of (buf f) (nextSeq f) = None
    \<and> list_all (\<lambda>(s, e). parseTCP (data e) = Some (s, nextAfter e, k)) (buf f)"
proof -
  let ?new = "NewForwardReseq w age"
  let ?r = "fst (run_stage reseq_step es ?new)"
  have ok: "reseq_ok ?new" using assms(1) by (rule reseq_ok_new)
  then have "flow_ok k (window ?r) f"
    by (intro reseq_ok_flow [OF reseq.run_invar] assms(2))
  moreover have "window ?r = (if w \<le> 0 then 128 else w)"
    using reseq_run_window [OF ok, of es] by (simp add: NewForwardReseq_def)
  ultimately show ?thesis
    by (auto simp: flow_ok_def buf_ok_def list_all_iff entry_ok_def)
qed

lemma demo_run:
  "fst (run_stage reseq_step [(demo_seg 5 [1, 2], 0, []), (demo_seg 9 [3], 10, [])]
     (NewForwardReseq 4 100)) =
   \<lparr>flows = [(demo_key, \<lparr>primed = True, nextSeq = 7,
       buf = [(9, \<lparr>data = demo_seg 9 [3], nextAfter = 10\<rparr>)], lastSeen = 10\<rparr>)],
    window = 4, maxAge = 100\<rparr>"
  by (simp add: reseq_step_def Push_def parseTCP_demo_seg NewForwardReseq_def new_flow_def touch_def
      push_seg_def drain.simps FlushExpired_def)

theorem reseq_reachable_invariant_witness:
  "\<exists>f. map_of (flows (fst (run_stage reseq_step [(demo_seg 5 [1, 2], 0, []), (demo_seg 9 [3], 10, [])]
        (NewForwardReseq 4 100)))) demo_key = Some f
    \<and> buf f = [(9, \<lparr>data = demo_seg 9 [3], nextAfter = 10\<rparr>)] \<and> nextSeq f = 7
    \<and> int (length (buf f)) \<le> 4 \<and> map_of (buf f) (nextSeq f) = None
    \<and> list_all (\<lambda>(s, e). parseTCP (data e) = Some (s, nextAfter e, demo_key)) (buf f)"
proof -
  let ?f = "\<lparr>primed = True, nextSeq = 7, buf = [(9, \<lparr>data = demo_seg 9 [3], nextAfter = 10\<rparr>)], lastSeen = 10\<rparr>"
  have f: "map_of (flows (fst (run_stage reseq_step [(demo_seg 5 [1, 2], 0, []), (demo_seg 9 [3], 10, [])]
      (NewForwardReseq 4 100)))) demo_key = Some ?f"
    by (simp only: demo_run) simp
  have "(100 :: int) \<le> max_duration" by (simp add: max_duration_def)
  from reseq_reachable_invariant [OF this f] f show ?thesis by (intro exI [of _ ?f]) simp
qed

text \<open>
  C3: Conservation of packets. Over any run from a new resequencer, what the reader has emitted
  together with what is still buffered is contained, as a multiset, in what was received: no
  packet is made up and none is emitted twice.
\<close>

theorem reseq_conserves_packets:
  assumes "age \<le> max_duration"
  shows "mset (snd (run_stage reseq_step es (NewForwardReseq w age)))
      + held_all (fst (run_stage reseq_step es (NewForwardReseq w age)))
    \<subseteq># mset (map fst es)"
proof -
  have "(\<Sum>e \<leftarrow> es. {#fst e#}) = mset (map fst es)" by (induction es) auto
  then show ?thesis
    using reseq.run_conserves [OF reseq_ok_new [OF assms], of es w]
    by (simp add: held_all_def NewForwardReseq_def)
qed

theorem reseq_conserves_packets_witness:
  "mset (snd (run_stage reseq_step [(demo_seg 5 [1], 0, []), (demo_seg 9 [3], 10, [])]
      (NewForwardReseq 4 100)))
    + held_all (fst (run_stage reseq_step [(demo_seg 5 [1], 0, []), (demo_seg 9 [3], 10, [])]
      (NewForwardReseq 4 100)))
    \<subseteq># {#demo_seg 5 [1], demo_seg 9 [3]#}"
  using reseq_conserves_packets [of 100 "[(demo_seg 5 [1], 0, []), (demo_seg 9 [3], 10, [])]" 4]
  by (simp add: max_duration_def)

text \<open>
  C4: Go visits a map in an unspecified order, and \<open>skipGap\<close> deletes from the buffer while it
  ranges over it. Whatever order the runtime picks, \<open>skipGap\<close> leaves the same flow, emits the
  same packets and returns the same flag.
\<close>

theorem skipGap_order_irrelevant:
  assumes "set order = fst ` set (buf f)"
  shows "skipGap_ord order f out = skipGap f out"
  using assms by (rule skipGap_ord_eq)

theorem skipGap_order_irrelevant_witness:
  "let f = \<lparr>primed = True, nextSeq = 7, buf = [(9, \<lparr>data = [1], nextAfter = 10\<rparr>),
        (8, \<lparr>data = [2], nextAfter = 9\<rparr>), (3, \<lparr>data = [3], nextAfter = 4\<rparr>)], lastSeen = 0\<rparr>
   in skipGap_ord [3, 8, 9] f [] = skipGap f [] \<and> fst (snd (skipGap f [])) = [[2], [1]]"
  using skipGap_order_irrelevant [of "[3, 8, 9]" "\<lparr>primed = True, nextSeq = 7,
        buf = [(9, \<lparr>data = [1], nextAfter = 10\<rparr>), (8, \<lparr>data = [2], nextAfter = 9\<rparr>),
          (3, \<lparr>data = [3], nextAfter = 4\<rparr>)], lastSeen = 0\<rparr>" "[]"]
  by (simp add: skipGap_def skipGap_ord_def drain.simps insert_commute)

text \<open>
  C9: What a gap skip does. It succeeds exactly when some buffered segment lies ahead of the
  cursor; then it emits first the one nearest to the cursor and after it segments in stream
  order; and the packets it held before are those it emits, those it still holds, and those at
  or behind the cursor, which are the only ones dropped.
\<close>

theorem skipGap_effect:
  assumes "buf_ok k f"
  shows "(snd (snd (skipGap f [])) \<longleftrightarrow> future f \<noteq> [])
    \<and> (future f \<noteq> [] \<longrightarrow> (\<exists>s e ds. fst (snd (skipGap f [])) = data e # ds \<and> (s, e) \<in> set (future f)
        \<and> (\<forall>t \<in> fst ` set (future f). ahead (nextSeq f) s \<le> ahead (nextSeq f) t)))
    \<and> in_order k (nextSeq f) (fst (snd (skipGap f [])))
    \<and> held f = held (fst (skipGap f [])) + mset (fst (snd (skipGap f []))) + orphans f"
proof (cases "future f = []")
  case True
  with skipGap_held [of f] assms show ?thesis
    by (simp add: skipGap_none buf_ok_def del: image_mset_add_mset)
next
  case False
  then obtain s e where e: "map_of (buf f) s = Some e" "0 < ahead (nextSeq f) s"
    and min: "\<And>t. t \<in> fst ` set (future f) \<Longrightarrow> ahead (nextSeq f) s \<le> ahead (nextSeq f) t"
    and sk: "\<And>out. skipGap f out =
      (fst (drain (jumped f s e) []), out @ data e # snd (drain (jumped f s e) []), True)"
    by (rule skipGap_some) blast
  have "(s, e) \<in> set (future f)" using e by (auto dest: map_of_SomeD)
  with min have "\<exists>s e ds. fst (snd (skipGap f [])) = data e # ds \<and> (s, e) \<in> set (future f)
      \<and> (\<forall>t \<in> fst ` set (future f). ahead (nextSeq f) s \<le> ahead (nextSeq f) t)"
    unfolding sk by (intro exI [of _ s] exI [of _ e]) auto
  moreover have "snd (snd (skipGap f []))" by (simp add: sk)
  moreover have "held f = held (fst (skipGap f [])) + mset (fst (snd (skipGap f []))) + orphans f"
    using assms by (intro skipGap_held) (simp add: buf_ok_def)
  ultimately show ?thesis using False skipGap_in_order [OF assms] by blast
qed

text \<open>A flow that waits for 7 and holds 9, 12 and a segment behind the cursor.\<close>

definition demo_flow :: reseqFlow where
  "demo_flow = \<lparr>primed = True, nextSeq = 7,
     buf = [(12, \<lparr>data = demo_seg 12 [4], nextAfter = 13\<rparr>),
            (9, \<lparr>data = demo_seg 9 [3], nextAfter = 10\<rparr>),
            (5, \<lparr>data = demo_seg 5 [2], nextAfter = 6\<rparr>)], lastSeen = 10\<rparr>"

theorem skipGap_effect_witness:
  "fst (snd (skipGap demo_flow [])) = [demo_seg 9 [3]] \<and> orphans demo_flow = {#demo_seg 5 [2]#}
   \<and> held demo_flow = held (fst (skipGap demo_flow []))
       + mset (fst (snd (skipGap demo_flow []))) + orphans demo_flow"
proof -
  have "buf_ok demo_key demo_flow"
    by (simp add: buf_ok_def demo_flow_def entry_ok_def parseTCP_demo_seg)
  from skipGap_effect [OF this] show ?thesis
    by (simp add: demo_flow_def skipGap_def skipGap_ord_def drain.simps vals_mset_def)
qed

text \<open>
  C7: What \<open>Push\<close> emits for a segment that is not behind the flow's cursor is in stream
  order from the cursor on, and the cursor moves to the end of the last emitted segment. A
  segment behind the cursor (a retransmission) is emitted alone and does not move the cursor.
\<close>

theorem Push_emits_in_order:
  assumes "reseq_ok r" and "parseTCP ip = Some (sq, nxt, k)" and "map_of (flows r) k = Some f"
  shows "\<exists>ds g. snd (Push ip now out r) = out @ ds
    \<and> map_of (flows (fst (Push ip now out r))) k = Some g
    \<and> (if ahead (nextSeq f) sq < 0 then ds = [ip] \<and> nextSeq g = nextSeq f
       else in_order k (nextSeq f) ds \<and> nextSeq g = cursor (nextSeq f) ds)"
proof -
  let ?f = "cur_flow now sq k r"
  let ?p = "push_seg (window r) sq nxt ip ?f []"
  have fok: "flow_ok k (window r) f" using assms(1,3) by (rule reseq_ok_flow)
  then have nx: "nextSeq ?f = nextSeq f"
    using assms(3) by (simp add: touch_def Let_def flow_ok_def buf_ok_def)
  have P: "snd (Push ip now out r) = out @ snd ?p"
    "map_of (flows (fst (Push ip now out r))) k = Some (fst ?p)"
    using push_seg_out [of "window r" sq nxt ip ?f out]
    by (simp_all add: Push_Some [OF assms(2)] alist.get_put)
  show ?thesis
  proof (cases "ahead (nextSeq f) sq < 0")
    case True
    then have "?p = (?f, [ip])" unfolding nx [symmetric] by (simp add: push_seg_def Let_def)
    with True P nx show ?thesis by (intro exI [of _ "[ip]"] exI [of _ ?f]) simp
  next
    case False
    with push_seg_in_order [OF cur_flow_ok [OF assms(1)] assms(2), of now sq] nx P show ?thesis
      by (intro exI [of _ "snd ?p"] exI [of _ "fst ?p"]) simp
  qed
qed

abbreviation demo_reseq :: ForwardReseq where
  "demo_reseq \<equiv> \<lparr>flows = [(demo_key, demo_flow)], window = 4, maxAge = 100\<rparr>"

lemma demo_reseq_ok: "reseq_ok demo_reseq"
  by (simp add: reseq_ok_def flow_ok_def buf_ok_def demo_flow_def entry_ok_def parseTCP_demo_seg
      max_duration_def)

theorem Push_emits_in_order_witness:
  "snd (Push (demo_seg 7 [0, 0]) 20 [] demo_reseq) = [demo_seg 7 [0, 0], demo_seg 9 [3]]
   \<and> (\<exists>ds g. snd (Push (demo_seg 7 [0, 0]) 20 [] demo_reseq) = [] @ ds
      \<and> map_of (flows (fst (Push (demo_seg 7 [0, 0]) 20 [] demo_reseq))) demo_key = Some g
      \<and> in_order demo_key 7 ds \<and> nextSeq g = cursor 7 ds)"
  using Push_emits_in_order [OF demo_reseq_ok parseTCP_demo_seg, of "[0, 0]" demo_flow 7 20 "[]"]
  by (simp add: Push_def parseTCP_demo_seg touch_def push_seg_def drain.simps demo_flow_def)

text \<open>
  C8: \<open>Push\<close> loses nothing while the flow's buffer holds only future segments and the new
  segment is not a second copy of a buffered one: emitted and buffered packets are then
  exactly the buffered ones before and the new one, also when the window overflows.
\<close>

theorem Push_lossless:
  assumes "reseq_ok r" and "parseTCP ip = Some (sq, nxt, k)" and "map_of (flows r) k = Some f"
    and "map_of (buf f) sq = None" and "future f = buf f"
  shows "mset (snd (Push ip now [] r)) + held_all (fst (Push ip now [] r)) = add_mset ip (held_all r)"
proof -
  let ?f = "cur_flow now sq k r" and ?m = "r\<lparr>flows := AList.delete k (flows r)\<rparr>"
  let ?g = "push_seg (window r) sq nxt ip ?f []"
  have m: "map_ok (flows r)" using assms(1) by (simp add: reseq_ok_def)
  have f: "flow_ok k (window r) f" using assms(1,3) by (rule reseq_ok_flow)
  then have eq: "buf ?f = buf f" "nextSeq ?f = nextSeq f"
    using assms(3) by (simp_all add: touch_def Let_def flow_ok_def buf_ok_def)
  have "0 < ahead (nextSeq ?f) s" if "s \<in> fst ` set (buf ?f)" for s
    using that assms(5) unfolding eq by (auto simp: filter_id_conv)
  then have "mset (snd ?g) + held (fst ?g) = add_mset ip (held ?f)"
    using f assms(4) by (intro push_seg_lossless) (simp_all add: eq flow_ok_def buf_ok_def)
  moreover have "held_all r = held ?f + held_all ?m"
    using held_all_delete [OF m assms(3)] by (simp add: eq)
  moreover have "held_all (fst (Push ip now [] r)) = held (fst ?g) + held_all ?m"
    using held_all_update [OF m] by (simp add: Push_Some [OF assms(2)])
  moreover have "snd (Push ip now [] r) = snd ?g" by (simp add: Push_Some [OF assms(2)])
  ultimately show ?thesis by (simp add: add.assoc [symmetric])
qed

text \<open>The window is full and the new segment is ahead: the gap is skipped, nothing is lost.\<close>

definition demo_full :: ForwardReseq where
  "demo_full = \<lparr>flows = [(demo_key, \<lparr>primed = True, nextSeq = 7,
     buf = [(9, \<lparr>data = demo_seg 9 [3], nextAfter = 10\<rparr>)], lastSeen = 0\<rparr>)],
     window = 1, maxAge = 100\<rparr>"

theorem Push_lossless_witness:
  "mset (snd (Push (demo_seg 12 [1]) 5 [] demo_full))
     + held_all (fst (Push (demo_seg 12 [1]) 5 [] demo_full)) = {#demo_seg 12 [1], demo_seg 9 [3]#}
   \<and> snd (Push (demo_seg 12 [1]) 5 [] demo_full) = [demo_seg 9 [3]]"
proof -
  have "reseq_ok demo_full"
    by (simp add: reseq_ok_def flow_ok_def buf_ok_def demo_full_def entry_ok_def parseTCP_demo_seg
        max_duration_def)
  from Push_lossless [OF this parseTCP_demo_seg, of "[1]" _ 12 5] show ?thesis
    by (simp add: demo_full_def held_all_def vals_mset_def Push_def parseTCP_demo_seg touch_def
        push_seg_def skipGap_def skipGap_ord_def drain.simps)
qed



text \<open>
  C6: A missing segment does not cost the segments behind it. When the buffered segments of an
  idle flow lie ahead of the cursor and do not overlap, \<open>FlushExpired\<close> emits every one of
  them.
\<close>

theorem FlushExpired_delivers_all:
  assumes "reseq_ok r" and "distinct ks" and "k \<in> set ks" and "map_of (flows r) k = Some f"
    and "maxAge r \<le> now - lastSeen f" and "spaced (nextSeq f) (buf f)"
  shows "held f \<subseteq># mset (snd (FlushExpired ks now out r))"
proof -
  have age: "min_duration < maxAge r" "maxAge r \<le> max_duration"
    using assms(1) by (auto simp: reseq_ok_def min_duration_def)
  have "flow_ok k (window r) f" using assms(1,4) by (rule reseq_ok_flow)
  then have "mset (flushed now r k) = held f"
    using assms(4-6) flush_flow_complete [of f]
    by (simp add: flushed_def time_Sub_less_iff [OF age] flow_ok_def buf_ok_def)
  moreover obtain as bs where "ks = as @ k # bs" using assms(3) by (meson split_list)
  ultimately have "held f \<subseteq># mset (out @ concat (map (flushed now r) ks))" by simp
  then show ?thesis by (simp add: FlushExpired_def FlushExpired_loop_out [OF assms(2)])
qed

theorem FlushExpired_delivers_all_witness:
  "{#demo_seg 9 [3]#} \<subseteq># mset (snd (FlushExpired [demo_key] 100 [] demo_full))"
proof -
  have "reseq_ok demo_full"
    by (simp add: reseq_ok_def flow_ok_def buf_ok_def demo_full_def entry_ok_def parseTCP_demo_seg
        max_duration_def)
  from FlushExpired_delivers_all [OF this, of "[demo_key]" demo_key _ 100 "[]"] show ?thesis
    by (simp add: demo_full_def spaced_def vals_mset_def)
qed

text \<open>
  C10: Flows do not disturb each other. A packet that is not a data segment of flow \<open>k\<close> (it
  belongs to another flow, or bypasses resequencing) leaves the state of flow \<open>k\<close> as it was,
  emits no packet of \<open>k\<close>, and if it bypasses resequencing it is emitted at once and alone.
\<close>

theorem Push_isolates_flows:
  assumes "reseq_ok r" and "\<not> is_flow k ip"
  shows "map_of (flows (fst (Push ip now [] r))) k = map_of (flows r) k
    \<and> filter (is_flow k) (snd (Push ip now [] r)) = []
    \<and> (parseTCP ip = None \<longrightarrow> Push ip now [] r = (r, [ip]))"
  using Push_other [OF assms] by (auto simp: Push_None)

theorem Push_isolates_flows_witness:
  "map_of (flows (fst (Push [0x60, 1] 20 [] demo_reseq))) demo_key = Some demo_flow
   \<and> Push [0x60, 1] 20 [] demo_reseq = (demo_reseq, [[0x60, 1]])"
  using Push_isolates_flows [OF demo_reseq_ok, of demo_key "[0x60, 1]" 20]
  by (simp add: is_flow_def parseTCP_def)

section \<open>Stream order\<close>

text \<open>
  C1: The resequencer restores stream order. Take a stream of contiguous segments of one flow
  that spans less than half the sequence space and has at most \<open>window + 1\<close> segments, and any
  run of the reader in which exactly these segments of the flow arrive, in any order that
  starts with the first one, mixed with any other packets, within one idle period. Then what
  the reader emits of this flow, over the whole run, is the stream in order.
\<close>

theorem reseq_restores_order:
  assumes "stream k s ps"
    and "mset (filter (is_flow k) (map fst es)) = mset ps"
    and "ps = [] \<or> hd (filter (is_flow k) (map fst es)) = hd ps"
    and "reseq_ok r" and "map_of (flows r) k = None" and "int (length ps) \<le> window r + 1"
    and "\<forall>e \<in> set es. within T (maxAge r) e"
  shows "filter (is_flow k) (snd (run_stage reseq_step es r)) = ps"
proof -
  obtain "is" where "filter (is_flow k) (map fst es) = map ((!) ps) is"
    and all: "set is = {..<length ps}" and "to_come ps {} is"
    using permuted_stream [OF assms(1-3)] by blast
  moreover have "stream_state k s ps T {} 0 r"
    using assms(4-6) by (simp add: stream_state_def)
  ultimately obtain c where ss: "stream_state k s ps T {..<length ps} c (fst (run_stage reseq_step es r))"
    and out: "filter (is_flow k) (snd (run_stage reseq_step es r)) = map ((!) ps) [0..<c]"
    using run_stream [OF assms(1) _ _ _ assms(7), of "{}" 0 "is"] by auto
  from ss have "c = length ps"
    by (auto simp: stream_state_def progress_def lessThan_empty_iff split: option.splits)
  with out show ?thesis by (simp add: map_nth)
qed

text \<open>Three segments that arrive first, third, second, with a pure ACK in between.\<close>

definition demo_events :: "reseq_event list" where
  "demo_events =
     [(demo_seg 4294967294 [1, 2, 3], 0, []), (demo_seg 4 [6, 7], 1000, []),
      (demo_seg 9 [], 1500, []), (demo_seg 1 [4, 5, 5], 2000, [])]"

lemma is_flow_demo_seg: "is_flow demo_key (demo_seg sq pl) \<longleftrightarrow> pl \<noteq> []"
  by (cases "pl = []") (simp_all add: is_flow_def parseTCP_demo_seg, simp add: demo_seg_def
      parseTCP_mk_segment_raw segment_ok_def ip4_fields_ok_def seg_consumed_def)

theorem reseq_restores_order_witness:
  "filter (is_flow demo_key)
     (snd (run_stage reseq_step demo_events (NewForwardReseq 128 (5 * Millisecond)))) =
   [demo_seg 4294967294 [1, 2, 3], demo_seg 1 [4, 5, 5], demo_seg 4 [6, 7]]"
proof (rule reseq_restores_order [where s = 4294967294 and T = 0])
  show "stream demo_key 4294967294
      [demo_seg 4294967294 [1, 2, 3], demo_seg 1 [4, 5, 5], demo_seg 4 [6, 7]]"
    by (simp add: stream_def parseTCP_demo_seg off_def adv_def)
  show "reseq_ok (NewForwardReseq 128 (5 * Millisecond))"
    by (rule reseq_ok_new) (simp add: Millisecond_def max_duration_def)
qed (simp_all add: demo_events_def is_flow_demo_seg NewForwardReseq_def within_def Millisecond_def)

end
