(* ===== verification/Observers.thy ===== *)
theory Observers
  imports Packet Go_Map
begin

text \<open>
  The two measuring components of \<open>utility/reseq.go\<close>: \<open>PreReseqObserver\<close>, which counts
  segments that arrive below the highest sequence number of their flow, and
  \<open>PreSendGenuineObserver\<close>, which separates retransmissions (a sequence number still in the
  flow's ring of recent ones) from genuine reordering.

  The package-level atomic counters are the record \<open>counters\<close>; an observer takes and returns
  it beside its own state. The ring buffer is shown to implement a bounded queue of the most
  recent sequence numbers (locale \<open>recent_window\<close>), which is what makes the retransmission
  test right.
\<close>

section \<open>State\<close>

record preReseqCounters =
  PreReseqTotal :: u64
  PreReseqOOO :: u64

record counters = preReseqCounters +
  PreSendTotal :: u64
  PreSendGenuine :: u64
  PreSendRetr :: u64

record PreReseqObserver =
  maxSeq :: "(flowKey, u32) gomap"

definition NewPreReseqObserver :: PreReseqObserver where
  "NewPreReseqObserver = \<lparr>maxSeq = []\<rparr>"

definition preSendRingSize :: nat where
  "preSendRingSize = 1024"

record preSendFlow =
  flowMaxSeq :: u32
  ring :: "u32 list"
  seen :: "u32 set"
  head :: nat
  count :: nat

record PreSendGenuineObserver =
  sendFlows :: "(flowKey, preSendFlow) gomap"

definition NewPreSendGenuineObserver :: PreSendGenuineObserver where
  "NewPreSendGenuineObserver = \<lparr>sendFlows = []\<rparr>"

section \<open>Operations\<close>

definition PreReseq_Observe ::
  "bytes \<Rightarrow> PreReseqObserver \<Rightarrow> counters \<Rightarrow> PreReseqObserver \<times> counters" where
  "PreReseq_Observe ip ob c =
     (case parseTCP ip of
        None \<Rightarrow> (ob, c)
      | Some (sq, _, key) \<Rightarrow>
          let c1 = c\<lparr>PreReseqTotal := PreReseqTotal c + 1\<rparr> in
          (case map_of (maxSeq ob) key of
             None \<Rightarrow>
               let m = (if 2 ^ 16 \<le> length (maxSeq ob) then [] else maxSeq ob)
               in (ob\<lparr>maxSeq := AList.update key sq m\<rparr>, c1)
           | Some mx \<Rightarrow>
               if sint (sq - mx) < 0 then (ob, c1\<lparr>PreReseqOOO := PreReseqOOO c1 + 1\<rparr>)
               else (ob\<lparr>maxSeq := AList.update key sq (maxSeq ob)\<rparr>, c1)))"

definition new_send_flow :: preSendFlow where
  "new_send_flow =
     \<lparr>flowMaxSeq = 0, ring = replicate preSendRingSize 0, seen = {}, head = 0, count = 0\<rparr>"

text \<open>The ring update: evict the oldest entry when full, then store the new one.\<close>

definition ring_push :: "u32 \<Rightarrow> preSendFlow \<Rightarrow> preSendFlow" where
  "ring_push sq f =
     (let f1 = (if count f = preSendRingSize then f\<lparr>seen := seen f - {ring f ! head f}\<rparr>
                else f\<lparr>count := count f + 1\<rparr>)
      in f1\<lparr>ring := (ring f1)[head f1 := sq],
            head := (head f1 + 1) mod preSendRingSize,
            seen := insert sq (seen f1)\<rparr>)"

text \<open>How \<open>Observe\<close> classifies a segment.\<close>

datatype verdict = Retransmit | InOrder | Genuine

definition preSend_flow :: "u32 \<Rightarrow> preSendFlow \<Rightarrow> preSendFlow \<times> verdict" where
  "preSend_flow sq f =
     (if sq \<in> seen f then (f, Retransmit)
      else let f1 = ring_push sq f in
           if count f1 = 1 \<or> 0 \<le> sint (sq - flowMaxSeq f1)
           then (f1\<lparr>flowMaxSeq := sq\<rparr>, InOrder)
           else (f1, Genuine))"

definition count_verdict :: "verdict \<Rightarrow> counters \<Rightarrow> counters" where
  "count_verdict v c =
     (case v of
        Retransmit \<Rightarrow> c\<lparr>PreSendRetr := PreSendRetr c + 1\<rparr>
      | InOrder \<Rightarrow> c
      | Genuine \<Rightarrow> c\<lparr>PreSendGenuine := PreSendGenuine c + 1\<rparr>)"

text \<open>The flow of a segment, entered into the map when it is new.\<close>

definition send_flow_for ::
  "flowKey \<Rightarrow> (flowKey, preSendFlow) gomap \<Rightarrow> (flowKey, preSendFlow) gomap \<times> preSendFlow" where
  "send_flow_for key m =
     (case map_of m key of
        None \<Rightarrow>
          (AList.update key new_send_flow (if 256 \<le> length m then [] else m), new_send_flow)
      | Some f \<Rightarrow> (m, f))"

definition PreSend_Observe ::
  "bytes \<Rightarrow> PreSendGenuineObserver \<Rightarrow> counters \<Rightarrow> PreSendGenuineObserver \<times> counters" where
  "PreSend_Observe ip ob c =
     (case parseTCP ip of
        None \<Rightarrow> (ob, c)
      | Some (sq, _, key) \<Rightarrow>
          let c1 = c\<lparr>PreSendTotal := PreSendTotal c + 1\<rparr>;
              (m, f) = send_flow_for key (sendFlows ob);
              (f', v) = preSend_flow sq f
          in (ob\<lparr>sendFlows := AList.update key f' m\<rparr>, count_verdict v c1))"

section \<open>The ring is a queue of the most recent entries\<close>

text \<open>
  The interface: a window of at most \<open>cap\<close> values, of which inserting a new value drops the
  oldest one when the window is full.
\<close>

locale recent_window =
  fixes insert_val :: "'a \<Rightarrow> 'w \<Rightarrow> 'w"
    and contents :: "'w \<Rightarrow> 'a list"
    and invar :: "'w \<Rightarrow> bool"
    and cap :: nat
  assumes cap_pos: "0 < cap"
    and length_contents: "invar w \<Longrightarrow> length (contents w) \<le> cap"
    and invar_insert: "invar w \<Longrightarrow> x \<notin> set (contents w) \<Longrightarrow> invar (insert_val x w)"
    and contents_insert: "invar w \<Longrightarrow> x \<notin> set (contents w) \<Longrightarrow>
      contents (insert_val x w) =
        (if length (contents w) = cap then tl (contents w) else contents w) @ [x]"
begin

lemma contents_insert_drop:
  "invar w \<Longrightarrow> x \<notin> set (contents w) \<Longrightarrow>
     contents (insert_val x w) = drop (length (contents w) + 1 - cap) (contents w @ [x])"
  using length_contents [of w] cap_pos
  by (cases "contents w") (auto simp: contents_insert)

text \<open>After inserting a list of distinct new values, the window holds the last \<open>cap\<close> of them.\<close>

lemma contents_inserts:
  assumes "invar w" and "contents w = []" and "distinct xs"
  shows "invar (fold insert_val xs w)
    \<and> contents (fold insert_val xs w) = drop (length xs - cap) xs"
  using assms(3)
proof (induction xs rule: rev_induct)
  case Nil
  then show ?case using assms by simp
next
  case (snoc x xs)
  let ?w = "fold insert_val xs w"
  from snoc have inv: "invar ?w" and c: "contents ?w = drop (length xs - cap) xs" by auto
  from snoc.prems have new: "x \<notin> set (contents ?w)" unfolding c by (auto dest: in_set_dropD)
  have "contents (insert_val x ?w) = drop (length (contents ?w) + 1 - cap) (contents ?w @ [x])"
    by (rule contents_insert_drop [OF inv new])
  also have "\<dots> = drop (length (xs @ [x]) - cap) (xs @ [x])"
    unfolding c by (cases "length xs < cap") (auto simp: drop_Suc drop_tl Suc_diff_le not_less)
  finally show ?case using invar_insert [OF inv new] by simp
qed

end

text \<open>The abstraction: the live part of the ring, oldest entry first.\<close>

definition recent :: "preSendFlow \<Rightarrow> u32 list" where
  "recent f =
     (if count f < preSendRingSize then take (count f) (ring f)
      else drop (head f) (ring f) @ take (head f) (ring f))"

definition ring_ok :: "preSendFlow \<Rightarrow> bool" where
  "ring_ok f \<longleftrightarrow>
     length (ring f) = preSendRingSize \<and> head f < preSendRingSize \<and> count f \<le> preSendRingSize
     \<and> (count f < preSendRingSize \<longrightarrow> head f = count f)
     \<and> seen f = set (recent f) \<and> distinct (recent f)"

lemma preSendRingSize_pos: "0 < preSendRingSize"
  by (simp add: preSendRingSize_def)

lemma length_recent: "ring_ok f \<Longrightarrow> length (recent f) = count f"
  by (auto simp: ring_ok_def recent_def)

lemma ring_ok_new: "ring_ok new_send_flow"
  using preSendRingSize_pos by (simp add: ring_ok_def new_send_flow_def recent_def)

lemma recent_ring_push:
  assumes "ring_ok f"
  shows "recent (ring_push sq f) =
    (if count f = preSendRingSize then tl (recent f) else recent f) @ [sq]"
proof (cases "count f = preSendRingSize")
  case True
  let ?h = "head f" and ?r = "ring f"
  have h: "?h < length ?r" and len: "length ?r = preSendRingSize" "?h < preSendRingSize"
    using assms by (simp_all add: ring_ok_def)
  then have "drop ?h ?r = ?r ! ?h # drop (Suc ?h) ?r" by (simp add: Cons_nth_drop_Suc)
  then have tl: "tl (recent f) = drop (Suc ?h) ?r @ take ?h ?r" using True by (simp add: recent_def)
  show ?thesis
  proof (cases "Suc ?h = preSendRingSize")
    case last: True
    then have "recent (ring_push sq f) = ?r[?h := sq]"
      using True by (simp add: recent_def ring_push_def Let_def)
    also have "\<dots> = take ?h ?r @ [sq]"
      using h last len by (simp add: upd_conv_take_nth_drop)
    finally show ?thesis using True tl last len by simp
  next
    case False
    then have "recent (ring_push sq f) = drop (Suc ?h) (?r[?h := sq]) @ take (Suc ?h) (?r[?h := sq])"
      using True len by (simp add: recent_def ring_push_def Let_def)
    also have "\<dots> = drop (Suc ?h) ?r @ take ?h ?r @ [sq]"
      using h by (simp add: take_Suc_conv_app_nth)
    finally show ?thesis using True tl by simp
  qed
next
  case False
  with assms have c: "count f < preSendRingSize" "head f = count f" "count f < length (ring f)"
    by (auto simp: ring_ok_def)
  show ?thesis
  proof (cases "Suc (count f) = preSendRingSize")
    case True
    with assms c have "recent (ring_push sq f) = (ring f)[count f := sq]"
      by (simp add: recent_def ring_push_def Let_def)
    also have "\<dots> = take (count f) (ring f) @ [sq]"
      using c True assms by (simp add: upd_conv_take_nth_drop ring_ok_def)
    finally show ?thesis using False c by (simp add: recent_def)
  next
    case False
    with c show ?thesis
      by (simp add: recent_def ring_push_def Let_def take_Suc_conv_app_nth)
  qed
qed

lemma ring_push_ok:
  assumes "ring_ok f" and "sq \<notin> seen f"
  shows "ring_ok (ring_push sq f)"
proof -
  have seen: "seen f = set (recent f)" and d: "distinct (recent f)" using assms(1) by (simp_all add: ring_ok_def)
  have "seen (ring_push sq f) = set (recent (ring_push sq f))"
  proof (cases "count f = preSendRingSize")
    case True
    then have "hd (recent f) = ring f ! head f" "recent f \<noteq> []"
      using assms(1) preSendRingSize_pos
      by (auto simp: recent_def ring_ok_def hd_append hd_drop_conv_nth)
    with d have "set (tl (recent f)) = seen f - {ring f ! head f}"
      unfolding seen by (cases "recent f") auto
    with True show ?thesis
      by (simp add: recent_ring_push [OF assms(1)]) (simp add: ring_push_def Let_def)
  next
    case False
    then show ?thesis
      by (simp add: recent_ring_push [OF assms(1)]) (simp add: ring_push_def Let_def seen)
  qed
  moreover have "distinct (recent (ring_push sq f))"
    using d assms(2) by (cases "recent f") (auto simp: recent_ring_push [OF assms(1)] seen)
  ultimately show ?thesis
    using assms(1) preSendRingSize_pos by (auto simp: ring_ok_def ring_push_def Let_def mod_Suc)
qed

lemma seen_recent: "ring_ok f \<Longrightarrow> seen f = set (recent f)"
  by (simp add: ring_ok_def)

lemma count_le_ring: "ring_ok f \<Longrightarrow> count f \<le> preSendRingSize"
  by (simp add: ring_ok_def)

interpretation send_ring: recent_window ring_push recent ring_ok preSendRingSize
  by unfold_locales
    (simp_all add: preSendRingSize_pos length_recent recent_ring_push ring_push_ok
      seen_recent count_le_ring)

end
