(* ===== verification/Observer_Props.thy ===== *)
theory Observer_Props
  imports Observers
begin

text \<open>
  What the two observers measure. Their counters are compared with reference counts over the
  list of observed segments (\<open>count_along\<close>), their memory is bounded on every run, and the
  ring of a flow refines the abstract window of its most recent sequence numbers.
\<close>

section \<open>Runs of observers\<close>

text \<open>The segments among the packets, as the pairs of flow and sequence number.\<close>

definition segs :: "bytes list \<Rightarrow> (flowKey \<times> u32) list" where
  "segs ps = List.map_filter (\<lambda>p. map_option (\<lambda>(sq, _, k). (k, sq)) (parseTCP p)) ps"

definition PreReseq_run ::
  "bytes list \<Rightarrow> PreReseqObserver \<times> counters \<Rightarrow> PreReseqObserver \<times> counters" where
  "PreReseq_run = fold (\<lambda>p (ob, c). PreReseq_Observe p ob c)"

definition PreSend_run ::
  "bytes list \<Rightarrow> PreSendGenuineObserver \<times> counters \<Rightarrow> PreSendGenuineObserver \<times> counters" where
  "PreSend_run = fold (\<lambda>p (ob, c). PreSend_Observe p ob c)"

definition zero_counters :: counters where
  "zero_counters =
     \<lparr>PreReseqTotal = 0, PreReseqOOO = 0, PreSendTotal = 0, PreSendGenuine = 0, PreSendRetr = 0\<rparr>"

text \<open>Reference counts: how many elements satisfy a condition on the elements before them.\<close>

fun count_along :: "('a list \<Rightarrow> 'a \<Rightarrow> bool) \<Rightarrow> 'a list \<Rightarrow> 'a list \<Rightarrow> nat" where
  "count_along P past [] = 0"
| "count_along P past (x # xs) = (if P past x then 1 else 0) + count_along P (past @ [x]) xs"




text \<open>The sequence numbers of every flow lie in the half of the space that starts at its base.\<close>

definition in_half :: "(flowKey \<Rightarrow> u32) \<Rightarrow> (flowKey \<times> u32) list \<Rightarrow> bool" where
  "in_half base xs \<longleftrightarrow> (\<forall>x\<in>set xs. 0 \<le> sint (snd x - base (fst x)))"

lemma segs_Nil [simp]: "segs [] = []"
  by (simp add: segs_def map_filter_simps)

lemma segs_Cons [simp]:
  "segs (p # ps) =
     (case parseTCP p of None \<Rightarrow> segs ps | Some (sq, _, k) \<Rightarrow> (k, sq) # segs ps)"
  by (auto simp: segs_def map_filter_simps split: option.splits)

lemma PreReseq_run_Nil [simp]: "PreReseq_run [] s = s"
  and PreReseq_run_Cons [simp]:
    "PreReseq_run (p # ps) (ob, c) = PreReseq_run ps (PreReseq_Observe p ob c)"
  by (simp_all add: PreReseq_run_def)

lemma PreSend_run_Nil [simp]: "PreSend_run [] s = s"
  and PreSend_run_Cons [simp]:
    "PreSend_run (p # ps) (ob, c) = PreSend_run ps (PreSend_Observe p ob c)"
  by (simp_all add: PreSend_run_def)

section \<open>Bounded memory\<close>

definition pre_ok :: "PreReseqObserver \<Rightarrow> bool" where
  "pre_ok ob \<longleftrightarrow> map_ok (maxSeq ob) \<and> length (maxSeq ob) \<le> 2 ^ 16"

definition send_ok :: "PreSendGenuineObserver \<Rightarrow> bool" where
  "send_ok ob \<longleftrightarrow> map_ok (sendFlows ob) \<and> length (sendFlows ob) \<le> 256
     \<and> (\<forall>k f. map_of (sendFlows ob) k = Some f \<longrightarrow> ring_ok f)"

lemma pre_ok_Observe [inv_intros]: "pre_ok ob \<Longrightarrow> pre_ok (fst (PreReseq_Observe p ob c))"
  by (auto simp: pre_ok_def PreReseq_Observe_def Let_def map_simps distinct_update
      split: option.splits if_splits)

lemma preSend_flow_ok: "ring_ok f \<Longrightarrow> ring_ok (fst (preSend_flow sq f))"
proof -
  have "ring_ok g \<Longrightarrow> ring_ok (g\<lparr>flowMaxSeq := v\<rparr>)" for g v
    by (simp add: ring_ok_def recent_def split: if_splits)
  then show "ring_ok f \<Longrightarrow> ring_ok (fst (preSend_flow sq f))"
    by (simp add: preSend_flow_def Let_def ring_push_ok)
qed

lemma send_flow_for_ok:
  assumes "send_ok ob"
  shows "map_ok (fst (send_flow_for k (sendFlows ob)))
    \<and> length (fst (send_flow_for k (sendFlows ob))) \<le> 256
    \<and> map_of (fst (send_flow_for k (sendFlows ob))) k = Some (snd (send_flow_for k (sendFlows ob)))
    \<and> (\<forall>j f. map_of (fst (send_flow_for k (sendFlows ob))) j = Some f \<longrightarrow> ring_ok f)"
proof (cases "map_of (sendFlows ob) k")
  case None
  define m where "m = (if 256 \<le> length (sendFlows ob) then [] else sendFlows ob)"
  have "map_ok m" "length m < 256" "map_of m k = None" "map_of m j = Some f \<Longrightarrow> ring_ok f" for j f
    using assms None by (auto simp: send_ok_def m_def split: if_splits)
  then show ?thesis
    using None by (simp add: send_flow_for_def map_simps distinct_update ring_ok_new flip: m_def)
qed (use assms in \<open>auto simp: send_flow_for_def send_ok_def\<close>)

lemma PreSend_Observe_seg:
  assumes "parseTCP p = Some (sq, nx, k)"
  shows "PreSend_Observe p ob c =
    (ob\<lparr>sendFlows := AList.update k (fst (preSend_flow sq (snd (send_flow_for k (sendFlows ob)))))
                                    (fst (send_flow_for k (sendFlows ob)))\<rparr>,
     count_verdict (snd (preSend_flow sq (snd (send_flow_for k (sendFlows ob)))))
       (c\<lparr>PreSendTotal := PreSendTotal c + 1\<rparr>))"
  using assms by (simp add: PreSend_Observe_def Let_def case_prod_beta)

lemma send_ok_Observe [inv_intros]:
  assumes "send_ok ob"
  shows "send_ok (fst (PreSend_Observe p ob c))"
proof (cases "parseTCP p")
  case (Some s)
  obtain sq nx k where s: "parseTCP p = Some (sq, nx, k)" using Some by (cases s) auto
  note ok = send_flow_for_ok [OF assms, of k]
  then have "ring_ok (snd (send_flow_for k (sendFlows ob)))" by blast
  with ok show ?thesis
    by (simp add: PreSend_Observe_seg [OF s] send_ok_def map_simps distinct_update preSend_flow_ok)
qed (use assms in \<open>simp add: PreSend_Observe_def\<close>)

lemma pre_ok_run: "pre_ok ob \<Longrightarrow> pre_ok (fst (PreReseq_run ps (ob, c)))"
proof (induction ps arbitrary: ob c)
  case (Cons p ps)
  from Cons.IH [OF pre_ok_Observe [OF Cons.prems], of p c "snd (PreReseq_Observe p ob c)"]
  show ?case by simp
qed simp

lemma send_ok_run: "send_ok ob \<Longrightarrow> send_ok (fst (PreSend_run ps (ob, c)))"
proof (induction ps arbitrary: ob c)
  case (Cons p ps)
  from Cons.IH [OF send_ok_Observe [OF Cons.prems], of p c "snd (PreSend_Observe p ob c)"]
  show ?case by simp
qed simp

lemma card_seen: "ring_ok f \<Longrightarrow> card (seen f) = count f"
  using distinct_card [of "recent f"] length_recent [of f] by (simp add: ring_ok_def)

text \<open>On every run of packets the observers keep bounded memory: at most 65536 high-water
  marks, at most 256 rings, each ring an array of 1024 entries whose index set holds at most
  1024 sequence numbers.\<close>

lemma observers_bounded_memory:
  "length (maxSeq (fst (PreReseq_run ps (NewPreReseqObserver, c)))) \<le> 65536
   \<and> length (sendFlows (fst (PreSend_run ps (NewPreSendGenuineObserver, c)))) \<le> 256
   \<and> (case map_of (sendFlows (fst (PreSend_run ps (NewPreSendGenuineObserver, c)))) k of
        None \<Rightarrow> True
      | Some f \<Rightarrow> length (ring f) = 1024 \<and> head f < 1024 \<and> finite (seen f)
                 \<and> card (seen f) = count f \<and> count f \<le> 1024)"
proof -
  have "pre_ok NewPreReseqObserver" "send_ok NewPreSendGenuineObserver"
    by (simp_all add: pre_ok_def send_ok_def NewPreReseqObserver_def NewPreSendGenuineObserver_def)
  then have "pre_ok (fst (PreReseq_run ps (NewPreReseqObserver, c)))"
    "send_ok (fst (PreSend_run ps (NewPreSendGenuineObserver, c)))"
    by (simp_all add: pre_ok_run send_ok_run)
  then show ?thesis
    using card_seen by (auto simp: pre_ok_def send_ok_def ring_ok_def preSendRingSize_def
        split: option.splits)
qed

section \<open>The out-of-order counter\<close>

text \<open>\<open>mx\<close> is the highest sequence number of flow \<open>k\<close> among the segments in \<open>past\<close>.\<close>

definition high :: "(flowKey \<Rightarrow> u32) \<Rightarrow> (flowKey \<times> u32) list \<Rightarrow> flowKey \<Rightarrow> u32 \<Rightarrow> bool" where
  "high base past k mx \<longleftrightarrow>
     (k, mx) \<in> set past \<and> (\<forall>y. (k, y) \<in> set past \<longrightarrow> sint (y - base k) \<le> sint (mx - base k))"

lemma in_half_snoc [simp]:
  "in_half base (past @ [x]) \<longleftrightarrow> in_half base past \<and> 0 \<le> sint (snd x - base (fst x))"
  by (auto simp: in_half_def)

lemma high_first: "k \<notin> fst ` set past \<Longrightarrow> high base (past @ [(k, sq)]) k sq"
  by (force simp: high_def)




lemma card_flows_mono: "card (fst ` set xs) \<le> n \<Longrightarrow> set ys \<subseteq> set xs \<Longrightarrow> card (fst ` set ys) \<le> n"
  by (rule order_trans [OF card_mono [OF _ image_mono]]) auto

text \<open>
  The reference works on positions in the streams, integers that do not wrap; a segment carries the
  position modulo \<open>2 ^ 32\<close>. A segment is close when it lies within \<open>2 ^ 30\<close> bytes, the largest
  window TCP allows, of the highest position of its flow so far.
\<close>

type_synonym placed = "flowKey \<times> int"

definition below_pos :: "placed list \<Rightarrow> placed \<Rightarrow> bool" where
  "below_pos past x \<longleftrightarrow> (\<exists>y\<in>set past. fst y = fst x \<and> snd x < snd y)"

definition top_pos :: "placed list \<Rightarrow> flowKey \<Rightarrow> int \<Rightarrow> bool" where
  "top_pos past k m \<longleftrightarrow> (k, m) \<in> set past \<and> (\<forall>y\<in>set past. fst y = k \<longrightarrow> snd y \<le> m)"

fun close_along :: "placed list \<Rightarrow> placed list \<Rightarrow> bool" where
  "close_along past [] = True"
| "close_along past (x # xs) \<longleftrightarrow>
     (fst x \<in> fst ` set past \<longrightarrow> (\<exists>m. top_pos past (fst x) m \<and> \<bar>snd x - m\<bar> < 2 ^ 30))
     \<and> close_along (past @ [x]) xs"

definition wrapped :: "placed list \<Rightarrow> (flowKey \<times> u32) list" where
  "wrapped = map (\<lambda>(k, p). (k, word_of_int p))"

lemma sint_diff_pos:
  assumes "- (2 ^ 31) \<le> p - q" and "p - q < 2 ^ 31"
  shows "sint (word_of_int p - word_of_int q :: u32) = p - q"
proof -
  have d: "word_of_int p - word_of_int q = (word_of_int (p - q) :: u32)" by simp
  show ?thesis
    unfolding d using assms by (simp add: signed_of_int signed_take_bit_int_eq_self del: of_int_diff)
qed

lemma top_pos_unique: "top_pos past k a \<Longrightarrow> top_pos past k b \<Longrightarrow> a = b"
  by (force simp: top_pos_def)

lemma top_pos_first: "k \<notin> fst ` set past \<Longrightarrow> top_pos (past @ [(k, p)]) k p"
  by (force simp: top_pos_def)

lemma top_pos_next: "top_pos past k m \<Longrightarrow> top_pos (past @ [(k, p)]) k (max m p)"
  by (auto simp: top_pos_def max_def)

lemma top_pos_other: "j \<noteq> k \<Longrightarrow> top_pos (past @ [(k, p)]) j m = top_pos past j m"
  by (auto simp: top_pos_def)

text \<open>What the observer knows: for each flow in its map a position at most \<open>2 ^ 30\<close> below the highest one.
  While no more than \<open>2 ^ 16\<close> flows are seen the map is complete and holds the highest positions.\<close>

definition obs_rel :: "bool \<Rightarrow> placed list \<Rightarrow> PreReseqObserver \<Rightarrow> bool" where
  "obs_rel full past ob \<longleftrightarrow> map_ok (maxSeq ob)
     \<and> (\<forall>k mx. map_of (maxSeq ob) k = Some mx \<longrightarrow> (\<exists>p m. mx = word_of_int p \<and> (k, p) \<in> set past
          \<and> top_pos past k m \<and> m - p < 2 ^ 30 \<and> (full \<longrightarrow> p = m)))
     \<and> (full \<longrightarrow> length (maxSeq ob) = card (fst ` set past)
          \<and> (\<forall>k. map_of (maxSeq ob) k = None \<longleftrightarrow> k \<notin> fst ` set past))"

lemma obs_rel_put:
  assumes rel: "obs_rel full past ob" and full: "full \<longrightarrow> m = maxSeq ob"
    and sub: "\<And>j mx. map_of m j = Some mx \<Longrightarrow> map_of (maxSeq ob) j = Some mx" and ok: "map_ok m"
    and q: "(k, q) \<in> set (past @ [(k, p)])" "top_pos (past @ [(k, p)]) k t" "t - q < 2 ^ 30" "full \<longrightarrow> q = t"
  shows "obs_rel full (past @ [(k, p)]) (ob\<lparr>maxSeq := AList.update k (word_of_int q) m\<rparr>)"
proof -
  let ?m = "AList.update k (word_of_int q) m"
  have "\<exists>p' m'. mx = word_of_int p' \<and> (j, p') \<in> set (past @ [(k, p)]) \<and> top_pos (past @ [(k, p)]) j m'
      \<and> m' - p' < 2 ^ 30 \<and> (full \<longrightarrow> p' = m')" if mx: "map_of ?m j = Some mx" for j mx
  proof (cases "j = k")
    case True
    then show ?thesis using mx q by (intro exI [of _ q] exI [of _ t]) (simp add: map_simps)
  next
    case False
    with mx have "map_of (maxSeq ob) j = Some mx" using sub by (simp add: map_simps)
    with rel obtain p' m' where "mx = word_of_int p'" "(j, p') \<in> set past" "top_pos past j m'"
      "m' - p' < 2 ^ 30" "full \<longrightarrow> p' = m'"
      unfolding obs_rel_def by blast
    with False show ?thesis
      by (intro exI [of _ p'] exI [of _ m']) (simp add: top_pos_other)
  qed
  moreover have "length ?m = card (fst ` set (past @ [(k, p)]))"
    "\<forall>j. map_of ?m j = None \<longleftrightarrow> j \<notin> fst ` set (past @ [(k, p)])" if full
    using that rel full ok by (auto simp: obs_rel_def map_simps insert_absorb)
  ultimately show ?thesis using ok by (simp add: obs_rel_def distinct_update)
qed

text \<open>One segment: what is counted lies below an earlier segment, and with a complete map conversely.\<close>

lemma obs_rel_step:
  assumes rel: "obs_rel full past ob" and p: "parseTCP pkt = Some (word_of_int p, nx, k)"
    and close: "k \<in> fst ` set past \<longrightarrow> (\<exists>m. top_pos past k m \<and> \<bar>p - m\<bar> < 2 ^ 30)"
    and few: "full \<longrightarrow> card (fst ` set (past @ [(k, p)])) \<le> 2 ^ 16"
  shows "\<exists>ob' b. PreReseq_Observe pkt ob c =
      (ob', c\<lparr>PreReseqTotal := PreReseqTotal c + 1, PreReseqOOO := PreReseqOOO c + (if b then 1 else 0)\<rparr>)
    \<and> obs_rel full (past @ [(k, p)]) ob'
    \<and> (b \<longrightarrow> below_pos past (k, p)) \<and> (full \<longrightarrow> b = below_pos past (k, p))"
proof (cases "map_of (maxSeq ob) k")
  case None
  let ?m = "if 2 ^ 16 \<le> length (maxSeq ob) then [] else maxSeq ob"
  have new: "full \<longrightarrow> k \<notin> fst ` set past" using rel None by (auto simp: obs_rel_def)
  then have "full \<longrightarrow> length (maxSeq ob) < 2 ^ 16" using rel few by (auto simp: obs_rel_def)
  then have m: "full \<longrightarrow> ?m = maxSeq ob" by auto
  have "\<exists>t. top_pos (past @ [(k, p)]) k t \<and> t - p < 2 ^ 30 \<and> (full \<longrightarrow> p = t)"
  proof (cases "k \<in> fst ` set past")
    case True
    with close obtain t where t: "top_pos past k t" "\<bar>p - t\<bar> < 2 ^ 30" by blast
    then show ?thesis using new True top_pos_next [OF t(1), of p] by (intro exI [of _ "max t p"]) auto
  qed (use top_pos_first in force)
  then obtain t where "top_pos (past @ [(k, p)]) k t" "t - p < 2 ^ 30" "full \<longrightarrow> p = t" by blast
  then have "obs_rel full (past @ [(k, p)]) (ob\<lparr>maxSeq := AList.update k (word_of_int p) ?m\<rparr>)"
    using rel by (intro obs_rel_put [OF rel m]) (auto simp: obs_rel_def split: if_splits)
  moreover have "\<not> below_pos past (k, p)" if full using new that by (force simp: below_pos_def)
  ultimately show ?thesis
    using None p by (intro exI [of _ "ob\<lparr>maxSeq := AList.update k (word_of_int p) ?m\<rparr>"] exI [of _ False])
      (simp add: PreReseq_Observe_def Let_def)
next
  case (Some mx)
  with rel obtain q m where mx: "mx = word_of_int q" and q: "(k, q) \<in> set past" "top_pos past k m"
    "m - q < 2 ^ 30" "full \<longrightarrow> q = m"
    unfolding obs_rel_def by blast
  have "k \<in> fst ` set past" using q(1) by force
  with close q(2) have near: "\<bar>p - m\<bar> < 2 ^ 30" using top_pos_unique by blast
  have "q \<le> m" using q(1,2) by (force simp: top_pos_def)
  then have d: "sint (word_of_int p - mx) = p - q" using near q(3) by (simp add: mx sint_diff_pos)
  note next_top = top_pos_next [OF q(2), of p]
  show ?thesis
  proof (cases "p < q")
    case True
    have "AList.update k (word_of_int q) (maxSeq ob) = maxSeq ob"
      using Some rel by (intro update_triv) (simp_all add: mx obs_rel_def)
    moreover have "obs_rel full (past @ [(k, p)]) (ob\<lparr>maxSeq := AList.update k (word_of_int q) (maxSeq ob)\<rparr>)"
      using rel q next_top True \<open>q \<le> m\<close>
      by (intro obs_rel_put [OF rel, of _ k q p "max m p"]) (auto simp: obs_rel_def max_def)
    moreover have "below_pos past (k, p)" using q(1) True by (force simp: below_pos_def)
    ultimately show ?thesis
      using Some p d True by (intro exI [of _ ob] exI [of _ True]) (simp add: PreReseq_Observe_def Let_def)
  next
    case False
    have "obs_rel full (past @ [(k, p)]) (ob\<lparr>maxSeq := AList.update k (word_of_int p) (maxSeq ob)\<rparr>)"
      using rel q next_top False near
      by (intro obs_rel_put [OF rel, of _ k p p "max m p"]) (auto simp: obs_rel_def max_def)
    moreover have "\<not> below_pos past (k, p)" if full
      using q(2,4) that False by (force simp: below_pos_def top_pos_def)
    ultimately show ?thesis
      using Some p d False
      by (intro exI [of _ "ob\<lparr>maxSeq := AList.update k (word_of_int p) (maxSeq ob)\<rparr>"] exI [of _ False])
        (simp add: PreReseq_Observe_def Let_def)
  qed
qed

lemma wrapped_Cons [simp]: "wrapped ((k, p) # ts) = (k, word_of_int p) # wrapped ts"
  by (simp add: wrapped_def)

lemma PreReseq_run_counts:
  assumes "obs_rel full past ob" and "segs ps = wrapped ts" and "close_along past ts"
    and "full \<longrightarrow> card (fst ` set (past @ ts)) \<le> 2 ^ 16"
  shows "\<exists>n. snd (PreReseq_run ps (ob, c)) =
      c\<lparr>PreReseqTotal := PreReseqTotal c + of_nat (length ts), PreReseqOOO := PreReseqOOO c + of_nat n\<rparr>
    \<and> n \<le> count_along below_pos past ts \<and> (full \<longrightarrow> n = count_along below_pos past ts)"
  using assms
proof (induction ps arbitrary: past ob c ts)
  case Nil
  then show ?case by (cases ts) (auto simp: wrapped_def)
next
  case (Cons pkt ps)
  show ?case
  proof (cases "parseTCP pkt")
    case None
    with Cons show ?thesis by (simp add: PreReseq_Observe_def)
  next
    case (Some x)
    obtain sq nx k where x: "parseTCP pkt = Some (sq, nx, k)" using Some by (cases x) auto
    with Cons.prems(2) obtain p us where ts: "ts = (k, p) # us" and sq: "sq = word_of_int p"
      and us: "segs ps = wrapped us"
      by (cases ts) (auto simp: wrapped_def)
    have "set (past @ [(k, p)]) \<subseteq> set (past @ ts)" by (auto simp: ts)
    then have few: "full \<longrightarrow> card (fst ` set (past @ [(k, p)])) \<le> 2 ^ 16"
      using Cons.prems(4) card_flows_mono by blast
    have close: "k \<in> fst ` set past \<longrightarrow> (\<exists>m. top_pos past k m \<and> \<bar>p - m\<bar> < 2 ^ 30)"
      using Cons.prems(3) by (simp add: ts)
    obtain ob' b where ob': "PreReseq_Observe pkt ob c =
        (ob', c\<lparr>PreReseqTotal := PreReseqTotal c + 1, PreReseqOOO := PreReseqOOO c + (if b then 1 else 0)\<rparr>)"
      and rel: "obs_rel full (past @ [(k, p)]) ob'"
      and b: "b \<longrightarrow> below_pos past (k, p)" "full \<longrightarrow> b = below_pos past (k, p)"
      using obs_rel_step [OF Cons.prems(1) x [unfolded sq] close few] by blast
    have "close_along (past @ [(k, p)]) us" "full \<longrightarrow> card (fst ` set ((past @ [(k, p)]) @ us)) \<le> 2 ^ 16"
      using Cons.prems(3,4) by (simp_all add: ts)
    from Cons.IH [OF rel us this, of "c\<lparr>PreReseqTotal := PreReseqTotal c + 1,
        PreReseqOOO := PreReseqOOO c + (if b then 1 else 0)\<rparr>"] obtain n where
      "snd (PreReseq_run ps (ob', c\<lparr>PreReseqTotal := PreReseqTotal c + 1,
          PreReseqOOO := PreReseqOOO c + (if b then 1 else 0)\<rparr>)) =
        c\<lparr>PreReseqTotal := PreReseqTotal c + 1 + of_nat (length us),
          PreReseqOOO := PreReseqOOO c + (if b then 1 else 0) + of_nat n\<rparr>"
      "n \<le> count_along below_pos (past @ [(k, p)]) us"
      "full \<longrightarrow> n = count_along below_pos (past @ [(k, p)]) us"
      by auto
    with b show ?thesis
      by (intro exI [of _ "(if b then 1 else 0) + n"]) (auto simp: ts ob' algebra_simps)
  qed
qed

text \<open>C14: \<open>PreReseqTotal\<close> counts the TCP segments that consume sequence space, and
  \<open>PreReseqOOO\<close> those that arrive below an earlier segment of their flow. The reference counts
  over stream positions that do not wrap, so flows may be of any length, provided that each segment
  lies within \<open>2 ^ 30\<close> bytes of the highest position of its flow so far. With up to 65536
  flows the count of late segments is exact; with more, when the observer forgets its flows, it
  never counts a segment that is not late.\<close>

theorem PreReseq_counts_exactly:
  assumes "segs ps = wrapped ts" and "close_along [] ts"
  shows "\<exists>n. snd (PreReseq_run ps (NewPreReseqObserver, c)) =
      c\<lparr>PreReseqTotal := PreReseqTotal c + of_nat (length ts), PreReseqOOO := PreReseqOOO c + of_nat n\<rparr>
    \<and> n \<le> count_along below_pos [] ts
    \<and> (card (fst ` set ts) \<le> 65536 \<longrightarrow> n = count_along below_pos [] ts)"
proof -
  have "obs_rel full [] NewPreReseqObserver" for full
    by (simp add: obs_rel_def NewPreReseqObserver_def)
  from PreReseq_run_counts [OF this assms, of "card (fst ` set ts) \<le> 65536"] show ?thesis by simp
qed

text \<open>Three segments around the wrap-around of the sequence space: the second is late.\<close>

definition demo_trace :: "bytes list" where
  "demo_trace = [demo_seg 10 [1], demo_seg (- 5) [1], demo_seg 10 [1]]"

lemma segs_demo_trace: "segs demo_trace = [(demo_key, 10), (demo_key, - 5), (demo_key, 10)]"
  by (simp add: demo_trace_def parseTCP_demo_seg)


theorem PreReseq_counts_exactly_witness:
  "close_along [] [(demo_key, 2 ^ 32 + 10), (demo_key, 2 ^ 32 - 5), (demo_key, 2 ^ 32 + 10)]
   \<and> snd (PreReseq_run demo_trace (NewPreReseqObserver, zero_counters)) =
       zero_counters\<lparr>PreReseqTotal := 3, PreReseqOOO := 1\<rparr>"
proof -
  let ?ts = "[(demo_key, 2 ^ 32 + 10), (demo_key, 2 ^ 32 - 5), (demo_key, 2 ^ 32 + 10)] :: placed list"
  have w: "segs demo_trace = wrapped ?ts" by (simp add: segs_demo_trace wrapped_def)
  have c: "close_along [] ?ts" by (auto simp: top_pos_def)
  have n: "count_along below_pos [] ?ts = 1" and "card (fst ` set ?ts) \<le> 65536" by (simp_all add: below_pos_def)
  then have "snd (PreReseq_run demo_trace (NewPreReseqObserver, zero_counters)) = zero_counters
      \<lparr>PreReseqTotal := PreReseqTotal zero_counters + of_nat (length ?ts),
       PreReseqOOO := PreReseqOOO zero_counters + of_nat 1\<rparr>"
    using PreReseq_counts_exactly [OF w c, of zero_counters] unfolding n by blast
  with c show ?thesis by (simp add: zero_counters_def del: close_along.simps)
qed

section \<open>The retransmission and reordering counters\<close>

















section \<open>The ring of recent sequence numbers\<close>

text \<open>The specification of a flow's memory: a window of at most \<open>preSendRingSize\<close> sequence
  numbers, oldest first, to which a number not in it is added.\<close>

definition window_step :: "u32 \<Rightarrow> u32 list \<Rightarrow> u32 list" where
  "window_step sq w =
     (if sq \<in> set w then w
      else drop (length w + 1 - preSendRingSize) (w @ [sq]))"

interpretation spec_window:
  recent_window window_step "\<lambda>w. w" "\<lambda>w. length w \<le> preSendRingSize" preSendRingSize
proof unfold_locales
  fix w :: "u32 list" and x
  assume "length w \<le> preSendRingSize" "x \<notin> set w"
  then show "window_step x w = (if length w = preSendRingSize then tl w else w) @ [x]"
    using preSendRingSize_pos by (cases w) (auto simp: window_step_def)
qed (auto simp: preSendRingSize_pos window_step_def)

lemma recent_max [simp]: "recent (f\<lparr>flowMaxSeq := v\<rparr>) = recent f"
  by (simp add: recent_def)

lemma preSend_flow_window:
  assumes "ring_ok f"
  shows "recent (fst (preSend_flow sq f)) = window_step sq (recent f)"
    and "snd (preSend_flow sq f) = Retransmit \<longleftrightarrow> sq \<in> set (recent f)"
  using send_ring.contents_insert_drop [OF assms, of sq]
  by (auto simp: preSend_flow_def window_step_def Let_def seen_recent [OF assms])

text \<open>C15: along any sequence of segments of one flow, the ring buffer, its index set and its head
  and count fields together implement the window of the most recent 1024 different sequence
  numbers: the ring read from the oldest entry is the window, and a segment is called a
  retransmission exactly when its number is in the window. When the numbers are all different
  the window is the last 1024 of them.\<close>

theorem preSend_ring_refines_window:
  "recent (fold (\<lambda>s f. fst (preSend_flow s f)) sqs new_send_flow) = fold window_step sqs []
   \<and> (snd (preSend_flow sq (fold (\<lambda>s f. fst (preSend_flow s f)) sqs new_send_flow)) = Retransmit
        \<longleftrightarrow> sq \<in> set (fold window_step sqs []))
   \<and> (if distinct sqs then fold window_step sqs [] = drop (length sqs - 1024) sqs
      else length (fold window_step sqs []) \<le> 1024)"
proof -
  let ?f = "fold (\<lambda>s f. fst (preSend_flow s f)) sqs new_send_flow"
  have r: "recent new_send_flow = []" by (simp add: recent_def new_send_flow_def preSendRingSize_def)
  have ok: "ring_ok ?f" and win: "recent ?f = fold window_step sqs []"
    using r by (induction sqs rule: rev_induct) (simp_all add: ring_ok_new preSend_flow_ok preSend_flow_window)
  have "fold window_step sqs [] = drop (length sqs - 1024) sqs" if "distinct sqs"
    using spec_window.contents_inserts [of "[]" sqs] that by (simp add: preSendRingSize_def)
  moreover have "length (fold window_step sqs []) \<le> 1024"
    using length_recent [OF ok] count_le_ring [OF ok] by (simp add: win preSendRingSize_def)
  ultimately show ?thesis
    using win preSend_flow_window(2) [OF ok] by simp
qed

end
