(* ===== verification/FlowHash.thy ===== *)
theory FlowHash
  imports Packet "HOL-Library.List_Lexorder"
begin

text \<open>
  The symmetric flow hash of \<open>main.go\<close> (\<open>flowHashSym\<close>) that pins a flow to one of the bonded
  tunnels, and the choice of the tunnel from it. \<open>flowHashSym_go\<close> keeps the run-time bounds
  checks of the Go code, \<open>flowHashSym\<close> is the same function without them, and \<open>fnv1a\<close>, the
  published hash, over the sorted endpoints is the reference both directions must agree on.
\<close>

section \<open>Operations\<close>

text \<open>\<open>bytes.Compare\<close>.\<close>

fun bytes_Compare :: "bytes \<Rightarrow> bytes \<Rightarrow> int" where
  "bytes_Compare [] [] = 0"
| "bytes_Compare [] (b # bs) = - 1"
| "bytes_Compare (a # as) [] = 1"
| "bytes_Compare (a # as) (b # bs) =
     (if a < b then - 1 else if b < a then 1 else bytes_Compare as bs)"

definition offset32 :: u32 where
  "offset32 = 2166136261"

definition prime32 :: u32 where
  "prime32 = 16777619"

definition upd :: "byte \<Rightarrow> u32 \<Rightarrow> u32" where
  "upd b h = (h XOR ucast b) * prime32"

text \<open>The part of \<open>flowHashSym\<close> after the header fields are read.\<close>

definition hash_tuple :: "byte \<Rightarrow> bytes \<Rightarrow> u16 \<Rightarrow> bytes \<Rightarrow> u16 \<Rightarrow> u32" where
  "hash_tuple proto srcIP srcPort dstIP dstPort =
     (let c = bytes_Compare srcIP dstIP;
          (loIP, loPort, hiIP, hiPort) =
            (if 0 < c \<or> (c = 0 \<and> dstPort < srcPort) then (dstIP, dstPort, srcIP, srcPort)
             else (srcIP, srcPort, dstIP, dstPort));
          h = fold upd loIP offset32;
          h = upd (ucast (drop_bit 8 loPort)) h;
          h = upd (ucast loPort) h;
          h = fold upd hiIP h;
          h = upd (ucast (drop_bit 8 hiPort)) h;
          h = upd (ucast hiPort) h
      in upd proto h)"

definition flowHashSym :: "bytes \<Rightarrow> u32" where
  "flowHashSym pkt =
     (if length pkt < 20 \<or> drop_bit 4 (pkt ! 0) \<noteq> 4 then 0
      else
        let ihl = unat (pkt ! 0 AND 0x0f) * 4;
            proto = pkt ! 9;
            (srcPort, dstPort) =
              (if (proto = 6 \<or> proto = 17) \<and> ihl + 4 \<le> length pkt
               then (be16 (bslice pkt ihl (ihl + 2)), be16 (bslice pkt (ihl + 2) (ihl + 4)))
               else (0, 0))
        in hash_tuple proto (bslice pkt 12 16) srcPort (bslice pkt 16 20) dstPort)"

text \<open>The same with Go's bounds checks: \<open>None\<close> is a panic.\<close>

definition flowHashSym_go :: "bytes \<Rightarrow> u32 option" where
  "flowHashSym_go pkt =
     (if length pkt < 20 then Some 0
      else do {
        b0 \<leftarrow> go_index pkt 0;
        if drop_bit 4 b0 \<noteq> 4 then Some 0
        else do {
          let ihl = unat (b0 AND 0x0f) * 4;
          proto \<leftarrow> go_index pkt 9;
          srcIP \<leftarrow> go_slice pkt 12 16;
          dstIP \<leftarrow> go_slice pkt 16 20;
          (srcPort, dstPort) \<leftarrow>
            (if (proto = 6 \<or> proto = 17) \<and> ihl + 4 \<le> length pkt
             then do {
               s \<leftarrow> go_slice pkt ihl (ihl + 2);
               d \<leftarrow> go_slice pkt (ihl + 2) (ihl + 4);
               Some (be16 s, be16 d)
             }
             else Some (0, 0));
          Some (hash_tuple proto srcIP srcPort dstIP dstPort)
        }
      })"

text \<open>
  The tunnel of an outbound packet: \<open>flowHashSym(b[:m]) % uint32(n)\<close> for \<open>n\<close> connections.
  A zero divisor panics.
\<close>

definition tunnel_index :: "bytes \<Rightarrow> nat \<Rightarrow> nat option" where
  "tunnel_index pkt n = do {
     h \<leftarrow> flowHashSym_go pkt;
     if (of_nat n :: u32) = 0 then None else Some (unat (h mod of_nat n))
   }"

section \<open>Reference: FNV-1a over the sorted endpoints\<close>

text \<open>The published definition of the 32-bit FNV-1a hash, over the natural numbers: starting from the
  offset basis, each byte is added exclusively and the result multiplied by the FNV prime.\<close>

definition fnv1a :: "bytes \<Rightarrow> nat" where
  "fnv1a bs = fold (\<lambda>b h. ((h XOR unat b) * 0x01000193) mod 2 ^ 32) bs 0x811C9DC5"

text \<open>An endpoint is its address bytes followed by its two port bytes; lists of bytes are
  ordered lexicographically.\<close>

definition endpoint :: "bytes \<Rightarrow> u16 \<Rightarrow> bytes" where
  "endpoint ip port = ip @ put_be16 port"

definition canonical :: "byte \<Rightarrow> bytes \<Rightarrow> bytes \<Rightarrow> bytes" where
  "canonical proto a b = min a b @ max a b @ [proto]"

section \<open>Lemmas\<close>

lemma bytes_Compare_less: "length a = length b \<Longrightarrow> bytes_Compare a b < 0 \<longleftrightarrow> a < b"
  and bytes_Compare_greater: "length a = length b \<Longrightarrow> 0 < bytes_Compare a b \<longleftrightarrow> b < a"
  and bytes_Compare_equal: "length a = length b \<Longrightarrow> bytes_Compare a b = 0 \<longleftrightarrow> a = b"
  by (induction a b rule: bytes_Compare.induct) auto

lemma less_append_iff:
  fixes a b :: "'a :: linorder list"
  assumes "length a = length b"
  shows "a @ x < b @ y \<longleftrightarrow> a < b \<or> (a = b \<and> x < y)"
  using assms by (induction a b rule: list_induct2) auto

lemma put_be16_less_iff: "put_be16 p < put_be16 q \<longleftrightarrow> p < q"
proof -
  have split: "unat w = unat (ucast (drop_bit 8 w) :: byte) * 256 + unat (ucast w :: byte)" for w :: u16
  proof -
    have "unat w < 2 ^ LENGTH(16)" by (rule unsigned_less)
    then have "unat w div 256 < 256" by simp
    then show ?thesis
      by (simp add: unsigned_ucast_eq unsigned_drop_bit_eq drop_bit_eq_div take_bit_eq_mod
        unat_div)
  qed
  have "unat (w :: byte) < 2 ^ LENGTH(8)" for w by (rule unsigned_less)
  then have lt: "unat (w :: byte) < 256" for w by simp
  show ?thesis
    using split [of p] split [of q] lt [of "ucast p"] lt [of "ucast q"]
    by (auto simp: put_be16_def word_less_nat_alt word_unat_eq_iff)
qed

lemma endpoint_less:
  assumes "length a = length b"
  shows "endpoint b q < endpoint a p \<longleftrightarrow>
    0 < bytes_Compare a b \<or> (bytes_Compare a b = 0 \<and> q < p)"
  using assms
  by (auto simp: endpoint_def less_append_iff put_be16_less_iff bytes_Compare_greater
      bytes_Compare_equal)

lemma unat_upd: "unat (upd b h) = ((unat h XOR unat b) * 0x01000193) mod 2 ^ 32"
proof -
  have "unat (ucast b :: u32) = unat b" by (simp add: unsigned_ucast_eq take_bit_nat_eq_self order_less_le_trans [OF unsigned_less])
  then show ?thesis by (simp add: upd_def prime32_def unat_word_ariths(2) unsigned_xor_eq)
qed

lemma fold_upd_fnv1a: "unat (fold upd bs offset32) = fnv1a bs"
proof -
  have "unat (fold upd bs h) = fold (\<lambda>b h. ((h XOR unat b) * 0x01000193) mod 2 ^ 32) bs (unat h)" for h
    by (induction bs arbitrary: h) (simp_all add: unat_upd)
  then show ?thesis by (simp add: fnv1a_def offset32_def)
qed

text \<open>A published test vector: the hash of the string \<open>foobar\<close>.\<close>

lemma fnv1a_foobar: "fnv1a [0x66, 0x6F, 0x6F, 0x62, 0x61, 0x72] = 0xBF9CF968"
  by (simp add: fnv1a_def)

lemma hash_tuple_canonical:
  assumes "length srcIP = length dstIP"
  shows "hash_tuple proto srcIP sp dstIP dp =
    fold upd (canonical proto (endpoint srcIP sp) (endpoint dstIP dp)) offset32"
proof -
  have run: "fold upd (endpoint a p @ endpoint b q @ [proto]) offset32 =
      upd proto (upd (ucast q) (upd (ucast (drop_bit 8 q)) (fold upd b
        (upd (ucast p) (upd (ucast (drop_bit 8 p)) (fold upd a offset32))))))" for a b p q
    by (simp add: endpoint_def put_be16_def)
  show ?thesis
  proof (cases "endpoint dstIP dp < endpoint srcIP sp")
    case True
    then have "canonical proto (endpoint srcIP sp) (endpoint dstIP dp) =
        endpoint dstIP dp @ endpoint srcIP sp @ [proto]"
      by (simp add: canonical_def min_absorb2 max_absorb1 less_imp_le)
    then show ?thesis
      using True by (simp only: run) (simp add: hash_tuple_def Let_def endpoint_less [OF assms])
  next
    case False
    then have "canonical proto (endpoint srcIP sp) (endpoint dstIP dp) =
        endpoint srcIP sp @ endpoint dstIP dp @ [proto]"
      by (simp add: canonical_def min_absorb1 max_absorb2 not_less)
    then show ?thesis
      using False by (simp only: run) (auto simp: hash_tuple_def Let_def endpoint_less [OF assms])
  qed
qed

lemma canonical_commute: "canonical proto a b = canonical proto b a"
  by (simp add: canonical_def min.commute max.commute)

lemma hash_tuple_commute:
  "length a = length b \<Longrightarrow> hash_tuple proto a p b q = hash_tuple proto b q a p"
  by (simp add: hash_tuple_canonical canonical_commute)

lemma flowHashSym_go_eq: "flowHashSym_go pkt = Some (flowHashSym pkt)"
proof (cases "length pkt < 20")
  case False
  then have "go_index pkt 0 = Some (pkt ! 0)" "go_index pkt 9 = Some (pkt ! 9)" by (auto simp: go_index_def)
  with False show ?thesis
    by (simp add: flowHashSym_go_def flowHashSym_def Let_def)
qed (simp add: flowHashSym_go_def flowHashSym_def)

lemma flowHashSym_packet:
  assumes "ip4_fields_ok front csum src dst opts" and "proto = 6 \<or> proto = 17"
  shows "flowHashSym (ip4_packet front proto csum src dst opts (put_be16 sp @ put_be16 dp @ body)) =
    fold upd (canonical proto (endpoint src sp) (endpoint dst dp)) offset32"
proof -
  let ?p = "ip4_packet front proto csum src dst opts (put_be16 sp @ put_be16 dp @ body)"
  note len = assms(1) [unfolded ip4_fields_ok_def]
  note rd = ip4_packet_read [OF assms(1), of proto "put_be16 sp @ put_be16 dp @ body"]
  have "drop (22 + length opts) ?p = drop 2 (drop (20 + length opts) ?p)" by (simp add: add.commute)
  then have "bslice ?p (20 + length opts) (20 + length opts + 2) = put_be16 sp"
    "bslice ?p (20 + length opts + 2) (20 + length opts + 4) = put_be16 dp"
    "24 + length opts \<le> length ?p"
    unfolding rd(6,7) by (simp_all add: rd(6) put_be16_def)
  with rd have "flowHashSym ?p = hash_tuple proto src sp dst dp"
    using assms(2) by (simp add: flowHashSym_def Let_def)
  then show ?thesis using len by (simp add: hash_tuple_canonical)
qed

lemma tunnel_index_Some:
  assumes "1 \<le> n" and "n \<le> 16"
  shows "tunnel_index pkt n = Some (unat (flowHashSym pkt) mod n)"
proof -
  have n: "unat (of_nat n :: u32) = n" using assms(2) by (simp add: unsigned_of_nat take_bit_nat_eq_self)
  then have "(of_nat n :: u32) \<noteq> 0" using assms(1) by (metis not_one_le_zero unsigned_0)
  then show ?thesis by (simp add: tunnel_index_def flowHashSym_go_eq unat_mod n)
qed

section \<open>Properties\<close>

text \<open>C17: for a TCP or UDP packet the hash is the 32-bit FNV-1a hash, as published (\<open>fnv1a\<close>, defined
  over the natural numbers with its own constants), of a canonical string: the smaller
  of the two endpoints (address and port bytes, compared lexicographically), the larger one and
  the protocol number. It depends on nothing else in the packet: not on the options, the
  checksum, the rest of the header or the payload.\<close>

theorem flowHashSym_reference:
  assumes "ip4_fields_ok front csum src dst opts" and "proto = 6 \<or> proto = 17"
  shows "unat (flowHashSym (ip4_packet front proto csum src dst opts (put_be16 sp @ put_be16 dp @ body))) =
    fnv1a (canonical proto (endpoint src sp) (endpoint dst dp))"
  by (simp add: flowHashSym_packet [OF assms] fold_upd_fnv1a)

text \<open>A TCP packet from 10.0.0.2, port 200, to 10.0.0.1, port 80, with one option word.\<close>

definition demo_front :: bytes where
  "demo_front = [0, 0, 44, 0, 1, 64, 0, 64]"

theorem flowHashSym_reference_witness:
  "ip4_fields_ok demo_front [1, 2] [10, 0, 0, 2] [10, 0, 0, 1] [1, 1, 1, 1]
   \<and> unat (flowHashSym (ip4_packet demo_front 6 [1, 2] [10, 0, 0, 2] [10, 0, 0, 1] [1, 1, 1, 1]
        (put_be16 200 @ put_be16 80 @ [7, 7]))) =
      fnv1a [10, 0, 0, 1, 0, 80, 10, 0, 0, 2, 0, 200, 6]"
  using flowHashSym_reference [of demo_front "[1, 2]" "[10, 0, 0, 2]" "[10, 0, 0, 1]" "[1, 1, 1, 1]" 6
      200 80 "[7, 7]"]
  by (simp add: ip4_fields_ok_def demo_front_def canonical_def endpoint_def put_be16_def min_def max_def)

text \<open>C16: the two directions of a flow choose the same tunnel. Whatever the other header fields,
  options and payloads of the two packets are, a packet and one with its addresses and ports
  exchanged get the same hash, for TCP, UDP and every protocol without ports, and so the same
  connection for any number of connections.\<close>

theorem flowHashSym_symmetric:
  assumes "ip4_fields_ok front csum src dst opts" and "ip4_fields_ok front' csum' dst src opts'"
    and "if proto = 6 \<or> proto = 17
         then body = put_be16 sp @ put_be16 dp @ rest \<and> body' = put_be16 dp @ put_be16 sp @ rest'
         else True"
  shows "tunnel_index (ip4_packet front proto csum src dst opts body) n =
    tunnel_index (ip4_packet front' proto csum' dst src opts' body') n"
proof -
  let ?p = "ip4_packet front proto csum src dst opts body"
  let ?q = "ip4_packet front' proto csum' dst src opts' body'"
  have "flowHashSym ?p = flowHashSym ?q"
  proof (cases "proto = 6 \<or> proto = 17")
    case True
    then show ?thesis
      using assms flowHashSym_packet [OF assms(1) True] flowHashSym_packet [OF assms(2) True]
      by (simp add: canonical_commute)
  next
    case False
    have fields: "drop_bit 4 (ip4_packet f proto c s d op b ! 0) = 4"
      "ip4_packet f proto c s d op b ! 9 = proto" "\<not> length (ip4_packet f proto c s d op b) < 20"
      "take 4 (drop 12 (ip4_packet f proto c s d op b)) = s"
      "take 4 (drop 16 (ip4_packet f proto c s d op b)) = d"
      if "ip4_fields_ok f c s d op" for f c s d op b
      using that version_ihl(1) [of op]
      by (auto simp: ip4_packet_def ip4_fields_ok_def nth_append)
    have "length src = length dst" using assms(1) by (simp add: ip4_fields_ok_def)
    with False show ?thesis
      by (simp add: flowHashSym_def Let_def fields [OF assms(1)] fields [OF assms(2)]
          hash_tuple_commute [of src dst])
  qed
  then show ?thesis by (simp add: tunnel_index_def flowHashSym_go_eq)
qed

theorem flowHashSym_symmetric_witness:
  "ip4_fields_ok demo_front [1, 2] [10, 0, 0, 2] [10, 0, 0, 1] [1, 1, 1, 1]
   \<and> tunnel_index (ip4_packet demo_front 6 [1, 2] [10, 0, 0, 2] [10, 0, 0, 1] [1, 1, 1, 1]
        (put_be16 200 @ put_be16 80 @ [7, 7])) 3 =
      tunnel_index (ip4_packet demo_front 6 [3, 4] [10, 0, 0, 1] [10, 0, 0, 2] []
        (put_be16 80 @ put_be16 200 @ [])) 3"
  using flowHashSym_symmetric [of demo_front "[1, 2]" "[10, 0, 0, 2]" "[10, 0, 0, 1]" "[1, 1, 1, 1]"
      demo_front "[3, 4]" "[]" 6 "put_be16 200 @ put_be16 80 @ [7, 7]" 200 80 "[7, 7]"
      "put_be16 80 @ put_be16 200 @ []" "[]" 3]
  by (simp add: ip4_fields_ok_def demo_front_def)

end
