(* ===== verification/DataPlane.thy ===== *)
theory DataPlane
  imports Reseq_Inv Observers FlowHash
begin

text \<open>
  The data plane of \<open>main.go\<close> (function \<open>tunnel\<close>): the reader goroutine of a connection,
  which observes, optionally resequences, and writes packets to the TUN queue, and the reader
  goroutine of a TUN queue, which dispatches packets to the connections by their flow hash.

  A run of a goroutine is a function of what its blocking reads return, in order. The TUN device
  and the connections are not part of the program: \<open>dev\<close> gives the error, if any, of the n-th
  write to the device, and \<open>wp\<close> the ICMP reply and the error of the n-th \<open>WritePacket\<close> of
  the goroutine on a connection.
\<close>

section \<open>The error channel of a session\<close>

datatype tunnel_error =
    FatalReadMASQUE nat string
  | WriteTUNFailed nat string
  | FatalReadTUN nat string
  | WriteTunnelFailed nat nat string
  | WriteICMPFailed nat string

record echan =
  echan_cap :: nat
  echan_buf :: "tunnel_error list"

text \<open>\<open>select { case errChan <- e: default: }\<close>: a send that never blocks.\<close>

definition report :: "tunnel_error \<Rightarrow> echan \<Rightarrow> echan" where
  "report e ch =
     (if length (echan_buf ch) < echan_cap ch then ch\<lparr>echan_buf := echan_buf ch @ [e]\<rparr> else ch)"

section \<open>Inbound: from a connection to the TUN device\<close>

text \<open>What \<open>ReadPacket\<close> returns, with whether statistics are on at that moment, the clock
  reading and the order in which the flush would visit the flows.\<close>

datatype inbound_read =
    ReadFailed string
  | GotPacket bool reseq_event

record inbound =
  obs :: PreReseqObserver
  genObs :: PreSendGenuineObserver
  reseq_of :: "ForwardReseq option"
  shared :: counters
  written :: "bytes list"
  errs :: echan

definition inbound_start :: "bool \<Rightarrow> counters \<Rightarrow> nat \<Rightarrow> inbound" where
  "inbound_start reseqEnabled c cap =
     \<lparr>obs = NewPreReseqObserver, genObs = NewPreSendGenuineObserver,
      reseq_of = (if reseqEnabled then Some (NewForwardReseq 128 (5 * Millisecond)) else None),
      shared = c, written = [], errs = \<lparr>echan_cap = cap, echan_buf = []\<rparr>\<rparr>"

definition inbound_observe :: "bool \<Rightarrow> bytes \<Rightarrow> inbound \<Rightarrow> inbound" where
  "inbound_observe on ip s =
     (if on then
        let (ob, c1) = PreReseq_Observe ip (obs s) (shared s);
            (gob, c2) = PreSend_Observe ip (genObs s) c1
        in s\<lparr>obs := ob, genObs := gob, shared := c2\<rparr>
      else s)"

definition inbound_order :: "reseq_event \<Rightarrow> inbound \<Rightarrow> inbound \<times> bytes list" where
  "inbound_order e s =
     (case reseq_of s of
        Some r \<Rightarrow> let (r', out) = reseq_step e r in (s\<lparr>reseq_of := Some r'\<rparr>, out)
      | None \<Rightarrow> (s, [fst e]))"

definition dev_Write :: "(nat \<Rightarrow> bytes \<Rightarrow> string option) \<Rightarrow> nat \<Rightarrow> bytes \<Rightarrow> inbound \<Rightarrow> inbound" where
  "dev_Write dev qid p s =
     (let s1 = s\<lparr>written := written s @ [p]\<rparr> in
      case dev (length (written s)) p of
        None \<Rightarrow> s1
      | Some msg \<Rightarrow> s1\<lparr>errs := report (WriteTUNFailed qid msg) (errs s1)\<rparr>)"

fun inbound_loop ::
  "(nat \<Rightarrow> bytes \<Rightarrow> string option) \<Rightarrow> nat \<Rightarrow> inbound_read list \<Rightarrow> inbound \<Rightarrow> inbound" where
  "inbound_loop dev qid [] s = s"
| "inbound_loop dev qid (ReadFailed msg # rs) s = s\<lparr>errs := report (FatalReadMASQUE qid msg) (errs s)\<rparr>"
| "inbound_loop dev qid (GotPacket on e # rs) s =
     (let s1 = inbound_observe on (fst e) s;
          (s2, out) = inbound_order e s1;
          s3 = fold (dev_Write dev qid) out s2
      in inbound_loop dev qid rs s3)"

section \<open>Outbound: from a TUN queue to the connections\<close>

record outbound =
  sent :: "(nat \<times> bytes) list"
  icmps :: "bytes list"
  oerrs :: echan

text \<open>One packet: \<open>None\<close> is a panic (a zero modulus or an index out of range).\<close>

definition outbound_step ::
  "(nat \<Rightarrow> nat \<Rightarrow> bytes \<Rightarrow> bytes \<times> string option) \<Rightarrow> (nat \<Rightarrow> bytes \<Rightarrow> string option) \<Rightarrow> 'c list
    \<Rightarrow> nat \<Rightarrow> bytes \<Rightarrow> outbound \<Rightarrow> outbound option" where
  "outbound_step wp dev conns qid pkt s = do {
     idx \<leftarrow> tunnel_index pkt (length conns);
     _ \<leftarrow> go_index conns idx;
     let (icmp, err) = wp idx (length (sent s)) pkt;
     let s1 = s\<lparr>sent := sent s @ [(idx, pkt)]\<rparr>;
     let s2 = (case err of None \<Rightarrow> s1
               | Some msg \<Rightarrow> s1\<lparr>oerrs := report (WriteTunnelFailed qid idx msg) (oerrs s1)\<rparr>);
     Some (if icmp = [] then s2
           else let s3 = s2\<lparr>icmps := icmps s2 @ [icmp]\<rparr> in
             case dev (length (icmps s2)) icmp of None \<Rightarrow> s3
             | Some msg \<Rightarrow> s3\<lparr>oerrs := report (WriteICMPFailed qid msg) (oerrs s3)\<rparr>)
   }"

fun outbound_loop ::
  "(nat \<Rightarrow> nat \<Rightarrow> bytes \<Rightarrow> bytes \<times> string option) \<Rightarrow> (nat \<Rightarrow> bytes \<Rightarrow> string option) \<Rightarrow> 'c list
    \<Rightarrow> nat \<Rightarrow> (string + bytes) list \<Rightarrow> outbound \<Rightarrow> outbound option" where
  "outbound_loop wp dev conns qid [] s = Some s"
| "outbound_loop wp dev conns qid (Inl msg # rs) s =
     Some (s\<lparr>oerrs := report (FatalReadTUN qid msg) (oerrs s)\<rparr>)"
| "outbound_loop wp dev conns qid (Inr pkt # rs) s =
     Option.bind (outbound_step wp dev conns qid pkt s) (outbound_loop wp dev conns qid rs)"

definition outbound_start :: "nat \<Rightarrow> outbound" where
  "outbound_start cap = \<lparr>sent = [], icmps = [], oerrs = \<lparr>echan_cap = cap, echan_buf = []\<rparr>\<rparr>"

section \<open>Lemmas\<close>

text \<open>The packets a goroutine receives before its first failed read.\<close>

fun got :: "inbound_read list \<Rightarrow> reseq_event list" where
  "got [] = []"
| "got (ReadFailed msg # rs) = []"
| "got (GotPacket on e # rs) = e # got rs"

fun got_tun :: "(string + bytes) list \<Rightarrow> bytes list" where
  "got_tun [] = []"
| "got_tun (Inl msg # rs) = []"
| "got_tun (Inr pkt # rs) = pkt # got_tun rs"

text \<open>The pass-through stage, the branch of the reader without resequencing.\<close>

definition pass_step :: "reseq_event \<Rightarrow> unit \<Rightarrow> unit \<times> bytes list" where
  "pass_step e u = (u, [fst e])"

interpretation pass: lossless_stage pass_step "\<lambda>_. True" "\<lambda>_. {#}" "\<lambda>e. {#fst e#}"
  by unfold_locales (simp_all add: pass_step_def)

lemma run_pass: "snd (run_stage pass_step es u) = map fst es"
  by (induction es arbitrary: u) (simp_all add: pass_step_def case_prod_beta)

text \<open>The ordering stage of the reader, as the stage it runs.\<close>

definition stage_out :: "reseq_event list \<Rightarrow> ForwardReseq option \<Rightarrow> bytes list" where
  "stage_out es r =
     (case r of Some q \<Rightarrow> snd (run_stage reseq_step es q) | None \<Rightarrow> snd (run_stage pass_step es ()))"

lemma written_fold: "written (fold (dev_Write dev qid) ps s) = written s @ ps"
  and reseq_of_fold: "reseq_of (fold (dev_Write dev qid) ps s) = reseq_of s"
  by (induction ps arbitrary: s) (simp_all add: dev_Write_def Let_def split: option.split)

lemma dev_Write_frame [simp]:
  "written (dev_Write dev qid p s) = written s @ [p]" "reseq_of (dev_Write dev qid p s) = reseq_of s"
  by (simp_all add: dev_Write_def Let_def split: option.split)

lemma observe_frame [simp]:
  "written (inbound_observe on ip s) = written s"
  "reseq_of (inbound_observe on ip s) = reseq_of s"
  "errs (inbound_observe on ip s) = errs s"
  by (simp_all add: inbound_observe_def case_prod_beta)

lemma stage_out_new:
  assumes "r = (if enabled then Some (NewForwardReseq w age) else None)" and "age \<le> max_duration"
  shows "mset (stage_out es r) \<subseteq># mset (map fst es)"
proof -
  have inputs: "(\<Sum>e \<leftarrow> es. {#fst e#}) = mset (map fst es)" by (induction es) auto
  show ?thesis
  proof (cases enabled)
    case True
    have "held_all (NewForwardReseq w age) = {#}" by (simp add: held_all_def NewForwardReseq_def)
    with reseq.run_conserves [OF reseq_ok_new [OF assms(2)], of es w] show ?thesis
      using True assms(1) by (simp add: stage_out_def inputs) (meson mset_subset_eq_add_left subset_mset.order_trans)
  next
    case False
    then show ?thesis using assms(1) pass.run_lossless [of es "()"] by (simp add: stage_out_def inputs)
  qed
qed

text \<open>The errors of a reader, in the order they occur.\<close>

fun write_errors ::
  "(nat \<Rightarrow> bytes \<Rightarrow> string option) \<Rightarrow> nat \<Rightarrow> nat \<Rightarrow> bytes list \<Rightarrow> tunnel_error list" where
  "write_errors dev qid n [] = []"
| "write_errors dev qid n (p # ps) =
     (case dev n p of None \<Rightarrow> [] | Some msg \<Rightarrow> [WriteTUNFailed qid msg])
       @ write_errors dev qid (Suc n) ps"

fun read_error :: "nat \<Rightarrow> inbound_read list \<Rightarrow> tunnel_error list" where
  "read_error qid [] = []"
| "read_error qid (ReadFailed msg # rs) = [FatalReadMASQUE qid msg]"
| "read_error qid (GotPacket on e # rs) = read_error qid rs"

text \<open>A bounded channel keeps the first errors sent to it.\<close>

lemma fold_report:
  assumes "length (echan_buf ch) \<le> echan_cap ch"
  shows "fold report es ch = ch\<lparr>echan_buf := take (echan_cap ch) (echan_buf ch @ es)\<rparr>"
  using assms
proof (induction es arbitrary: ch)
  case (Cons e es)
  then have "length (echan_buf (report e ch)) \<le> echan_cap (report e ch)" by (simp add: report_def)
  from Cons.IH [OF this] Cons.prems show ?case by (auto simp: report_def take_Cons' Suc_diff_Suc)
qed simp

lemma write_errors_append:
  "write_errors dev qid n (ps @ qs) = write_errors dev qid n ps @ write_errors dev qid (n + length ps) qs"
  by (induction ps arbitrary: n) simp_all

lemma errs_fold_dev:
  "errs (fold (dev_Write dev qid) ps s) = fold report (write_errors dev qid (length (written s)) ps) (errs s)"
  by (induction ps arbitrary: s) (simp_all add: dev_Write_def Let_def split: option.split)

lemma stage_out_Nil [simp]: "stage_out [] r = []"
  by (simp add: stage_out_def split: option.split)

lemma stage_out_Cons:
  "stage_out (e # es) r = stage_out [e] r @ stage_out es (map_option (\<lambda>q. fst (reseq_step e q)) r)"
  by (cases r) (simp_all add: stage_out_def pass_step_def case_prod_beta Let_def)

lemma inbound_order_stage:
  "snd (inbound_order e s) = stage_out [e] (reseq_of s)"
  "errs (fst (inbound_order e s)) = errs s" "written (fst (inbound_order e s)) = written s"
  "reseq_of (fst (inbound_order e s)) = map_option (\<lambda>q. fst (reseq_step e q)) (reseq_of s)"
  by (simp_all add: inbound_order_def stage_out_def pass_step_def case_prod_beta split: option.split)

lemma inbound_written:
  "written (inbound_loop dev qid rs s) = written s @ stage_out (got rs) (reseq_of s)"
proof (induction rs arbitrary: s)
  case (Cons r rs)
  then show ?case
    by (cases r) (simp_all add: case_prod_beta Let_def written_fold reseq_of_fold inbound_order_stage
        stage_out_Cons [of _ "got rs"])
qed simp

text \<open>What a reader sends to the error channel: the failed writes, then the failed read.\<close>

lemma inbound_errors:
  "errs (inbound_loop dev qid rs s) =
     fold report (write_errors dev qid (length (written s)) (stage_out (got rs) (reseq_of s)) @ read_error qid rs)
       (errs s)"
proof (induction rs arbitrary: s)
  case (Cons r rs)
  then show ?case
    by (cases r) (simp_all add: case_prod_beta Let_def written_fold reseq_of_fold errs_fold_dev
        inbound_order_stage write_errors_append stage_out_Cons [of _ "got rs"])
qed simp

lemma reader_reseq:
  "reseq_of (inbound_loop dev qid [GotPacket on e] s) =
     map_option (\<lambda>q. fst (reseq_step e q)) (reseq_of s)"
  by (simp add: case_prod_beta Let_def reseq_of_fold inbound_order_stage)

text \<open>The answers of the connections to the packets of a list, numbered from \<open>k\<close>.\<close>

definition dispatch :: "nat \<Rightarrow> bytes \<Rightarrow> nat \<times> bytes" where
  "dispatch n pkt = (unat (flowHashSym pkt) mod n, pkt)"

fun icmp_replies ::
  "(nat \<Rightarrow> nat \<Rightarrow> bytes \<Rightarrow> bytes \<times> string option) \<Rightarrow> nat \<Rightarrow> (nat \<times> bytes) list \<Rightarrow> bytes list" where
  "icmp_replies wp k [] = []"
| "icmp_replies wp k ((i, p) # ps) =
     (if fst (wp i k p) = [] then [] else [fst (wp i k p)]) @ icmp_replies wp (Suc k) ps"

lemma dispatch_index:
  "1 \<le> n \<Longrightarrow> n \<le> 16 \<Longrightarrow> tunnel_index pkt n = Some (fst (dispatch n pkt))"
  by (simp add: tunnel_index_Some dispatch_def)

lemma outbound_step_Some:
  assumes "1 \<le> length conns" and "length conns \<le> 16"
  shows "\<exists>s'. outbound_step wp dev conns qid pkt s = Some s'
    \<and> sent s' = sent s @ [dispatch (length conns) pkt]
    \<and> icmps s' = icmps s @ icmp_replies wp (length (sent s)) [dispatch (length conns) pkt]"
proof -
  have "0 < length conns" using assms(1) by linarith
  then have "fst (dispatch (length conns) pkt) < length conns"
    unfolding dispatch_def fst_conv by (rule mod_less_divisor)
  then show ?thesis
    by (cases "wp (fst (dispatch (length conns) pkt)) (length (sent s)) pkt")
      (auto simp: outbound_step_def dispatch_index [OF assms] dispatch_def Let_def
        split: option.split)
qed

lemma icmp_replies_append:
  "icmp_replies wp k (ps @ qs) = icmp_replies wp k ps @ icmp_replies wp (k + length ps) qs"
  by (induction wp k ps rule: icmp_replies.induct) auto

lemma outbound_loop_Some:
  assumes "1 \<le> length conns" and "length conns \<le> 16"
  shows "\<exists>s'. outbound_loop wp dev conns qid rs s = Some s'
    \<and> sent s' = sent s @ map (dispatch (length conns)) (got_tun rs)
    \<and> icmps s' = icmps s @ icmp_replies wp (length (sent s)) (map (dispatch (length conns)) (got_tun rs))"
proof (induction rs arbitrary: s)
  case (Cons r rs)
  show ?case
  proof (cases r)
    case (Inr pkt)
    obtain s1 where s1: "outbound_step wp dev conns qid pkt s = Some s1"
      "sent s1 = sent s @ [dispatch (length conns) pkt]"
      "icmps s1 = icmps s @ icmp_replies wp (length (sent s)) [dispatch (length conns) pkt]"
      using outbound_step_Some [OF assms] by blast
    obtain s2 where s2: "outbound_loop wp dev conns qid rs s1 = Some s2"
      "sent s2 = sent s1 @ map (dispatch (length conns)) (got_tun rs)"
      "icmps s2 = icmps s1 @ icmp_replies wp (length (sent s1)) (map (dispatch (length conns)) (got_tun rs))"
      using Cons.IH [of s1] by blast
    have "icmps s2 = icmps s @ icmp_replies wp (length (sent s))
        ([dispatch (length conns) pkt] @ map (dispatch (length conns)) (got_tun rs))"
      unfolding icmp_replies_append s2(3) s1(2,3) by simp
    with s1(1,2) s2(1,2) show ?thesis by (simp add: Inr)
  qed simp
qed simp

text \<open>What a dispatcher sends to the error channel for one result of its read.\<close>

fun outbound_errors ::
  "(nat \<Rightarrow> nat \<Rightarrow> bytes \<Rightarrow> bytes \<times> string option) \<Rightarrow> (nat \<Rightarrow> bytes \<Rightarrow> string option) \<Rightarrow> nat \<Rightarrow> nat
    \<Rightarrow> string + bytes \<Rightarrow> outbound \<Rightarrow> tunnel_error list" where
  "outbound_errors wp dev n qid (Inl msg) s = [FatalReadTUN qid msg]"
| "outbound_errors wp dev n qid (Inr pkt) s =
     (let idx = fst (dispatch n pkt); (icmp, err) = wp idx (length (sent s)) pkt in
      (case err of None \<Rightarrow> [] | Some msg \<Rightarrow> [WriteTunnelFailed qid idx msg])
      @ (if icmp = [] then []
         else case dev (length (icmps s)) icmp of None \<Rightarrow> [] | Some msg \<Rightarrow> [WriteICMPFailed qid msg]))"

lemma outbound_loop_errors:
  assumes "1 \<le> length conns" and "length conns \<le> 16" and "outbound_loop wp dev conns qid [r] s = Some s'"
  shows "oerrs s' = fold report (outbound_errors wp dev (length conns) qid r s) (oerrs s)"
proof (cases r)
  case (Inr pkt)
  have "0 < length conns" using assms(1) by linarith
  then have lt: "fst (dispatch (length conns) pkt) < length conns"
    unfolding dispatch_def fst_conv by (rule mod_less_divisor)
  obtain icmp err where w: "wp (fst (dispatch (length conns) pkt)) (length (sent s)) pkt = (icmp, err)"
    by (cases "wp (fst (dispatch (length conns) pkt)) (length (sent s)) pkt")
  from assms(3) show ?thesis
    by (auto simp: Inr outbound_step_def dispatch_index [OF assms(1,2)] lt w Let_def
        split: option.splits if_splits bind_splits)
qed (use assms(3) in auto)

end
