(* ===== verification/Go_Strings.thy ===== *)
theory Go_Strings
  imports Main "HOL-Library.Sublist" "HOL-Library.Char_ord"
begin

text \<open>
  The parts of Go's \<open>strings\<close>, \<open>strconv\<close> and \<open>bufio\<close> packages that the program uses. A Go
  string is a \<open>string\<close>, one character per byte. White space is that of \<open>unicode.IsSpace\<close> in
  its UTF-8 encodings. The case mappings cover ASCII and the four runes that map into ASCII
  (the dotless and the dotted i, the long s, the Kelvin sign); other runes keep their bytes, which
  no comparison with an ASCII constant can tell.
\<close>

section \<open>White space\<close>

text \<open>The encodings of the white-space runes.\<close>

definition space_seqs :: "string list" where
  "space_seqs =
     map (\<lambda>c. [c]) [CHR 0x20, CHR 0x09, CHR 0x0A, CHR 0x0B, CHR 0x0C, CHR 0x0D]
     @ [[CHR 0xC2, CHR 0x85], [CHR 0xC2, CHR 0xA0], [CHR 0xE1, CHR 0x9A, CHR 0x80]]
     @ map (\<lambda>c. [CHR 0xE2, CHR 0x80, c])
         [CHR 0x80, CHR 0x81, CHR 0x82, CHR 0x83, CHR 0x84, CHR 0x85, CHR 0x86, CHR 0x87, CHR 0x88,
          CHR 0x89, CHR 0x8A, CHR 0xA8, CHR 0xA9, CHR 0xAF]
     @ [[CHR 0xE2, CHR 0x81, CHR 0x9F], [CHR 0xE3, CHR 0x80, CHR 0x80]]"

text \<open>The length of the white-space rune a string begins with, 0 if it begins with none.\<close>

definition lead :: "string list \<Rightarrow> string \<Rightarrow> nat" where
  "lead ws s = (case find (\<lambda>w. w \<noteq> [] \<and> prefix w s) ws of None \<Rightarrow> 0 | Some w \<Rightarrow> length w)"

function strip :: "string list \<Rightarrow> string \<Rightarrow> string" where
  "strip ws s = (if lead ws s = 0 \<or> s = [] then s else strip ws (drop (lead ws s) s))"
  by pat_completeness auto
termination
  by (relation "measure (\<lambda>(ws, s). length s)") auto

declare strip.simps [simp del]

definition TrimSpace :: "string \<Rightarrow> string" where
  "TrimSpace s = rev (strip (map rev space_seqs) (rev (strip space_seqs s)))"

text \<open>\<open>strings.Fields\<close>: \<open>cur\<close> is the field being read.\<close>

function fields_from :: "string \<Rightarrow> string \<Rightarrow> string list" where
  "fields_from cur [] = (if cur = [] then [] else [cur])"
| "fields_from cur (c # s) =
     (if lead space_seqs (c # s) = 0 then fields_from (cur @ [c]) s
      else (if cur = [] then [] else [cur]) @ fields_from [] (drop (lead space_seqs (c # s)) (c # s)))"
  by pat_completeness auto
termination
  by (relation "measure (\<lambda>(cur, s). length s)") auto

definition Fields :: "string \<Rightarrow> string list" where
  "Fields s = fields_from [] s"

section \<open>Searching and case\<close>

definition HasPrefix :: "string \<Rightarrow> string \<Rightarrow> bool" where
  "HasPrefix s p = prefix p s"

text \<open>\<open>strings.Index\<close> of a one-byte string, as an option.\<close>

fun index_byte :: "string \<Rightarrow> char \<Rightarrow> nat option" where
  "index_byte [] c = None"
| "index_byte (x # s) c = (if x = c then Some 0 else map_option Suc (index_byte s c))"

text \<open>\<open>strings.SplitN(s, sep, 2)\<close> for a one-byte separator.\<close>

definition SplitN2 :: "string \<Rightarrow> char \<Rightarrow> string list" where
  "SplitN2 s c = (case index_byte s c of None \<Rightarrow> [s] | Some i \<Rightarrow> [take i s, drop (Suc i) s])"

definition ReplaceAll :: "string \<Rightarrow> char \<Rightarrow> char \<Rightarrow> string" where
  "ReplaceAll s old new = map (\<lambda>c. if c = old then new else c) s"

definition ascii_upper :: "char \<Rightarrow> char" where
  "ascii_upper c = (if CHR ''a'' \<le> c \<and> c \<le> CHR ''z'' then char_of (of_char c - 32 :: nat) else c)"

definition ascii_lower :: "char \<Rightarrow> char" where
  "ascii_lower c = (if CHR ''A'' \<le> c \<and> c \<le> CHR ''Z'' then char_of (of_char c + 32 :: nat) else c)"

fun ToUpper :: "string \<Rightarrow> string" where
  "ToUpper [] = []"
| "ToUpper (a # s) =
     (if a = CHR 0xC4 \<and> take 1 s = [CHR 0xB1] then CHR ''I'' # ToUpper (drop 1 s)
      else if a = CHR 0xC5 \<and> take 1 s = [CHR 0xBF] then CHR ''S'' # ToUpper (drop 1 s)
      else ascii_upper a # ToUpper s)"

fun ToLower :: "string \<Rightarrow> string" where
  "ToLower [] = []"
| "ToLower (a # s) =
     (if a = CHR 0xC4 \<and> take 1 s = [CHR 0xB0] then CHR ''i'' # ToLower (drop 1 s)
      else if a = CHR 0xE2 \<and> take 2 s = [CHR 0x84, CHR 0xAA] then CHR ''k'' # ToLower (drop 2 s)
      else ascii_lower a # ToLower s)"

text \<open>\<open>strings.EqualFold\<close> against an ASCII string without the letters k and s, whose only case
  variants are the two ASCII ones.\<close>

definition EqualFold :: "string \<Rightarrow> string \<Rightarrow> bool" where
  "EqualFold s t \<longleftrightarrow> map ascii_lower s = map ascii_lower t"

section \<open>Numbers and booleans\<close>

definition ParseBool :: "string \<Rightarrow> bool option" where
  "ParseBool s =
     (if s \<in> set [''1'', ''t'', ''T'', ''TRUE'', ''true'', ''True''] then Some True
      else if s \<in> set [''0'', ''f'', ''F'', ''FALSE'', ''false'', ''False''] then Some False
      else None)"

text \<open>\<open>on, _ := strconv.ParseBool(s)\<close>: the value is false when there is an error.\<close>

definition parsed_bool :: "string \<Rightarrow> bool" where
  "parsed_bool s = (ParseBool s = Some True)"

datatype num_error = ErrSyntax | ErrRange

definition digit_val :: "char \<Rightarrow> nat option" where
  "digit_val c =
     (if CHR ''0'' \<le> c \<and> c \<le> CHR ''9'' then Some (of_char c - 48) else None)"

text \<open>The digit loop of \<open>ParseUint\<close> in base 10: it stops at the first byte that is no digit or
  that makes the value too large.\<close>

fun uint_loop :: "nat \<Rightarrow> nat \<Rightarrow> string \<Rightarrow> nat \<times> num_error option" where
  "uint_loop maxVal n [] = (n, None)"
| "uint_loop maxVal n (c # s) =
     (case digit_val c of
        None \<Rightarrow> (0, Some ErrSyntax)
      | Some d \<Rightarrow>
          if maxVal < n * 10 + d then (maxVal, Some ErrRange) else uint_loop maxVal (n * 10 + d) s)"

definition ParseUint :: "string \<Rightarrow> nat \<Rightarrow> nat \<times> num_error option" where
  "ParseUint s bitSize =
     (if s = [] then (0, Some ErrSyntax) else uint_loop (2 ^ bitSize - 1) 0 s)"

definition ParseInt :: "string \<Rightarrow> nat \<Rightarrow> int \<times> num_error option" where
  "ParseInt s bitSize =
     (let neg = (take 1 s = ''-'');
          body = (if neg \<or> take 1 s = ''+'' then drop 1 s else s);
          cutoff = 2 ^ (bitSize - 1)
      in case ParseUint body bitSize of
           (un, Some ErrSyntax) \<Rightarrow> (0, Some ErrSyntax)
         | (un, _) \<Rightarrow>
             if \<not> neg \<and> cutoff \<le> un then (int cutoff - 1, Some ErrRange)
             else if neg \<and> cutoff < un then (- int cutoff, Some ErrRange)
             else (if neg then - int un else int un, None))"

definition Atoi :: "string \<Rightarrow> int \<times> num_error option" where
  "Atoi s = ParseInt s 64"

function digits_of :: "nat \<Rightarrow> string" where
  "digits_of n = (if n < 10 then [] else digits_of (n div 10)) @ [char_of (48 + n mod 10)]"
  by pat_completeness auto
termination
  by (relation "measure id") auto

declare digits_of.simps [simp del]

definition Itoa :: "int \<Rightarrow> string" where
  "Itoa i = (if i < 0 then CHR ''-'' # digits_of (nat (- i)) else digits_of (nat i))"

section \<open>Lines\<close>

text \<open>\<open>bufio.Scanner\<close> with \<open>ScanLines\<close>: a line ends at a newline or at the end of the input,
  a trailing carriage return is dropped, and a line that does not fit into the buffer of 64 KiB
  ends the scan.\<close>

function raw_lines :: "string \<Rightarrow> string list" where
  "raw_lines s =
     (if s = [] then []
      else takeWhile (\<lambda>c. c \<noteq> CHR 0x0A) s # raw_lines (drop 1 (dropWhile (\<lambda>c. c \<noteq> CHR 0x0A) s)))"
  by pat_completeness auto
termination
proof (relation "measure length")
  fix s :: string
  assume "s \<noteq> []"
  then show "(drop 1 (dropWhile (\<lambda>c. c \<noteq> CHR 0x0A) s), s) \<in> measure length"
    using length_dropWhile_le [of "\<lambda>c. c \<noteq> CHR 0x0A" s] by (cases s) (auto simp: less_Suc_eq_le)
qed simp

declare raw_lines.simps [simp del]

definition drop_cr :: "string \<Rightarrow> string" where
  "drop_cr l = (if l \<noteq> [] \<and> last l = CHR 0x0D then butlast l else l)"

definition scan_lines :: "string \<Rightarrow> string list" where
  "scan_lines s = map drop_cr (takeWhile (\<lambda>l. length l < 65536) (raw_lines s))"

section \<open>Lemmas on numbers\<close>

lemma digit_val_char_of: "d < 10 \<Longrightarrow> digit_val (char_of (48 + d)) = Some d"
  by (simp add: digit_val_def less_eq_char_def)

lemma uint_loop_append:
  "uint_loop M n (xs @ ys) =
     (case uint_loop M n xs of (v, None) \<Rightarrow> uint_loop M v ys | (v, Some e) \<Rightarrow> (v, Some e))"
  by (induction xs arbitrary: n) (auto split: option.split)

lemma uint_loop_digits_of: "m \<le> M \<Longrightarrow> uint_loop M 0 (digits_of m) = (m, None)"
proof (induction m rule: digits_of.induct)
  case (1 m)
  have last: "uint_loop M (m div 10) [char_of (48 + m mod 10)] = (m, None)"
    using 1(2) by (simp add: digit_val_char_of)
  show ?case
  proof (cases "m < 10")
    case True
    with last show ?thesis by (subst digits_of.simps) simp
  next
    case False
    have "m div 10 \<le> M" using 1(2) by (meson div_le_dividend order_trans)
    with 1(1) [OF False] have "uint_loop M 0 (digits_of (m div 10)) = (m div 10, None)" by simp
    with last False show ?thesis by (subst digits_of.simps) (simp add: uint_loop_append)
  qed
qed

lemma digits_of_nonempty [simp]: "digits_of n \<noteq> []"
  by (subst digits_of.simps) simp

lemma digits_of_chars: "c \<in> set (digits_of n) \<Longrightarrow> CHR ''0'' \<le> c \<and> c \<le> CHR ''9''"
proof (induction n rule: digits_of.induct)
  case (1 n)
  show ?case
  proof (cases "c = char_of (48 + n mod 10)")
    case True
    then show ?thesis by (simp add: less_eq_char_def)
  next
    case False
    with 1(2) have "\<not> n < 10" "c \<in> set (digits_of (n div 10))"
      by (simp_all add: digits_of.simps [of n] split: if_splits)
    then show ?thesis by (rule 1(1))
  qed
qed

lemma digits_of_no_sign: "take 1 (digits_of n) \<noteq> ''-''" "take 1 (digits_of n) \<noteq> ''+''"
  using digits_of_chars [of _ n] by (cases "digits_of n"; force simp: less_eq_char_def)+

text \<open>Printing a 64-bit integer and reading it back.\<close>

lemma Atoi_Itoa:
  assumes "- (2 ^ 63) \<le> i" and "i < 2 ^ 63"
  shows "Atoi (Itoa i) = (i, None)"
proof (cases "i < 0")
  case True
  have "nat (- i) \<le> 2 ^ 63" using assms(1) by (simp add: nat_le_iff)
  then show ?thesis
    using True uint_loop_digits_of [of "nat (- i)" "2 ^ 64 - 1"]
    by (simp add: Atoi_def ParseInt_def ParseUint_def Itoa_def not_less)
next
  case False
  have "nat i < 2 ^ 63" using assms(2) False by (simp add: nat_less_iff)
  then show ?thesis
    using False uint_loop_digits_of [of "nat i" "2 ^ 64 - 1"] digits_of_no_sign [of "nat i"]
    by (simp add: Atoi_def ParseInt_def ParseUint_def Itoa_def not_le)
qed

section \<open>Lemmas on white space\<close>

text \<open>Digits are not white space, and trimming leaves a string without outer white space alone.\<close>

definition trimmed :: "string \<Rightarrow> bool" where
  "trimmed s \<longleftrightarrow> lead space_seqs s = 0 \<and> lead (map rev space_seqs) (rev s) = 0"

lemma TrimSpace_trimmed: "trimmed s \<Longrightarrow> TrimSpace s = s"
  by (simp add: trimmed_def TrimSpace_def strip.simps)

lemma lead_0_iff: "lead ws s = 0 \<longleftrightarrow> (\<forall>w\<in>set ws. w \<noteq> [] \<longrightarrow> \<not> prefix w s)"
  by (auto simp: lead_def find_None_iff find_Some_iff split: option.splits)

text \<open>A white-space byte sequence begins with one of ten bytes.\<close>

definition space_start :: "char \<Rightarrow> bool" where
  "space_start c \<longleftrightarrow> c \<in> set [CHR 0x20, CHR 0x09, CHR 0x0A, CHR 0x0B, CHR 0x0C, CHR 0x0D,
      CHR 0xC2, CHR 0xE1, CHR 0xE2, CHR 0xE3]"

lemma lead_not_start: "s = [] \<or> \<not> space_start (hd s) \<Longrightarrow> lead space_seqs s = 0"
  by (cases s) (auto simp: lead_0_iff space_seqs_def space_start_def prefix_def)

text \<open>A field: not empty, and no white space begins anywhere in it.\<close>

definition solid :: "string \<Rightarrow> bool" where
  "solid f \<longleftrightarrow> f \<noteq> [] \<and> (\<forall>t. t \<noteq> [] \<longrightarrow> suffix t f \<longrightarrow> lead space_seqs t = 0)"

lemma lead_prefix_0: "lead ws (a @ b) = 0 \<Longrightarrow> lead ws a = 0"
  by (auto simp: lead_0_iff)

lemma fields_from_solid:
  assumes "\<And>t. t \<noteq> [] \<Longrightarrow> suffix t cur \<Longrightarrow> lead space_seqs (t @ s) = 0"
  shows "\<forall>f\<in>set (fields_from cur s). solid f"
  using assms
proof (induction cur s rule: fields_from.induct)
  case (1 cur)
  then show ?case by (auto simp: solid_def)
next
  case (2 cur c s)
  have cur: "solid cur" if "cur \<noteq> []"
    using that 2(3) lead_prefix_0 by (auto simp: solid_def)
  show ?case
  proof (cases "lead space_seqs (c # s) = 0")
    case True
    have "lead space_seqs (t @ s) = 0" if "t \<noteq> []" "suffix t (cur @ [c])" for t
    proof -
      from that obtain u where u: "t = u @ [c]" "suffix u cur" by (auto simp: suffix_snoc)
      show ?thesis using True 2(3) [of u] u by (cases "u = []") simp_all
    qed
    from 2(1) [OF True this] show ?thesis using True by simp
  next
    case False
    then show ?thesis using 2(2) [OF False] cur by auto
  qed
qed

lemma Fields_solid: "f \<in> set (Fields s) \<Longrightarrow> solid f"
  using fields_from_solid [of "[]" s] by (simp add: Fields_def)

text \<open>A space, tab or newline after a field ends it.\<close>

definition blank :: "char \<Rightarrow> bool" where
  "blank c \<longleftrightarrow> c = CHR 0x20 \<or> c = CHR 0x09 \<or> c = CHR 0x0A"

lemma lead_blank: "blank c \<Longrightarrow> lead space_seqs (c # s) = 1"
  unfolding blank_def by (elim disjE) (simp_all add: lead_def space_seqs_def)

lemma lead_before_blank:
  assumes "blank c" and "lead space_seqs t = 0" and "t \<noteq> []"
  shows "lead space_seqs (t @ c # s) = 0"
proof -
  have seqs: "c \<in> set w \<Longrightarrow> w = [c]" if "w \<in> set space_seqs" for w
    using assms(1) that unfolding blank_def by (elim disjE) (auto simp: space_seqs_def)
  have "\<not> prefix w (t @ c # s)" if w: "w \<in> set space_seqs" "w \<noteq> []" for w
  proof
    assume "prefix w (t @ c # s)"
    then consider "prefix w t" | "prefix t w" "c \<in> set w"
      by (auto simp: prefix_append prefix_Cons)
    then show False
    proof cases
      case 1
      then show False using assms(2) w by (auto simp: lead_0_iff)
    next
      case 2
      then have "w = [c]" using seqs w by blast
      then have "prefix w t" using 2 assms(3) by (cases t) auto
      then show False using assms(2) w by (auto simp: lead_0_iff)
    qed
  qed
  then show ?thesis by (simp add: lead_0_iff)
qed

lemma fields_from_field:
  assumes "blank c"
  shows "solid (f :: string) \<Longrightarrow> fields_from cur (f @ c # s) = (cur @ f) # fields_from [] s"
proof (induction f arbitrary: cur)
  case (Cons x f)
  have "lead space_seqs (x # f) = 0" using Cons.prems by (auto simp: solid_def)
  from lead_before_blank [OF assms this, of s] have l: "lead space_seqs (x # f @ c # s) = 0" by simp
  show ?case
  proof (cases "f = []")
    case True
    then show ?thesis using l lead_blank [OF assms, of s] by simp
  next
    case False
    then have "solid f" using Cons.prems by (auto simp: solid_def suffix_Cons)
    with Cons.IH [of "cur @ [x]"] l show ?thesis by simp
  qed
qed (simp add: solid_def)

lemma Fields_three:
  assumes "solid a" "solid b" "solid d" "blank c1" "blank c2" "blank c3"
  shows "Fields (a @ c1 # b @ c2 # d @ [c3]) = [a, b, d]"
  using assms by (simp add: Fields_def fields_from_field)

lemma solid_no_start: "f \<noteq> [] \<Longrightarrow> (\<And>c. c \<in> set f \<Longrightarrow> \<not> space_start c) \<Longrightarrow> solid f"
  by (auto simp: solid_def suffix_def intro!: lead_not_start)

lemma Itoa_chars: "c \<in> set (Itoa i) \<Longrightarrow> c = CHR ''-'' \<or> (CHR ''0'' \<le> c \<and> c \<le> CHR ''9'')"
  using digits_of_chars by (auto simp: Itoa_def split: if_splits)

lemma Itoa_nonempty [simp]: "Itoa i \<noteq> []"
  by (simp add: Itoa_def)

lemma Itoa_no_start: "c \<in> set (Itoa i) \<Longrightarrow> \<not> space_start c"
  by (drule Itoa_chars) (auto simp: space_start_def less_eq_char_def)

lemma solid_Itoa: "solid (Itoa i)"
  by (rule solid_no_start) (simp_all add: Itoa_no_start)

text \<open>A number followed by a newline is trimmed to the number.\<close>

lemma TrimSpace_Itoa_newline: "TrimSpace (Itoa i @ [CHR 0x0A]) = Itoa i"
proof -
  have "lead space_seqs (Itoa i @ [CHR 0x0A]) = 0"
    using Itoa_no_start [of "hd (Itoa i)" i] by (intro lead_not_start) (simp add: hd_append)
  then have l: "strip space_seqs (Itoa i @ [CHR 0x0A]) = Itoa i @ [CHR 0x0A]" by (simp add: strip.simps)
  have "lead (map rev space_seqs) (CHR 0x0A # rev (Itoa i)) = 1"
    by (simp add: lead_def space_seqs_def)
  then have "strip (map rev space_seqs) (CHR 0x0A # rev (Itoa i)) = strip (map rev space_seqs) (rev (Itoa i))"
    by (subst strip.simps) simp
  also have "\<dots> = rev (Itoa i)"
  proof -
    have "last (Itoa i) \<in> set (Itoa i)" by simp
    then have "hd (rev (Itoa i)) = CHR ''-'' \<or> (CHR ''0'' \<le> hd (rev (Itoa i)) \<and> hd (rev (Itoa i)) \<le> CHR ''9'')"
      by (metis Itoa_chars hd_rev)
    then have "lead (map rev space_seqs) (rev (Itoa i)) = 0"
      by (cases "rev (Itoa i)") (auto simp: lead_0_iff space_seqs_def less_eq_char_def)
    then show ?thesis by (simp add: strip.simps)
  qed
  finally show ?thesis by (simp add: TrimSpace_def l)
qed

end
