(* ===== verification/Logger.thy ===== *)
theory Logger
  imports Go_Strings
begin

text \<open>
  The levelled logger (\<open>logger/logger.go\<close>) and the statistics channel (\<open>stats/stats.go\<close>).
  The lazily created singleton is an \<open>option\<close>, the standard logger's output the list of lines
  written so far, and \<open>os.Exit\<close> sets a flag. The mutex only guards the creation of the
  singleton, which is one atomic step here.
\<close>

section \<open>Levels\<close>

datatype LogLevel = FATAL | ERROR | WARN | INFO | DEBUG | TRACE

fun level_num :: "LogLevel \<Rightarrow> nat" where
  "level_num FATAL = 0"
| "level_num ERROR = 1"
| "level_num WARN = 2"
| "level_num INFO = 3"
| "level_num DEBUG = 4"
| "level_num TRACE = 5"

lemma level_num_inject: "level_num a = level_num b \<longleftrightarrow> a = b"
  by (cases a; cases b) simp_all

instantiation LogLevel :: linorder
begin

definition less_eq_LogLevel :: "LogLevel \<Rightarrow> LogLevel \<Rightarrow> bool" where
  "less_eq_LogLevel a b \<longleftrightarrow> level_num a \<le> level_num b"

definition less_LogLevel :: "LogLevel \<Rightarrow> LogLevel \<Rightarrow> bool" where
  "less_LogLevel a b \<longleftrightarrow> level_num a < level_num b"

instance
  by standard (auto simp: less_eq_LogLevel_def less_LogLevel_def level_num_inject)

end

fun levelName :: "LogLevel \<Rightarrow> string" where
  "levelName FATAL = ''FATAL''"
| "levelName ERROR = ''ERROR''"
| "levelName WARN = ''WARN''"
| "levelName INFO = ''INFO''"
| "levelName DEBUG = ''DEBUG''"
| "levelName TRACE = ''TRACE''"

section \<open>State\<close>

record logger =
  level :: LogLevel
  logPath :: string

record logs =
  loggerInstance :: "logger option"
  enabled :: bool
  lines :: "string list"
  exited :: bool

definition logs_start :: logs where
  "logs_start = \<lparr>loggerInstance = None, enabled = False, lines = [], exited = False\<rparr>"

section \<open>Operations\<close>

definition Printf :: "string \<Rightarrow> string \<Rightarrow> logs \<Rightarrow> logs" where
  "Printf tag msg s = s\<lparr>lines := lines s @ [''['' @ tag @ '']: '' @ msg]\<rparr>"

definition ConvertStringToLogLevel :: "string \<Rightarrow> logs \<Rightarrow> LogLevel \<times> logs" where
  "ConvertStringToLogLevel name s =
     (let u = ToUpper name in
      if u = ''FATAL'' then (FATAL, s)
      else if u = ''ERROR'' then (ERROR, s)
      else if u = ''WARN'' then (WARN, s)
      else if u = ''INFO'' then (INFO, s)
      else if u = ''DEBUG'' then (DEBUG, s)
      else if u = ''TRACE'' then (TRACE, s)
      else (INFO, Printf ''ERROR'' (''Invalid log level: '' @ name @ ''. Defaulting to `INFO`'') s))"

definition GetLoggerInstance :: "logs \<Rightarrow> logger \<times> logs" where
  "GetLoggerInstance s =
     (case loggerInstance s of
        Some l \<Rightarrow> (l, s)
      | None \<Rightarrow> let l = \<lparr>level = INFO, logPath = ''masque.log''\<rparr> in (l, s\<lparr>loggerInstance := Some l\<rparr>))"

definition UpdateLogLevel :: "LogLevel \<Rightarrow> logs \<Rightarrow> logs" where
  "UpdateLogLevel lvl s =
     (let (l, s1) = GetLoggerInstance s in s1\<lparr>loggerInstance := Some (l\<lparr>level := lvl\<rparr>)\<rparr>)"

definition UpdateLogPath :: "string \<Rightarrow> logs \<Rightarrow> logs" where
  "UpdateLogPath path s =
     (let (l, s1) = GetLoggerInstance s in s1\<lparr>loggerInstance := Some (l\<lparr>logPath := path\<rparr>)\<rparr>)"

definition UpdateLoggerInstance :: "LogLevel \<Rightarrow> string \<Rightarrow> logs \<Rightarrow> logs" where
  "UpdateLoggerInstance lvl path s = UpdateLogPath path (UpdateLogLevel lvl s)"

definition UpdateLogLevelName :: "string \<Rightarrow> logs \<Rightarrow> logs" where
  "UpdateLogLevelName name s = (let (lvl, s1) = ConvertStringToLogLevel name s in UpdateLogLevel lvl s1)"

definition GetLogLevel :: "logs \<Rightarrow> LogLevel \<times> logs" where
  "GetLogLevel s = (let (l, s1) = GetLoggerInstance s in (level l, s1))"

definition GetLogPath :: "logs \<Rightarrow> string \<times> logs" where
  "GetLogPath s = (let (l, s1) = GetLoggerInstance s in (logPath l, s1))"

definition ShouldLog :: "LogLevel \<Rightarrow> logs \<Rightarrow> bool \<times> logs" where
  "ShouldLog lvl s = (let (cur, s1) = GetLogLevel s in (lvl \<le> cur, s1))"

definition Fatal :: "string \<Rightarrow> logs \<Rightarrow> logs" where
  "Fatal msg s =
     (let (cur, s1) = GetLogLevel s in
      if FATAL \<le> cur then (Printf (levelName FATAL) msg s1)\<lparr>exited := True\<rparr> else s1)"

text \<open>\<open>Error\<close>, \<open>Warn\<close>, \<open>Info\<close>, \<open>Debug\<close> and \<open>Trace\<close> are the same function at their level.\<close>

definition log_at :: "LogLevel \<Rightarrow> string \<Rightarrow> logs \<Rightarrow> logs" where
  "log_at lvl msg s =
     (let (cur, s1) = GetLogLevel s in if lvl \<le> cur then Printf (levelName lvl) msg s1 else s1)"

text \<open>The pattern of the call sites: \<open>if logger.ShouldLog(l) { logger.<Level>(msg) }\<close>.\<close>

definition guarded_log :: "LogLevel \<Rightarrow> string \<Rightarrow> logs \<Rightarrow> logs" where
  "guarded_log lvl msg s = (let (b, s1) = ShouldLog lvl s in if b then log_at lvl msg s1 else s1)"

definition stats_Enable :: "bool \<Rightarrow> logs \<Rightarrow> logs" where
  "stats_Enable on s = s\<lparr>enabled := on\<rparr>"

definition stats_ShouldLog :: "logs \<Rightarrow> bool" where
  "stats_ShouldLog s = enabled s"

definition Statistic :: "string \<Rightarrow> logs \<Rightarrow> logs" where
  "Statistic msg s = (if enabled s then Printf ''STATISTIC'' msg s else s)"

section \<open>Lemmas\<close>

text \<open>The level in force, with the default of the singleton.\<close>

definition cur_level :: "logs \<Rightarrow> LogLevel" where
  "cur_level s = (case loggerInstance s of Some l \<Rightarrow> level l | None \<Rightarrow> INFO)"

definition spelled :: "string \<Rightarrow> LogLevel" where
  "spelled name = (case find (\<lambda>l. levelName l = ToUpper name) [FATAL, ERROR, WARN, INFO, DEBUG, TRACE] of
     Some l \<Rightarrow> l | None \<Rightarrow> INFO)"

lemma GetLogLevel_cur [simp]: "fst (GetLogLevel s) = cur_level s" "cur_level (snd (GetLogLevel s)) = cur_level s"
  "lines (snd (GetLogLevel s)) = lines s" "exited (snd (GetLogLevel s)) = exited s"
  "enabled (snd (GetLogLevel s)) = enabled s"
  by (simp_all add: GetLogLevel_def GetLoggerInstance_def cur_level_def Let_def split: option.split)

lemma Convert_spelled: "fst (ConvertStringToLogLevel name s) = spelled name"
  by (simp add: ConvertStringToLogLevel_def spelled_def Let_def eq_commute)

lemma FATAL_least [simp]: "FATAL \<le> l"
  by (simp add: less_eq_LogLevel_def)

lemma cur_level_UpdateLogLevel [simp]: "cur_level (UpdateLogLevel lvl s) = lvl"
  by (simp add: UpdateLogLevel_def cur_level_def Let_def case_prod_beta)

lemma UpdateLogLevel_frame [simp]:
  "lines (UpdateLogLevel lvl s) = lines s" "exited (UpdateLogLevel lvl s) = exited s"
  "enabled (UpdateLogLevel lvl s) = enabled s"
  by (simp_all add: UpdateLogLevel_def GetLoggerInstance_def Let_def split: option.split)

lemma cur_level_UpdateLogLevelName [simp]: "cur_level (UpdateLogLevelName name s) = spelled name"
  by (simp add: UpdateLogLevelName_def case_prod_beta Convert_spelled)

lemma Printf_frame [simp]:
  "exited (Printf t m s) = exited s" "enabled (Printf t m s) = enabled s"
  "cur_level (Printf t m s) = cur_level s" "lines (Printf t m s) = lines s @ [''['' @ t @ '']: '' @ m]"
  by (simp_all add: Printf_def cur_level_def)

lemma UpdateLogLevelName_frame [simp]:
  "exited (UpdateLogLevelName name s) = exited s" "enabled (UpdateLogLevelName name s) = enabled s"
  by (simp_all add: UpdateLogLevelName_def ConvertStringToLogLevel_def Let_def)

lemma log_at_frame [simp]:
  "exited (log_at l m s) = exited s" "enabled (log_at l m s) = enabled s"
  "cur_level (log_at l m s) = cur_level s"
  by (simp_all add: log_at_def case_prod_beta)

lemma guarded_log_frame [simp]:
  "exited (guarded_log l m s) = exited s" "enabled (guarded_log l m s) = enabled s"
  "cur_level (guarded_log l m s) = cur_level s"
  by (simp_all add: guarded_log_def ShouldLog_def case_prod_beta)

lemma spells_iff: "(\<exists>l. u = levelName l) \<longleftrightarrow>
    u = ''FATAL'' \<or> u = ''ERROR'' \<or> u = ''WARN'' \<or> u = ''INFO'' \<or> u = ''DEBUG'' \<or> u = ''TRACE''"
  (is "?L \<longleftrightarrow> ?R")
proof
  show "?L \<Longrightarrow> ?R" by (elim exE, rename_tac l, case_tac l) simp_all
  show "?R \<Longrightarrow> ?L" by (elim disjE) (metis levelName.simps)+
qed

lemma lines_UpdateLogLevelName:
  "lines (UpdateLogLevelName name s) = lines s @ (if \<exists>l. ToUpper name = levelName l then []
      else [''[ERROR]: Invalid log level: '' @ name @ ''. Defaulting to `INFO`''])"
  by (simp add: UpdateLogLevelName_def ConvertStringToLogLevel_def Let_def spells_iff)

section \<open>Properties\<close>

text \<open>C40: after \<open>UpdateLogLevelName\<close> with any string the level in force is the one the string
  spells in any mixture of cases, and INFO, with one error line, if it spells none. From then on
  \<open>ShouldLog\<close> answers whether a level is at or below the one in force, and each of \<open>Error\<close> to
  \<open>Trace\<close> prints its message, once and tagged with its level, exactly then, whether or not its caller
  asked \<open>ShouldLog\<close> first; none of them ends the process. \<open>Fatal\<close> prints and ends the process under
  every level, and the statistics channel prints exactly when it is enabled, whatever the level.
  The levels are ordered from FATAL to TRACE.\<close>

theorem logger_levels:
  "(let s1 = UpdateLogLevelName name s; cur = cur_level s1 in
    cur = (if \<exists>l. ToUpper name = levelName l then (THE l. ToUpper name = levelName l) else INFO)
    \<and> lines s1 = lines s @ (if \<exists>l. ToUpper name = levelName l then []
        else [''[ERROR]: Invalid log level: '' @ name @ ''. Defaulting to `INFO`''])
    \<and> fst (ShouldLog l s1) = (l \<le> cur)
    \<and> lines (log_at l msg s1) = lines s1 @ (if l \<le> cur then [''['' @ levelName l @ '']: '' @ msg] else [])
    \<and> lines (guarded_log l msg s1) = lines (log_at l msg s1)
    \<and> exited (log_at l msg s1) = exited s
    \<and> exited (Fatal msg s1) \<and> lines (Fatal msg s1) = lines s1 @ [''[FATAL]: '' @ msg]
    \<and> lines (Statistic msg s1) = lines s1 @ (if enabled s then [''[STATISTIC]: '' @ msg] else []))
   \<and> FATAL < ERROR \<and> ERROR < WARN \<and> WARN < INFO \<and> INFO < DEBUG \<and> DEBUG < TRACE"
proof -
  have inj: "levelName a = levelName b \<longleftrightarrow> a = b" for a b by (cases a; cases b) simp_all
  have "spelled name =
      (if \<exists>l. ToUpper name = levelName l then (THE l. ToUpper name = levelName l) else INFO)"
  proof (cases "\<exists>l. ToUpper name = levelName l")
    case True
    then obtain l where l: "ToUpper name = levelName l" by blast
    then have "(THE k. ToUpper name = levelName k) = l" by (simp add: inj)
    moreover have "spelled name = l" unfolding spelled_def l by (cases l) simp_all
    ultimately show ?thesis using True by simp
  next
    case False
    then have "find (\<lambda>l. levelName l = ToUpper name) xs = None" for xs
      unfolding find_None_iff by metis
    with False show ?thesis by (simp add: spelled_def)
  qed
  moreover have "lines (UpdateLogLevelName name s) = lines s @ (if \<exists>l. ToUpper name = levelName l then []
      else [''[ERROR]: Invalid log level: '' @ name @ ''. Defaulting to `INFO`''])"
    by (rule lines_UpdateLogLevelName)
  ultimately show ?thesis
    by (simp add: guarded_log_def log_at_def ShouldLog_def Fatal_def Statistic_def case_prod_beta Let_def
        less_LogLevel_def)
qed

end
