(* ===== verification/Config.thy ===== *)
theory Config
  imports Logger Go_Map
begin

text \<open>
  Configuration: \<open>config.Load\<close> (\<open>config/config.go\<close>), the hot reload and the inotify watcher
  (\<open>config/watch.go\<close>), and the part of \<open>main\<close> that applies the logging settings. A context is
  the chain of its \<open>WithValue\<close> entries, newest first. The content of the configuration file is
  an input; \<open>None\<close> stands for a file that cannot be opened.
\<close>

section \<open>Contexts\<close>

type_synonym ctx = "(string \<times> string) list"

definition WithValue :: "ctx \<Rightarrow> string \<Rightarrow> string \<Rightarrow> ctx" where
  "WithValue c k v = (k, v) # c"

definition ctx_Value :: "ctx \<Rightarrow> string \<Rightarrow> string option" where
  "ctx_Value c k = map_of c k"

text \<open>\<open>v, _ := ctx.Value(k).(string)\<close>\<close>

definition ctx_string :: "ctx \<Rightarrow> string \<Rightarrow> string" where
  "ctx_string c k = (case ctx_Value c k of Some v \<Rightarrow> v | None \<Rightarrow> '''')"

section \<open>Load\<close>

definition Load_line :: "string \<Rightarrow> ctx \<Rightarrow> ctx" where
  "Load_line text ctx =
     (let line = TrimSpace text in
      if length line = 0 \<or> HasPrefix line ''#'' then ctx
      else
        let parts = SplitN2 line (CHR ''='') in
        if length parts \<noteq> 2 then ctx
        else
          let key = TrimSpace (parts ! 0);
              val = TrimSpace (parts ! 1)
          in if key = '''' then ctx else WithValue ctx key val)"

text \<open>\<open>None\<close>: the process exits.\<close>

definition Load :: "string option \<Rightarrow> ctx \<Rightarrow> ctx option" where
  "Load file ctx =
     (case file of None \<Rightarrow> None | Some content \<Rightarrow> Some (fold Load_line (scan_lines content) ctx))"

section \<open>Hot reload\<close>

definition reload_line :: "string \<Rightarrow> (string, string) gomap \<Rightarrow> (string, string) gomap" where
  "reload_line text vals =
     (let line = TrimSpace text in
      if line = '''' \<or> HasPrefix line ''#'' then vals
      else
        let parts = SplitN2 line (CHR ''='') in
        if length parts \<noteq> 2 then vals
        else
          let key = TrimSpace (parts ! 0) in
          if key \<noteq> '''' then AList.update key (TrimSpace (parts ! 1)) vals else vals)"

definition reload_vals :: "string \<Rightarrow> (string, string) gomap" where
  "reload_vals content = fold reload_line (scan_lines content) []"

definition reloadAndApply :: "string option \<Rightarrow> logs \<Rightarrow> logs" where
  "reloadAndApply file s =
     (case file of
        None \<Rightarrow> guarded_log ERROR ''config watch: reopen failed'' s
      | Some content \<Rightarrow>
          let vals = reload_vals content;
              s1 = (case map_of vals ''LOG_LEVEL'' of
                      Some v \<Rightarrow> if v \<noteq> '''' then UpdateLogLevelName v s else s
                    | None \<Rightarrow> s);
              s2 = (case map_of vals ''ENABLE_STATISTIC'' of
                      Some v \<Rightarrow> stats_Enable (parsed_bool v) s1
                    | None \<Rightarrow> s1)
          in guarded_log INFO
               ''config: hot-reloaded (applied LOG_LEVEL, ENABLE_STATISTIC; other keys need a restart)'' s2)"

text \<open>The settings \<open>main\<close> applies at startup; \<open>None\<close> is the panic of the type assertion on a
  missing \<open>LOG_LEVEL\<close> or the exit when the log file cannot be opened (\<open>open_ok\<close>).\<close>

definition LOG_PATH :: string where
  "LOG_PATH = ''/var/log/tmasque.log''"

definition main_logging :: "bool \<Rightarrow> ctx \<Rightarrow> logs \<Rightarrow> logs option" where
  "main_logging open_ok ctx s =
     (case ctx_Value ctx ''LOG_LEVEL'' of
        None \<Rightarrow> None
      | Some logLevel \<Rightarrow>
          let s1 = UpdateLogPath LOG_PATH (UpdateLogLevelName logLevel s) in
          if \<not> open_ok then None
          else
            let v = ctx_string ctx ''ENABLE_STATISTIC''
            in Some (if v \<noteq> '''' then stats_Enable (parsed_bool v) s1 else s1))"

section \<open>The inotify watcher\<close>

definition IN_CLOSE_WRITE :: u32 where
  "IN_CLOSE_WRITE = 0x8"

definition IN_DELETE_SELF :: u32 where
  "IN_DELETE_SELF = 0x400"

definition IN_MOVE_SELF :: u32 where
  "IN_MOVE_SELF = 0x800"

definition IN_IGNORED :: u32 where
  "IN_IGNORED = 0x8000"

definition SizeofInotifyEvent :: nat where
  "SizeofInotifyEvent = 16"

text \<open>The fields of the event at an offset, in the byte order of the (little-endian) host.\<close>

definition le32_at :: "bytes \<Rightarrow> nat \<Rightarrow> u32" where
  "le32_at buf i = be32 [buf ! (i + 3), buf ! (i + 2), buf ! (i + 1), buf ! i]"

text \<open>\<open>None\<close>: the event at \<open>off\<close> does not lie inside the buffer, so \<open>&buf[off]\<close> panics or the unsafe
  pointer reads past the array.\<close>

function inotify_loop :: "bytes \<Rightarrow> nat \<Rightarrow> nat \<Rightarrow> bool \<times> bool \<Rightarrow> (bool \<times> bool) option" where
  "inotify_loop buf n off (changed, reArm) =
     (if off + SizeofInotifyEvent \<le> n then
        (if length buf < off + SizeofInotifyEvent then None
         else
           let ev_Mask = le32_at buf (off + 4);
               ev_Len = le32_at buf (off + 12);
               changed = (changed \<or> ev_Mask AND IN_CLOSE_WRITE \<noteq> 0);
               reArm = (reArm \<or> ev_Mask AND (IN_IGNORED OR IN_MOVE_SELF OR IN_DELETE_SELF) \<noteq> 0)
           in inotify_loop buf n (off + SizeofInotifyEvent + unat ev_Len) (changed, reArm))
      else Some (changed, reArm))"
  by pat_completeness auto
termination
  by (relation "measure (\<lambda>(buf, n, off, _). n - off)") (auto simp: SizeofInotifyEvent_def)

declare inotify_loop.simps [simp del]

text \<open>What a blocking read of the inotify descriptor gives: an error, or a buffer with its fill,
  together with whether a following \<open>InotifyAddWatch\<close> fails and the file a reload would see.\<close>

datatype watch_read =
    WatchError
  | WatchData bytes nat bool "string option"

record watcher =
  armed :: nat
  slept_ms :: nat
  wlogs :: logs

definition addWatch :: "bool \<Rightarrow> watcher \<Rightarrow> watcher" where
  "addWatch fails w =
     (if fails then w\<lparr>wlogs := guarded_log ERROR ''config watch: add watch failed'' (wlogs w)\<rparr>
      else w\<lparr>armed := armed w + 1\<rparr>)"

definition watch_step :: "bytes \<Rightarrow> nat \<Rightarrow> bool \<Rightarrow> string option \<Rightarrow> watcher \<Rightarrow> watcher option" where
  "watch_step buf n fails file w =
     map_option (\<lambda>(changed, reArm).
         let w1 = (if reArm then addWatch fails (w\<lparr>slept_ms := slept_ms w + 50\<rparr>) else w);
             changed = (changed \<or> reArm)
         in if changed then w1\<lparr>wlogs := reloadAndApply file (wlogs w1)\<rparr> else w1)
       (inotify_loop buf n 0 (False, False))"

fun Watch_loop :: "watch_read list \<Rightarrow> watcher \<Rightarrow> watcher option" where
  "Watch_loop [] w = Some w"
| "Watch_loop (WatchError # rs) w = Some w"
| "Watch_loop (WatchData buf n fails file # rs) w =
     Option.bind (watch_step buf n fails file w) (Watch_loop rs)"

text \<open>The goroutine of \<open>Watch\<close>: \<open>init_ok\<close> is the success of \<open>InotifyInit1\<close>.\<close>

definition Watch :: "bool \<Rightarrow> bool \<Rightarrow> watch_read list \<Rightarrow> watcher \<Rightarrow> watcher option" where
  "Watch init_ok fails rs w =
     (if \<not> init_ok then Some (w\<lparr>wlogs := guarded_log ERROR ''config watch: inotify init failed'' (wlogs w)\<rparr>)
      else Watch_loop rs (addWatch fails w))"

section \<open>Lemmas on parsing\<close>

lemma lookup_line:
  assumes "\<forall>k. map_of c k = map_of m k"
  shows "map_of (Load_line l c) k = map_of (reload_line l m) k"
  using assms
  by (simp add: Load_line_def reload_line_def Let_def WithValue_def map_simps)

lemma lookup_lines:
  assumes "\<forall>k. map_of c k = map_of m k"
  shows "map_of (fold Load_line ls c) k = map_of (fold reload_line ls m) k"
  using assms by (induction ls arbitrary: c m) (simp_all add: lookup_line)

text \<open>White space never contains the separator, so trimming sees each side of it alone.\<close>

lemma lead_append_sep:
  assumes "\<forall>w\<in>set ws. c \<notin> set w"
  shows "lead ws (a @ c # b) = lead ws a"
proof -
  have "prefix w (a @ c # b) \<longleftrightarrow> prefix w a" if "w \<in> set ws" for w
    using assms that by (auto simp: prefix_append prefix_Cons)
  then have "find (\<lambda>w. w \<noteq> [] \<and> prefix w (a @ c # b)) ws = find (\<lambda>w. w \<noteq> [] \<and> prefix w a) ws"
    by (intro find_cong) auto
  then show ?thesis by (simp add: lead_def)
qed

lemma space_seqs_no_sep: "\<forall>w\<in>set space_seqs. CHR ''='' \<notin> set w"
  by (simp add: space_seqs_def)

lemma trimmed_entry: "trimmed k \<Longrightarrow> trimmed v \<Longrightarrow> trimmed (k @ CHR ''='' # v)"
  using lead_append_sep [of "map rev space_seqs" "CHR ''=''" "rev v" "rev k"]
  by (simp add: trimmed_def lead_append_sep [OF space_seqs_no_sep] space_seqs_no_sep)

lemma index_byte_append: "c \<notin> set a \<Longrightarrow> index_byte (a @ c # b) c = Some (length a)"
  by (induction a) auto

text \<open>A file that lists the entries, one per line.\<close>

definition render :: "(string \<times> string) list \<Rightarrow> string" where
  "render es = concat (map (\<lambda>(k, v). k @ CHR ''='' # v @ [CHR 0x0A]) es)"

definition entry_ok :: "string \<times> string \<Rightarrow> bool" where
  "entry_ok e \<longleftrightarrow> trimmed (fst e) \<and> trimmed (snd e) \<and> fst e \<noteq> [] \<and> hd (fst e) \<noteq> CHR ''#''
     \<and> CHR ''='' \<notin> set (fst e) \<and> CHR 0x0A \<notin> set (fst e) \<and> CHR 0x0A \<notin> set (snd e)
     \<and> length (fst e) + length (snd e) < 65535"

lemma Load_line_entry:
  assumes "entry_ok (k, v)"
  shows "Load_line (k @ CHR ''='' # v) c = (k, v) # c"
proof -
  have t: "TrimSpace (k @ CHR ''='' # v) = k @ CHR ''='' # v" "TrimSpace k = k" "TrimSpace v = v"
    using assms by (simp_all add: entry_ok_def TrimSpace_trimmed trimmed_entry)
  have "\<not> HasPrefix (k @ CHR ''='' # v) ''#''"
    using assms by (cases k) (auto simp: entry_ok_def HasPrefix_def)
  moreover have "SplitN2 (k @ CHR ''='' # v) (CHR ''='') = [k, v]"
    using assms by (simp add: SplitN2_def entry_ok_def index_byte_append)
  ultimately show ?thesis using assms t by (simp add: Load_line_def entry_ok_def WithValue_def)
qed

lemma raw_lines_line:
  assumes "CHR 0x0A \<notin> set l"
  shows "raw_lines (l @ CHR 0x0A # s) = l # raw_lines s"
proof -
  have "takeWhile (\<lambda>c. c \<noteq> CHR 0x0A) (l @ CHR 0x0A # s) = l"
    "dropWhile (\<lambda>c. c \<noteq> CHR 0x0A) (l @ CHR 0x0A # s) = CHR 0x0A # s"
    using assms by (auto simp: takeWhile_append dropWhile_append takeWhile_eq_all_conv)
  then show ?thesis by (subst raw_lines.simps) simp
qed

lemma drop_cr_trimmed: "trimmed l \<Longrightarrow> drop_cr l = l"
  by (cases l rule: rev_cases) (auto simp: trimmed_def drop_cr_def lead_0_iff space_seqs_def)

lemma scan_render:
  assumes "\<forall>e\<in>set es. entry_ok e"
  shows "scan_lines (render es) = map (\<lambda>(k, v). k @ CHR ''='' # v) es"
  using assms
proof (induction es)
  case Nil
  then show ?case by (simp add: scan_lines_def render_def raw_lines.simps)
next
  case (Cons e es)
  obtain k v where e: "e = (k, v)" by (cases e)
  with Cons.prems have ok: "entry_ok (k, v)" by simp
  have "raw_lines (render (e # es)) = (k @ CHR ''='' # v) # raw_lines (render es)"
    using raw_lines_line [of "k @ CHR ''='' # v" "render es"] ok by (simp add: render_def e entry_ok_def)
  moreover have "drop_cr (k @ CHR ''='' # v) = k @ CHR ''='' # v"
    using ok by (simp add: entry_ok_def drop_cr_trimmed trimmed_entry)
  ultimately show ?case using Cons ok by (simp add: scan_lines_def e entry_ok_def)
qed

lemma Load_lookup: "ctx_Value (fold Load_line ls []) k = map_of (fold reload_line ls []) k"
  unfolding ctx_Value_def by (rule lookup_lines) simp

lemma Load_render:
  assumes "\<forall>e\<in>set es. entry_ok e"
  shows "Load (Some (render es)) [] = Some (rev es)"
proof -
  have "fold Load_line (map (\<lambda>(k, v). k @ CHR ''='' # v) es) c = rev es @ c" for c
    using assms by (induction es arbitrary: c) (auto simp: Load_line_entry)
  then show ?thesis by (simp add: Load_def scan_render [OF assms])
qed

section \<open>Lemmas on the watcher\<close>

text \<open>The kernel's layout of an event: watch descriptor, mask, cookie, length and name.\<close>

definition put_le32 :: "u32 \<Rightarrow> bytes" where
  "put_le32 w = rev (put_be32 w)"

type_synonym inotify_event = "u32 \<times> u32 \<times> u32 \<times> bytes"

definition enc_event :: "inotify_event \<Rightarrow> bytes" where
  "enc_event ev = (case ev of (wd, msk, cookie, name) \<Rightarrow>
     put_le32 wd @ put_le32 msk @ put_le32 cookie @ put_le32 (of_nat (length name)) @ name)"

definition event_mask :: "inotify_event \<Rightarrow> u32" where
  "event_mask ev = fst (snd ev)"

lemma le32_at_put:
  "length pre = i \<Longrightarrow> le32_at (pre @ put_le32 w @ post) i = w"
  using be32_put_be32 [of w]
  by (simp add: le32_at_def put_le32_def put_be32_def nth_append)

lemma length_put_le32 [simp]: "length (put_le32 w) = 4"
  by (simp add: put_le32_def)

lemma enc_event_fields:
  assumes "ev = (wd, msk, cookie, name)" and "length name < 2 ^ 32"
  shows "length (enc_event ev) = 16 + length name"
    and "le32_at (pre @ enc_event ev @ post) (length pre + 4) = msk"
    and "unat (le32_at (pre @ enc_event ev @ post) (length pre + 12)) = length name"
proof -
  show "length (enc_event ev) = 16 + length name" by (simp add: enc_event_def assms(1))
  show "le32_at (pre @ enc_event ev @ post) (length pre + 4) = msk"
    using le32_at_put [of "pre @ put_le32 wd" "length pre + 4" msk] by (simp add: enc_event_def assms(1))
  have "le32_at (pre @ enc_event ev @ post) (length pre + 12) = of_nat (length name)"
    using le32_at_put [of "pre @ put_le32 wd @ put_le32 msk @ put_le32 cookie" "length pre + 12"]
    by (simp add: enc_event_def assms(1))
  then show "unat (le32_at (pre @ enc_event ev @ post) (length pre + 12)) = length name"
    using assms(2) by (simp add: unsigned_of_nat take_bit_nat_eq_self)
qed

text \<open>The loop over a buffer that the kernel filled with whole events.\<close>

lemma inotify_loop_events:
  assumes "\<forall>ev\<in>set evs. length (snd (snd (snd ev))) < 2 ^ 32"
  shows "inotify_loop (pre @ concat (map enc_event evs) @ post)
      (length pre + length (concat (map enc_event evs))) (length pre) (c, r) =
    Some (c \<or> (\<exists>ev\<in>set evs. event_mask ev AND IN_CLOSE_WRITE \<noteq> 0),
          r \<or> (\<exists>ev\<in>set evs. event_mask ev AND (IN_IGNORED OR IN_MOVE_SELF OR IN_DELETE_SELF) \<noteq> 0))"
  using assms
proof (induction evs arbitrary: pre c r)
  case Nil
  then show ?case by (simp add: inotify_loop.simps SizeofInotifyEvent_def)
next
  case (Cons ev evs)
  obtain wd msk cookie name where ev: "ev = (wd, msk, cookie, name)" by (cases ev)
  have len: "length name < 2 ^ 32" using Cons.prems by (simp add: ev)
  have m: "event_mask ev = msk" by (simp add: event_mask_def ev)
  let ?rest = "concat (map enc_event evs) @ post"
  note f = enc_event_fields(2,3) [OF ev len, of pre ?rest]
  from Cons.IH [of "pre @ enc_event ev" "c \<or> msk AND IN_CLOSE_WRITE \<noteq> 0"
      "r \<or> msk AND (IN_IGNORED OR IN_MOVE_SELF OR IN_DELETE_SELF) \<noteq> 0"] Cons.prems
  show ?case
    by (subst inotify_loop.simps)
      (auto simp: f m enc_event_fields(1) [OF ev len] SizeofInotifyEvent_def Let_def add.assoc)
qed

text \<open>A read of a buffer inside its bounds never panics, whatever the bytes in it are.\<close>

lemma inotify_loop_total: "n \<le> length buf \<Longrightarrow> inotify_loop buf n off st \<noteq> None"
proof (induction buf n off st rule: inotify_loop.induct)
  case (1 buf n off changed reArm)
  then show ?case
    by (subst inotify_loop.simps) (auto simp: Let_def SizeofInotifyEvent_def)
qed

text \<open>Only the bytes that the read filled are looked at.\<close>

lemma inotify_loop_filled:
  assumes "take n buf = take n buf'" and "n \<le> length buf" and "n \<le> length buf'"
  shows "inotify_loop buf n off st = inotify_loop buf' n off st"
  using assms
proof (induction buf n off st rule: inotify_loop.induct)
  case (1 buf n off changed reArm)
  have nth: "buf ! i = buf' ! i" if "i < n" for i
    using 1(2) that by (metis nth_take)
  have fields: "le32_at buf (off + 4) = le32_at buf' (off + 4)" "le32_at buf (off + 12) = le32_at buf' (off + 12)"
    if "off + SizeofInotifyEvent \<le> n"
    using that by (simp_all add: le32_at_def SizeofInotifyEvent_def nth)
  show ?case
  proof (cases "off + SizeofInotifyEvent \<le> n")
    case True
    with 1(3,4) have "\<not> length buf < off + SizeofInotifyEvent" "\<not> length buf' < off + SizeofInotifyEvent"
      by linarith+
    then show ?thesis
      using 1(1) [OF True _ refl refl refl refl] 1(2-4) True fields [OF True]
      by (subst (1 2) inotify_loop.simps) (simp add: Let_def)
  qed (simp add: inotify_loop.simps)
qed

text \<open>A read as the kernel fills it: whole events, then stale bytes of the buffer.\<close>

type_synonym file_read = "inotify_event list \<times> bytes \<times> bool \<times> string option"

definition kernel_read :: "file_read \<Rightarrow> watch_read" where
  "kernel_read rd = (case rd of (evs, post, fails, conf) \<Rightarrow>
     WatchData (concat (map enc_event evs) @ post) (length (concat (map enc_event evs))) fails conf)"

text \<open>What the watcher should do on it.\<close>

definition react :: "file_read \<Rightarrow> watcher \<Rightarrow> watcher" where
  "react rd w = (case rd of (evs, post, fails, conf) \<Rightarrow>
     let closed = list_ex (\<lambda>ev. event_mask ev AND IN_CLOSE_WRITE \<noteq> 0) evs;
         replaced = list_ex (\<lambda>ev. event_mask ev AND (IN_IGNORED OR IN_MOVE_SELF OR IN_DELETE_SELF) \<noteq> 0) evs;
         w1 = (if replaced then addWatch fails (w\<lparr>slept_ms := slept_ms w + 50\<rparr>) else w)
     in if closed \<or> replaced then w1\<lparr>wlogs := reloadAndApply conf (wlogs w1)\<rparr> else w1)"

lemma watch_step_events:
  assumes "\<forall>ev\<in>set evs. length (snd (snd (snd ev))) < 2 ^ 32"
  shows "watch_step (concat (map enc_event evs) @ post) (length (concat (map enc_event evs))) fails conf w =
    Some (react (evs, post, fails, conf) w)"
  using inotify_loop_events [OF assms, of "[]" post False False]
  by (simp add: watch_step_def react_def Let_def list_ex_iff)

lemma Watch_loop_reads:
  assumes "\<forall>rd\<in>set rds. \<forall>ev\<in>set (fst rd). length (snd (snd (snd ev))) < 2 ^ 32"
  shows "Watch_loop (map kernel_read rds @ rs) w = Watch_loop rs (fold react rds w)"
  using assms
  by (induction rds arbitrary: w) (auto simp: kernel_read_def watch_step_events split: prod.split)

section \<open>Properties\<close>

text \<open>C33: the two readers of the configuration file agree: for every file content and every key,
  looking the key up in the context that \<open>Load\<close> builds gives the same as looking it up in the
  map of the hot reload, with the last assignment of a key winning in both; only \<open>Load\<close> ends the
  process when the file cannot be opened, a reload leaves level and statistics as they are.\<close>

theorem Load_agrees_with_reload:
  "map_option (\<lambda>c. ctx_Value c k) (Load (Some content) []) = Some (map_of (reload_vals content) k)
   \<and> Load None [] = None
   \<and> cur_level (reloadAndApply None s) = cur_level s \<and> enabled (reloadAndApply None s) = enabled s
   \<and> exited (reloadAndApply file s) = exited s"
  by (simp add: Load_def reload_vals_def Load_lookup reloadAndApply_def Let_def stats_Enable_def
      split: option.split)

text \<open>C34: a configuration file written as one \<open>key=value\<close> line per entry is read back exactly:
  every key has the value of its last entry, and a key that was not written has none.\<close>

theorem Load_round_trip:
  assumes "\<forall>e\<in>set es. entry_ok e"
  shows "\<exists>c. Load (Some (render es)) [] = Some c \<and> ctx_Value c = map_of (rev es)"
  by (simp add: Load_render [OF assms] ctx_Value_def fun_eq_iff)

theorem Load_round_trip_witness:
  "\<exists>c. Load (Some (render [(''SERVER'', ''a b:1=2''), (''K'', ''''), (''SERVER'', ''x'')])) [] = Some c
     \<and> ctx_Value c ''SERVER'' = Some ''x'' \<and> ctx_Value c ''K'' = Some '''' \<and> ctx_Value c ''L'' = None"
proof -
  have "\<forall>e\<in>set [(''SERVER'', ''a b:1=2''), (''K'', ''''), (''SERVER'', ''x'')]. entry_ok e"
    by (simp add: entry_ok_def trimmed_def lead_0_iff space_seqs_def)
  from Load_round_trip [OF this] show ?thesis by auto
qed

text \<open>C35: hot reload compared with a restart, for a file with which a restart gets past its check of
  \<open>LOG_LEVEL\<close>. Applying the file to a running process, in whatever state its logger is, gives
  the log level that a process started with the file has if the file sets a non-empty
  \<open>LOG_LEVEL\<close>, and leaves the level alone otherwise; it gives the statistics switch of a restart if
  the file sets \<open>ENABLE_STATISTIC\<close> at all. A file without that key is where the two differ: the reload
  keeps the switch as it is, also when it is on, while a restart has it off.\<close>

theorem hot_reload_matches_restart:
  assumes "Load (Some content) [] = Some c" and "ctx_Value c ''LOG_LEVEL'' \<noteq> None"
  shows "\<exists>t. main_logging True c logs_start = Some t
    \<and> cur_level (reloadAndApply (Some content) s) =
        (if ctx_string c ''LOG_LEVEL'' = '''' then cur_level s else cur_level t)
    \<and> enabled (reloadAndApply (Some content) s) =
        (if ctx_Value c ''ENABLE_STATISTIC'' = None then enabled s else enabled t)
    \<and> (if ctx_Value c ''ENABLE_STATISTIC'' = None then \<not> enabled t else True)"
proof -
  have look: "map_of (reload_vals content) k = ctx_Value c k" for k
    using assms(1) Load_lookup [of "scan_lines content" k] by (simp add: Load_def reload_vals_def)
  obtain v where "ctx_Value c ''LOG_LEVEL'' = Some v" using assms(2) by blast
  moreover have "cur_level (UpdateLogPath p t) = cur_level t" "enabled (UpdateLogPath p t) = enabled t" for p t
    by (simp_all add: UpdateLogPath_def GetLoggerInstance_def cur_level_def Let_def split: option.split)
  moreover have "cur_level (stats_Enable b t) = cur_level t" "enabled (stats_Enable b t) = b" for b t
    by (simp_all add: stats_Enable_def cur_level_def)
  moreover have "parsed_bool '''' = False" by (simp add: parsed_bool_def ParseBool_def)
  ultimately show ?thesis
    by (cases "ctx_Value c ''ENABLE_STATISTIC''")
      (simp_all add: main_logging_def reloadAndApply_def look Let_def ctx_string_def logs_start_def)
qed

text \<open>A file that no longer mentions the statistics, applied while they are on.\<close>

theorem hot_reload_matches_restart_witness:
  "let f = render [(''LOG_LEVEL'', ''debug'')]; c = [(''LOG_LEVEL'', ''debug'')]; s = logs_start\<lparr>enabled := True\<rparr>
   in Load (Some f) [] = Some c
     \<and> (\<exists>t. main_logging True c logs_start = Some t
          \<and> cur_level (reloadAndApply (Some f) s) = cur_level t
          \<and> enabled (reloadAndApply (Some f) s) \<and> \<not> enabled t)"
proof -
  have "\<forall>e\<in>set [(''LOG_LEVEL'', ''debug'')]. entry_ok e"
    by (simp add: entry_ok_def trimmed_def lead_0_iff space_seqs_def)
  from Load_render [OF this] have l: "Load (Some (render [(''LOG_LEVEL'', ''debug'')])) [] =
      Some [(''LOG_LEVEL'', ''debug'')]"
    by simp
  show ?thesis
    using l hot_reload_matches_restart [OF l, of "logs_start\<lparr>enabled := True\<rparr>"]
    by (simp add: ctx_string_def ctx_Value_def)
qed

text \<open>C36: the watcher follows the file: over any sequence of reads that the kernel filled with whole
  inotify events it reloads exactly once for each read that reports the file closed after writing
  or replaced, re-arms the watch (after a pause of 50 ms, and before the reload) exactly for those
  that report a replacement, and does nothing otherwise; a failed read ends it. Failing to
  initialise only logs. On any buffer, even a malformed one, a step returns and never reads past
  the buffer, and what it does depends on the bytes that the read filled and on no others.\<close>

theorem Watch_reacts:
  assumes "\<forall>rd\<in>set rds. \<forall>ev\<in>set (fst rd). length (snd (snd (snd ev))) < 2 ^ 32"
  shows "Watch True fails (map kernel_read rds) w = Some (fold react rds (addWatch fails w))
    \<and> Watch True fails (map kernel_read rds @ WatchError # rs) w = Some (fold react rds (addWatch fails w))
    \<and> (\<exists>w'. Watch False fails rs w = Some w' \<and> armed w' = armed w \<and> cur_level (wlogs w') = cur_level (wlogs w))
    \<and> (if m \<le> length buf then watch_step buf m fails conf w \<noteq> None else True)
    \<and> (if m \<le> length buf \<and> m \<le> length buf' \<and> take m buf = take m buf'
       then watch_step buf m fails conf w = watch_step buf' m fails conf w else True)"
proof -
  have "watch_step buf m fails conf w \<noteq> None" if "m \<le> length buf"
    using inotify_loop_total [OF that, of 0] by (simp add: watch_step_def)
  moreover have "watch_step buf m fails conf w = watch_step buf' m fails conf w"
    if "m \<le> length buf \<and> m \<le> length buf' \<and> take m buf = take m buf'"
    using that inotify_loop_filled [of m buf buf' 0] by (simp add: watch_step_def)
  moreover have "Watch True fails (map kernel_read rds) w = Some (fold react rds (addWatch fails w))"
    "Watch True fails (map kernel_read rds @ WatchError # rs) w = Some (fold react rds (addWatch fails w))"
    using Watch_loop_reads [OF assms, of "[]"] Watch_loop_reads [OF assms, of "WatchError # rs"]
    by (simp_all add: Watch_def)
  moreover have "\<exists>w'. Watch False fails rs w = Some w' \<and> armed w' = armed w
      \<and> cur_level (wlogs w') = cur_level (wlogs w)"
    by (simp add: Watch_def)
  ultimately show ?thesis by (metis (no_types))
qed

theorem Watch_reacts_witness:
  "Watch True False [kernel_read ([(1, 0x8, 0, []), (1, 0x8000, 0, [0, 0])], [7], False, None),
       kernel_read ([(1, 0x20, 0, [])], [], False, None)]
     \<lparr>armed = 0, slept_ms = 0, wlogs = logs_start\<rparr> =
   Some \<lparr>armed = 2, slept_ms = 50, wlogs = reloadAndApply None logs_start\<rparr>"
  using conjunct1 [OF Watch_reacts [where fails = False
      and rds = "[([(1, 0x8, 0, []), (1, 0x8000, 0, [0, 0])], [7], False, None), ([(1, 0x20, 0, [])], [], False, None)]"
      and w = "\<lparr>armed = 0, slept_ms = 0, wlogs = logs_start\<rparr>"]]
  by (simp add: react_def event_mask_def IN_CLOSE_WRITE_def IN_IGNORED_def IN_MOVE_SELF_def
      IN_DELETE_SELF_def addWatch_def)

end
