(* ===== verification/Session.thy ===== *)
theory Session
  imports DataPlane Config
begin

text \<open>
  A whole session, function \<open>tunnel\<close> of \<open>main.go\<close> together with the goroutine of \<open>main\<close> that waits
  for its first error: one reader per connection, one dispatcher per TUN queue, the error channel
  and the counters they share. A run is a list of events in the order in which they happen, so
  every interleaving of the goroutines is a run.
\<close>

section \<open>State and events\<close>

definition reseq_enabled :: "ctx \<Rightarrow> bool" where
  "reseq_enabled ctx =
     (let v = ctx_string ctx ''FORWARD_RESEQ'' in if v \<noteq> '''' then parsed_bool v else False)"

record session =
  readers :: "inbound list"
  reading :: "bool list"
  dispatchers :: "outbound list"
  dispatching :: "bool list"
  eChan :: echan
  counts :: counters
  torn :: "tunnel_error option"
  connDone :: bool
  closedConns :: "nat list"
  closedDevs :: "nat list"

text \<open>
  An event is one iteration of a goroutine with what its read returned, the goroutine of \<open>main\<close>
  receiving an error, or the cancellation of the parent context.
\<close>

datatype session_event =
    InRead nat inbound_read
  | OutRead nat "string + bytes"
  | TakeError
  | ParentDone

definition tunnel_start :: "ctx \<Rightarrow> nat \<Rightarrow> 'c list \<Rightarrow> 'd list \<Rightarrow> counters \<Rightarrow> session" where
  "tunnel_start ctx numCPU conns devs c =
     (let cap = numCPU + length conns + 1 in
      \<lparr>readers = replicate (length conns) (inbound_start (reseq_enabled ctx) c cap),
       reading = replicate (length conns) True,
       dispatchers = replicate (length devs) (outbound_start cap),
       dispatching = replicate (length devs) True,
       eChan = \<lparr>echan_cap = cap, echan_buf = []\<rparr>, counts = c, torn = None, connDone = False,
       closedConns = [], closedDevs = []\<rparr>)"

text \<open>\<open>devs[id%len(devs)]\<close>; \<open>None\<close> is the panic of an empty slice.\<close>

definition reader_dev :: "'d list \<Rightarrow> nat \<Rightarrow> 'd option" where
  "reader_dev devs i = (if devs = [] then None else go_index devs (i mod length devs))"

section \<open>Steps\<close>

text \<open>
  The goroutine of \<open>main\<close> that waits for the first error: it cancels the session and closes every
  connection and every queue, which are named by their indices. It waits once.
\<close>

definition take_error :: "session \<Rightarrow> session option" where
  "take_error s =
     (case (torn s, echan_buf (eChan s)) of
        (None, cerr # es) \<Rightarrow>
          Some (s\<lparr>torn := Some cerr, eChan := (eChan s)\<lparr>echan_buf := es\<rparr>, connDone := True,
                  closedConns := [0..<length (readers s)], closedDevs := [0..<length (dispatchers s)]\<rparr>)
      | _ \<Rightarrow> None)"

text \<open>
  \<open>dev d i\<close> answers the writes of reader \<open>i\<close> to queue \<open>d\<close>, \<open>wp j\<close> and \<open>odev j\<close> the
  writes of dispatcher \<open>j\<close> to the connections and to its queue. \<open>None\<close>: the event cannot happen,
  because its goroutine has returned or there is no error to take, or it panics.
\<close>

fun session_step ::
  "('d \<Rightarrow> nat \<Rightarrow> nat \<Rightarrow> bytes \<Rightarrow> string option) \<Rightarrow> (nat \<Rightarrow> nat \<Rightarrow> nat \<Rightarrow> bytes \<Rightarrow> bytes \<times> string option)
    \<Rightarrow> (nat \<Rightarrow> nat \<Rightarrow> bytes \<Rightarrow> string option) \<Rightarrow> 'c list \<Rightarrow> 'd list \<Rightarrow> session_event \<Rightarrow> session \<Rightarrow> session option" where
  "session_step dev wp odev conns devs (InRead i r) s =
     (if i < length (readers s) \<and> reading s ! i then do {
        d \<leftarrow> reader_dev devs i;
        let t = inbound_loop (dev d i) i [r] ((readers s ! i)\<lparr>errs := eChan s, shared := counts s\<rparr>);
        Some (s\<lparr>readers := (readers s)[i := t], eChan := errs t, counts := shared t,
                reading := (reading s)[i := (case r of ReadFailed _ \<Rightarrow> False | GotPacket _ _ \<Rightarrow> True)]\<rparr>)
      } else None)"
| "session_step dev wp odev conns devs (OutRead j r) s =
     (if j < length (dispatchers s) \<and> dispatching s ! j then do {
        t \<leftarrow> outbound_loop (wp j) (odev j) conns j [r] ((dispatchers s ! j)\<lparr>oerrs := eChan s\<rparr>);
        Some (s\<lparr>dispatchers := (dispatchers s)[j := t], eChan := oerrs t,
                dispatching := (dispatching s)[j := (case r of Inl _ \<Rightarrow> False | Inr _ \<Rightarrow> True)]\<rparr>)
      } else None)"
| "session_step dev wp odev conns devs TakeError s = take_error s"
| "session_step dev wp odev conns devs ParentDone s = Some (s\<lparr>connDone := True\<rparr>)"

fun session_run ::
  "('d \<Rightarrow> nat \<Rightarrow> nat \<Rightarrow> bytes \<Rightarrow> string option) \<Rightarrow> (nat \<Rightarrow> nat \<Rightarrow> nat \<Rightarrow> bytes \<Rightarrow> bytes \<times> string option)
    \<Rightarrow> (nat \<Rightarrow> nat \<Rightarrow> bytes \<Rightarrow> string option) \<Rightarrow> 'c list \<Rightarrow> 'd list \<Rightarrow> session_event list \<Rightarrow> session \<Rightarrow> session option" where
  "session_run dev wp odev conns devs [] s = Some s"
| "session_run dev wp odev conns devs (ev # evs) s =
     Option.bind (session_step dev wp odev conns devs ev s) (session_run dev wp odev conns devs evs)"

text \<open>What one goroutine reads in a run, and the errors of a run in the order they are reported.\<close>

fun in_reads :: "nat \<Rightarrow> session_event list \<Rightarrow> inbound_read list" where
  "in_reads i [] = []"
| "in_reads i (InRead k r # evs) = (if k = i then r # in_reads i evs else in_reads i evs)"
| "in_reads i (ev # evs) = in_reads i evs"

fun out_reads :: "nat \<Rightarrow> session_event list \<Rightarrow> (string + bytes) list" where
  "out_reads j [] = []"
| "out_reads j (OutRead k r # evs) = (if k = j then r # out_reads j evs else out_reads j evs)"
| "out_reads j (ev # evs) = out_reads j evs"

fun step_errors ::
  "('d \<Rightarrow> nat \<Rightarrow> nat \<Rightarrow> bytes \<Rightarrow> string option) \<Rightarrow> (nat \<Rightarrow> nat \<Rightarrow> nat \<Rightarrow> bytes \<Rightarrow> bytes \<times> string option)
    \<Rightarrow> (nat \<Rightarrow> nat \<Rightarrow> bytes \<Rightarrow> string option) \<Rightarrow> 'c list \<Rightarrow> 'd list \<Rightarrow> session_event \<Rightarrow> session \<Rightarrow> tunnel_error list" where
  "step_errors dev wp odev conns devs (InRead i r) s =
     write_errors (dev (devs ! (i mod length devs)) i) i (length (written (readers s ! i)))
       (stage_out (got [r]) (reseq_of (readers s ! i))) @ read_error i [r]"
| "step_errors dev wp odev conns devs (OutRead j r) s =
     outbound_errors (wp j) (odev j) (length conns) j r (dispatchers s ! j)"
| "step_errors dev wp odev conns devs ev s = []"

fun session_errors ::
  "('d \<Rightarrow> nat \<Rightarrow> nat \<Rightarrow> bytes \<Rightarrow> string option) \<Rightarrow> (nat \<Rightarrow> nat \<Rightarrow> nat \<Rightarrow> bytes \<Rightarrow> bytes \<times> string option)
    \<Rightarrow> (nat \<Rightarrow> nat \<Rightarrow> bytes \<Rightarrow> string option) \<Rightarrow> 'c list \<Rightarrow> 'd list \<Rightarrow> session_event list \<Rightarrow> session \<Rightarrow> tunnel_error list" where
  "session_errors dev wp odev conns devs [] s = []"
| "session_errors dev wp odev conns devs (ev # evs) s =
     step_errors dev wp odev conns devs ev s
     @ (case session_step dev wp odev conns devs ev s of
          None \<Rightarrow> [] | Some s' \<Rightarrow> session_errors dev wp odev conns devs evs s')"

section \<open>Lemmas\<close>

definition shaped :: "nat \<Rightarrow> nat \<Rightarrow> session \<Rightarrow> bool" where
  "shaped n k s \<longleftrightarrow> length (readers s) = n \<and> length (reading s) = n
     \<and> length (dispatchers s) = k \<and> length (dispatching s) = k"

text \<open>Inversion of a step, one rule per kind of event.\<close>

lemma InRead_SomeE:
  assumes "session_step dev wp odev conns devs (InRead i r) s = Some s'"
  obtains t where "i < length (readers s)" "reading s ! i" "devs \<noteq> []"
    "t = inbound_loop (dev (devs ! (i mod length devs)) i) i [r]
           ((readers s ! i)\<lparr>errs := eChan s, shared := counts s\<rparr>)"
    "s' = s\<lparr>readers := (readers s)[i := t], eChan := errs t, counts := shared t,
            reading := (reading s)[i := (case r of ReadFailed _ \<Rightarrow> False | GotPacket _ _ \<Rightarrow> True)]\<rparr>"
  using assms by (auto simp: reader_dev_def Let_def split: if_splits)

lemma OutRead_SomeE:
  assumes "session_step dev wp odev conns devs (OutRead j r) s = Some s'"
  obtains t where "j < length (dispatchers s)" "dispatching s ! j"
    "outbound_loop (wp j) (odev j) conns j [r] ((dispatchers s ! j)\<lparr>oerrs := eChan s\<rparr>) = Some t"
    "s' = s\<lparr>dispatchers := (dispatchers s)[j := t], eChan := oerrs t,
            dispatching := (dispatching s)[j := (case r of Inl _ \<Rightarrow> False | Inr _ \<Rightarrow> True)]\<rparr>"
  using assms by (auto split: if_splits bind_splits simp del: outbound_loop.simps)

lemma TakeError_SomeE:
  assumes "session_step dev wp odev conns devs TakeError s = Some s'"
  obtains e es where "torn s = None" "echan_buf (eChan s) = e # es"
    "s' = s\<lparr>torn := Some e, eChan := (eChan s)\<lparr>echan_buf := es\<rparr>, connDone := True,
            closedConns := [0..<length (readers s)], closedDevs := [0..<length (dispatchers s)]\<rparr>"
  using assms by (auto simp: take_error_def split: option.splits list.splits)

lemmas session_SomeEs = InRead_SomeE OutRead_SomeE TakeError_SomeE

declare session_step.simps(1-3) [simp del]

lemma session_step_shaped:
  assumes "session_step dev wp odev conns devs ev s = Some s'" and "shaped n k s"
  shows "shaped n k s'"
  using assms by (cases ev) (auto elim!: session_SomeEs simp: shaped_def)

lemma session_run_shaped:
  "session_run dev wp odev conns devs evs s = Some s' \<Longrightarrow> shaped n k s \<Longrightarrow> shaped n k s'"
  by (induction evs arbitrary: s) (auto split: bind_splits intro: session_step_shaped)

lemma reads_step:
  "in_reads i (ev # evs) = in_reads i [ev] @ in_reads i evs"
  "out_reads j (ev # evs) = out_reads j [ev] @ out_reads j evs"
  by (cases ev; simp)+

subsection \<open>A reader in a run\<close>

definition reseq_after :: "reseq_event list \<Rightarrow> ForwardReseq option \<Rightarrow> ForwardReseq option" where
  "reseq_after es r = fold (\<lambda>e. map_option (\<lambda>q. fst (reseq_step e q))) es r"

lemma stage_out_append: "stage_out (xs @ ys) r = stage_out xs r @ stage_out ys (reseq_after xs r)"
proof (induction xs arbitrary: r)
  case (Cons x xs)
  have "stage_out (x # xs @ ys) r = stage_out [x] r @ stage_out (xs @ ys) (reseq_after [x] r)"
    by (subst stage_out_Cons) (simp add: reseq_after_def)
  also have "\<dots> = (stage_out [x] r @ stage_out xs (reseq_after [x] r)) @ stage_out ys (reseq_after (x # xs) r)"
    by (simp add: Cons.IH) (simp add: reseq_after_def)
  also have "stage_out [x] r @ stage_out xs (reseq_after [x] r) = stage_out (x # xs) r"
    using stage_out_Cons [of x xs r] by (simp add: reseq_after_def)
  finally show ?case by simp
qed (simp add: reseq_after_def)

lemma reader_iter:
  "written (inbound_loop dv i [r] s) = written s @ stage_out (got [r]) (reseq_of s)"
  "reseq_of (inbound_loop dv i [r] s) = reseq_after (got [r]) (reseq_of s)"
proof -
  show "reseq_of (inbound_loop dv i [r] s) = reseq_after (got [r]) (reseq_of s)"
  proof (cases r)
    case (GotPacket on e)
    then show ?thesis using reader_reseq [of dv i on e s] by (simp add: reseq_after_def)
  qed (simp add: reseq_after_def)
qed (rule inbound_written)

lemma reader_step:
  assumes "session_step dev wp odev conns devs ev s = Some s'" and "i < length (readers s)"
  shows "written (readers s' ! i) = written (readers s ! i) @ stage_out (got (in_reads i [ev])) (reseq_of (readers s ! i))"
    and "reseq_of (readers s' ! i) = reseq_after (got (in_reads i [ev])) (reseq_of (readers s ! i))"
proof -
  have "written (readers s' ! i) = written (readers s ! i) @ stage_out (got (in_reads i [ev])) (reseq_of (readers s ! i))
    \<and> reseq_of (readers s' ! i) = reseq_after (got (in_reads i [ev])) (reseq_of (readers s ! i))"
  proof (cases ev)
    case (InRead k r)
    from assms(1) [unfolded InRead] show ?thesis
      by (rule InRead_SomeE) (use InRead assms(2) in \<open>auto simp: reader_iter reseq_after_def
          simp del: inbound_loop.simps got.simps(2,3)\<close>)
  next
    case (OutRead j r)
    from assms(1) [unfolded OutRead] show ?thesis
      by (rule OutRead_SomeE) (simp add: OutRead reseq_after_def)
  next
    case TakeError
    from assms(1) [unfolded TakeError] show ?thesis
      by (rule TakeError_SomeE) (simp add: TakeError reseq_after_def)
  next
    case ParentDone
    with assms(1) show ?thesis by (auto simp: reseq_after_def)
  qed
  then show "written (readers s' ! i) = written (readers s ! i) @ stage_out (got (in_reads i [ev])) (reseq_of (readers s ! i))"
    and "reseq_of (readers s' ! i) = reseq_after (got (in_reads i [ev])) (reseq_of (readers s ! i))"
    by simp_all
qed

lemma reader_stopped:
  assumes "session_run dev wp odev conns devs evs s = Some s'" and "shaped n k s" and "i < n" and "\<not> reading s ! i"
  shows "in_reads i evs = []"
  using assms
proof (induction evs arbitrary: s)
  case (Cons ev evs)
  then obtain s1 where s1: "session_step dev wp odev conns devs ev s = Some s1"
    "session_run dev wp odev conns devs evs s1 = Some s'"
    by (auto split: bind_splits)
  then have "in_reads i [ev] = [] \<and> \<not> reading s1 ! i"
    using Cons.prems by (cases ev) (auto elim!: session_SomeEs simp: nth_list_update shaped_def)
  with Cons.IH [OF s1(2) session_step_shaped [OF s1(1) Cons.prems(2)] Cons.prems(3)] show ?case
    by (simp add: reads_step(1) [of i ev evs])
qed simp

lemma got_reads:
  assumes "session_step dev wp odev conns devs ev s = Some s1" and "session_run dev wp odev conns devs evs s1 = Some s'"
    and "shaped n k s" and "i < n"
  shows "got (in_reads i (ev # evs)) = got (in_reads i [ev]) @ got (in_reads i evs)"
proof (cases "\<exists>msg. ev = InRead i (ReadFailed msg)")
  case True
  then have "\<not> reading s1 ! i" using assms(1,3,4) by (auto elim!: InRead_SomeE simp: shaped_def)
  from reader_stopped [OF assms(2) session_step_shaped [OF assms(1,3)] assms(4) this] True
  show ?thesis by auto
next
  case False
  show ?thesis
  proof (cases ev)
    case (InRead k r)
    with False show ?thesis by (cases r) auto
  qed simp_all
qed

lemma reader_run:
  assumes "session_run dev wp odev conns devs evs s = Some s'" and "shaped n k s" and "i < n"
  shows "written (readers s' ! i) = written (readers s ! i) @ stage_out (got (in_reads i evs)) (reseq_of (readers s ! i))"
  using assms
proof (induction evs arbitrary: s)
  case (Cons ev evs)
  then obtain s1 where s1: "session_step dev wp odev conns devs ev s = Some s1"
    "session_run dev wp odev conns devs evs s1 = Some s'"
    by (auto split: bind_splits)
  have "i < length (readers s)" using Cons.prems by (simp add: shaped_def)
  note step = reader_step [OF s1(1) this]
  from Cons.IH [OF s1(2) session_step_shaped [OF s1(1) Cons.prems(2)] Cons.prems(3)] show ?case
    by (simp add: step got_reads [OF s1 Cons.prems(2,3)] stage_out_append)
qed simp

subsection \<open>A dispatcher in a run\<close>

lemma dispatcher_step:
  assumes "1 \<le> length conns" and "length conns \<le> 16"
    and "session_step dev wp odev conns devs ev s = Some s'" and "j < length (dispatchers s)"
  defines "ps \<equiv> map (dispatch (length conns)) (got_tun (out_reads j [ev]))"
  shows "sent (dispatchers s' ! j) = sent (dispatchers s ! j) @ ps
    \<and> icmps (dispatchers s' ! j) = icmps (dispatchers s ! j) @ icmp_replies (wp j) (length (sent (dispatchers s ! j))) ps"
proof (cases ev)
  case (OutRead i r)
  from assms(3) [unfolded OutRead] obtain t where t:
    "outbound_loop (wp i) (odev i) conns i [r] ((dispatchers s ! i)\<lparr>oerrs := eChan s\<rparr>) = Some t"
    "dispatchers s' = (dispatchers s)[i := t]"
    by (rule OutRead_SomeE) simp
  show ?thesis
  proof (cases "i = j")
    case True
    then show ?thesis
      using t assms(4) outbound_loop_Some [OF assms(1,2), of "wp i" "odev i" i "[r]" "(dispatchers s ! i)\<lparr>oerrs := eChan s\<rparr>"]
      by (auto simp: OutRead ps_def simp del: outbound_loop.simps got_tun.simps(2,3))
  qed (simp add: OutRead t(2) ps_def)
next
  case (InRead i r)
  from assms(3) [unfolded InRead] show ?thesis by (rule InRead_SomeE) (simp add: InRead ps_def)
next
  case TakeError
  from assms(3) [unfolded TakeError] show ?thesis by (rule TakeError_SomeE) (simp add: TakeError ps_def)
next
  case ParentDone
  with assms(3) show ?thesis by (auto simp: ps_def)
qed

lemma dispatcher_stopped:
  assumes "session_run dev wp odev conns devs evs s = Some s'" and "shaped n k s" and "j < k" and "\<not> dispatching s ! j"
  shows "out_reads j evs = []"
  using assms
proof (induction evs arbitrary: s)
  case (Cons ev evs)
  then obtain s1 where s1: "session_step dev wp odev conns devs ev s = Some s1"
    "session_run dev wp odev conns devs evs s1 = Some s'"
    by (auto split: bind_splits)
  then have "out_reads j [ev] = [] \<and> \<not> dispatching s1 ! j"
    using Cons.prems by (cases ev) (auto elim!: session_SomeEs simp: nth_list_update shaped_def)
  with Cons.IH [OF s1(2) session_step_shaped [OF s1(1) Cons.prems(2)] Cons.prems(3)] show ?case
    by (simp add: reads_step(2) [of j ev evs])
qed simp

lemma got_tun_reads:
  assumes "session_step dev wp odev conns devs ev s = Some s1" and "session_run dev wp odev conns devs evs s1 = Some s'"
    and "shaped n k s" and "j < k"
  shows "got_tun (out_reads j (ev # evs)) = got_tun (out_reads j [ev]) @ got_tun (out_reads j evs)"
proof (cases "\<exists>msg. ev = OutRead j (Inl msg)")
  case True
  then have "\<not> dispatching s1 ! j" using assms(1,3,4) by (auto elim!: OutRead_SomeE simp: shaped_def)
  from dispatcher_stopped [OF assms(2) session_step_shaped [OF assms(1,3)] assms(4) this] True
  show ?thesis by auto
next
  case False
  show ?thesis
  proof (cases ev)
    case (OutRead i r)
    with False show ?thesis by (cases r) auto
  qed simp_all
qed

lemma dispatcher_run:
  assumes "1 \<le> length conns" and "length conns \<le> 16"
    and "session_run dev wp odev conns devs evs s = Some s'" and "shaped n k s" and "j < k"
  defines "ps \<equiv> map (dispatch (length conns)) (got_tun (out_reads j evs))"
  shows "sent (dispatchers s' ! j) = sent (dispatchers s ! j) @ ps
    \<and> icmps (dispatchers s' ! j) = icmps (dispatchers s ! j) @ icmp_replies (wp j) (length (sent (dispatchers s ! j))) ps"
  using assms(3,4) unfolding ps_def
proof (induction evs arbitrary: s)
  case (Cons ev evs)
  then obtain s1 where s1: "session_step dev wp odev conns devs ev s = Some s1"
    "session_run dev wp odev conns devs evs s1 = Some s'"
    by (auto split: bind_splits)
  have "j < length (dispatchers s)" using Cons.prems assms(5) by (simp add: shaped_def)
  note step = dispatcher_step [OF assms(1,2) s1(1) this]
  from Cons.IH [OF s1(2) session_step_shaped [OF s1(1) Cons.prems(2)]] step show ?case
    by (simp add: got_tun_reads [OF s1 Cons.prems(2) assms(5)] icmp_replies_append)
qed simp

subsection \<open>The error channel in a run\<close>

text \<open>The channel holds the first errors of the run; once one is taken, it is the first of all.\<close>

definition chan_ok :: "nat \<Rightarrow> tunnel_error list \<Rightarrow> session \<Rightarrow> bool" where
  "chan_ok cap es s \<longleftrightarrow> echan_cap (eChan s) = cap \<and> length (echan_buf (eChan s)) \<le> cap
     \<and> (case torn s of None \<Rightarrow> echan_buf (eChan s) = take cap es
        | Some e \<Rightarrow> (\<exists>es'. es = e # es') \<and> connDone s)"

lemma outbound_errors_oerrs [simp]:
  "outbound_errors w d n j r (s\<lparr>oerrs := ch\<rparr>) = outbound_errors w d n j r s"
  by (cases r) (simp_all add: Let_def case_prod_beta)

lemma chan_ok_report:
  assumes "chan_ok cap es s" and "eChan s' = fold report es' (eChan s)" and "torn s' = torn s"
    and "connDone s \<longrightarrow> connDone s'"
  shows "chan_ok cap (es @ es') s'"
  using assms by (cases "length es \<le> cap") (auto simp: chan_ok_def fold_report split: option.split)

lemma chan_ok_step:
  assumes "1 \<le> length conns" and "length conns \<le> 16" and "0 < cap"
    and "session_step dev wp odev conns devs ev s = Some s'" and "chan_ok cap es s"
  shows "chan_ok cap (es @ step_errors dev wp odev conns devs ev s) s'"
proof (cases ev)
  case (InRead i r)
  from assms(4) [unfolded InRead] show ?thesis
    by (rule InRead_SomeE) (rule chan_ok_report [OF assms(5)], simp_all add: InRead inbound_errors
        del: inbound_loop.simps got.simps(2,3) read_error.simps(2,3))
next
  case (OutRead j r)
  from assms(4) [unfolded OutRead] show ?thesis
  proof (rule OutRead_SomeE)
    fix t
    assume "outbound_loop (wp j) (odev j) conns j [r] ((dispatchers s ! j)\<lparr>oerrs := eChan s\<rparr>) = Some t"
    note outbound_loop_errors [OF assms(1,2) this]
    moreover assume "s' = s\<lparr>dispatchers := (dispatchers s)[j := t], eChan := oerrs t,
            dispatching := (dispatching s)[j := (case r of Inl _ \<Rightarrow> False | Inr _ \<Rightarrow> True)]\<rparr>"
    ultimately show ?thesis by (intro chan_ok_report [OF assms(5)]) (simp_all add: OutRead)
  qed
next
  case TakeError
  from assms(4) [unfolded TakeError] show ?thesis
    by (rule TakeError_SomeE)
      (use assms(3,5) in \<open>cases es; auto simp: TakeError chan_ok_def take_Cons'\<close>)
next
  case ParentDone
  with assms(4,5) show ?thesis by (auto simp: chan_ok_def split: option.split)
qed

lemma chan_ok_run:
  assumes "1 \<le> length conns" and "length conns \<le> 16" and "0 < cap"
    and "session_run dev wp odev conns devs evs s = Some s'" and "chan_ok cap es s"
  shows "chan_ok cap (es @ session_errors dev wp odev conns devs evs s) s'"
  using assms(4,5)
proof (induction evs arbitrary: s es)
  case (Cons ev evs)
  then obtain s1 where s1: "session_step dev wp odev conns devs ev s = Some s1"
    "session_run dev wp odev conns devs evs s1 = Some s'"
    by (auto split: bind_splits)
  from Cons.IH [OF s1(2) chan_ok_step [OF assms(1-3) s1(1) Cons.prems(2)]] s1(1) show ?case by simp
qed simp

text \<open>Only taking an error or the parent's cancellation ends a session.\<close>

lemma connDone_run:
  assumes "session_run dev wp odev conns devs evs s = Some s'" and "torn s' = None"
  shows "torn s = None \<and> connDone s' = (connDone s \<or> ParentDone \<in> set evs)"
  using assms
proof (induction evs arbitrary: s)
  case (Cons ev evs)
  then obtain s1 where s1: "session_step dev wp odev conns devs ev s = Some s1"
    "session_run dev wp odev conns devs evs s1 = Some s'"
    by (auto split: bind_splits)
  then have "torn s1 = None \<and> connDone s' = (connDone s1 \<or> ParentDone \<in> set evs)"
    using Cons by blast
  then show ?case using s1(1) by (cases ev) (auto elim!: session_SomeEs)
qed simp

text \<open>Taking the error closes all connections and queues, and nothing else closes any.\<close>

definition closed_ok :: "nat \<Rightarrow> nat \<Rightarrow> session \<Rightarrow> bool" where
  "closed_ok n k s \<longleftrightarrow> closedConns s = (if torn s = None then [] else [0..<n])
     \<and> closedDevs s = (if torn s = None then [] else [0..<k])"

lemma closed_ok_run:
  assumes "session_run dev wp odev conns devs evs s = Some s'" and "shaped n k s" and "closed_ok n k s"
  shows "closed_ok n k s'"
  using assms
proof (induction evs arbitrary: s)
  case (Cons ev evs)
  then obtain s1 where s1: "session_step dev wp odev conns devs ev s = Some s1"
    "session_run dev wp odev conns devs evs s1 = Some s'"
    by (auto split: bind_splits)
  have "closed_ok n k s1"
    using s1(1) Cons.prems(2,3) by (cases ev) (auto elim!: session_SomeEs simp: closed_ok_def shaped_def)
  from Cons.IH [OF s1(2) session_step_shaped [OF s1(1) Cons.prems(2)] this] show ?case .
qed simp

subsection \<open>The start of a session\<close>

lemma tunnel_start_shaped: "shaped (length conns) (length devs) (tunnel_start ctx cpus conns devs c)"
  by (simp add: shaped_def tunnel_start_def Let_def)

lemma tunnel_start_chan:
  "chan_ok (cpus + length conns + 1) [] (tunnel_start ctx cpus conns devs c)"
  by (simp add: chan_ok_def tunnel_start_def Let_def)

lemma tunnel_start_reader:
  assumes "i < length conns"
  shows "written (readers (tunnel_start ctx cpus conns devs c) ! i) = []"
    and "reseq_of (readers (tunnel_start ctx cpus conns devs c) ! i) =
      (if reseq_enabled ctx then Some (NewForwardReseq 128 (5 * Millisecond)) else None)"
  using assms by (simp_all add: tunnel_start_def inbound_start_def Let_def)

lemma tunnel_start_dispatcher:
  assumes "j < length devs"
  shows "sent (dispatchers (tunnel_start ctx cpus conns devs c) ! j) = []"
    and "icmps (dispatchers (tunnel_start ctx cpus conns devs c) ! j) = []"
  using assms by (simp_all add: tunnel_start_def outbound_start_def Let_def)

section \<open>Properties\<close>

text \<open>C18: in every interleaving of the goroutines of a session, what the reader of a connection writes
  to its TUN queue is exactly what its ordering stage emits for the packets this reader received
  before its read failed: the packets themselves, in order, when \<open>FORWARD_RESEQ\<close> is off, and the
  output of the resequencer's run otherwise. Neither the other goroutines nor the statistics
  switch nor failing writes have any influence; no packet is made up or written twice, and without
  resequencing none is lost. A goroutine that still runs never panics.\<close>

theorem session_readers_independent:
  assumes "1 \<le> length conns" and "length conns \<le> 16" and "devs \<noteq> []"
    and "session_run dev wp odev conns devs evs (tunnel_start ctx cpus conns devs c) = Some s"
    and "i < length conns"
  defines "pkts \<equiv> map fst (got (in_reads i evs))"
  shows "written (readers s ! i) =
       (if reseq_enabled ctx
        then snd (run_stage reseq_step (got (in_reads i evs)) (NewForwardReseq 128 (5 * Millisecond)))
        else pkts)
    \<and> mset (written (readers s ! i)) \<subseteq># mset pkts
    \<and> (reading s ! i \<longrightarrow> session_step dev wp odev conns devs (InRead i r) s \<noteq> None)"
proof -
  define q where "q = (if reseq_enabled ctx then Some (NewForwardReseq 128 (5 * Millisecond)) else None)"
  have w: "written (readers s ! i) = stage_out (got (in_reads i evs)) q"
    using reader_run [OF assms(4) tunnel_start_shaped assms(5)]
    by (simp add: tunnel_start_reader [OF assms(5)] q_def)
  have "mset (stage_out (got (in_reads i evs)) q) \<subseteq># mset pkts"
    unfolding pkts_def by (rule stage_out_new [OF q_def]) (simp add: Millisecond_def max_duration_def)
  moreover have "stage_out (got (in_reads i evs)) q = (if reseq_enabled ctx
      then snd (run_stage reseq_step (got (in_reads i evs)) (NewForwardReseq 128 (5 * Millisecond))) else pkts)"
    by (simp add: q_def stage_out_def run_pass pkts_def)
  moreover have "session_step dev wp odev conns devs (InRead i r) s \<noteq> None" if "reading s ! i"
    using that session_run_shaped [OF assms(4) tunnel_start_shaped] assms(3,5)
    by (simp add: session_step.simps(1) reader_dev_def shaped_def Let_def)
  ultimately show ?thesis by (simp add: w)
qed

text \<open>The events of a short run with one connection and one queue, in which the read fails.\<close>

definition demo_events :: "session_event list" where
  "demo_events = [InRead 0 (GotPacket False ([1], 0, [])), OutRead 0 (Inr [2]), OutRead 0 (Inr [3]),
     InRead 0 (ReadFailed ''eof''), TakeError]"

abbreviation demo_session :: "session \<Rightarrow> bool" where
  "demo_session s \<equiv> session_run (\<lambda>d i n p. None) (\<lambda>j i k p. ([], None)) (\<lambda>j n p. None) [()] [()] demo_events
     (tunnel_start [] 1 [()] [()] \<lparr>PreReseqTotal = 0, PreReseqOOO = 0, PreSendTotal = 0, PreSendGenuine = 0, PreSendRetr = 0\<rparr>) = Some s"

lemma demo_session_runs: "\<exists>s. demo_session s"
  by (simp add: demo_events_def session_step.simps take_error_def tunnel_start_def Let_def reader_dev_def inbound_start_def
      reseq_enabled_def ctx_string_def ctx_Value_def inbound_observe_def inbound_order_def dev_Write_def
      outbound_start_def outbound_step_def tunnel_index_Some report_def)

theorem session_readers_independent_witness:
  "\<exists>s. demo_session s \<and> written (readers s ! 0) = [[1]]"
proof -
  obtain s where s: "demo_session s" using demo_session_runs by blast
  have "\<not> reseq_enabled []" by (simp add: reseq_enabled_def ctx_string_def ctx_Value_def)
  with session_readers_independent [OF _ _ _ s, of 0 "ReadFailed []"] s show ?thesis
    by (intro exI [of _ s]) (simp add: demo_events_def)
qed

text \<open>C20: in every interleaving, a dispatcher hands every packet it reads before its read fails to
  exactly one connection, the one its flow hash selects, whatever the connections, the device
  and the other goroutines do. So the packets a connection gets from a queue are those of the
  flows pinned to it, in the order they were read; every non-empty ICMP reply is written back, in
  order; and with 1 to 16 connections a dispatcher that still runs never panics.\<close>

theorem session_dispatchers_pin_flows:
  assumes "1 \<le> length conns" and "length conns \<le> 16"
    and "session_run dev wp odev conns devs evs (tunnel_start ctx cpus conns devs c) = Some s"
    and "j < length devs"
  defines "pkts \<equiv> got_tun (out_reads j evs)" and "out \<equiv> sent (dispatchers s ! j)"
  shows "map snd out = pkts
    \<and> (\<forall>k. map snd (filter (\<lambda>x. fst x = k) out) = filter (\<lambda>p. tunnel_index p (length conns) = Some k) pkts)
    \<and> icmps (dispatchers s ! j) = icmp_replies (wp j) 0 out
    \<and> (dispatching s ! j \<longrightarrow> session_step dev wp odev conns devs (OutRead j r) s \<noteq> None)"
proof -
  have out: "out = map (dispatch (length conns)) pkts" "icmps (dispatchers s ! j) = icmp_replies (wp j) 0 out"
    using dispatcher_run [OF assms(1,2,3) tunnel_start_shaped assms(4)]
    by (simp_all add: tunnel_start_dispatcher [OF assms(4)] pkts_def out_def)
  have "map snd (filter (\<lambda>x. fst x = k) out) = filter (\<lambda>p. tunnel_index p (length conns) = Some k) pkts" for k
    by (simp add: out(1) dispatch_index [OF assms(1,2)] filter_map comp_def map_idI dispatch_def)
  moreover have "session_step dev wp odev conns devs (OutRead j r) s \<noteq> None" if "dispatching s ! j"
    using that session_run_shaped [OF assms(3) tunnel_start_shaped] assms(4)
      outbound_loop_Some [OF assms(1,2), of "wp j" "odev j" j "[r]" "(dispatchers s ! j)\<lparr>oerrs := eChan s\<rparr>"]
    by (auto simp: session_step.simps(2) shaped_def simp del: outbound_loop.simps)
  ultimately show ?thesis using out by (simp add: dispatch_def map_idI)
qed

theorem session_dispatchers_pin_flows_witness:
  "\<exists>s. demo_session s \<and> map snd (sent (dispatchers s ! 0)) = [[2], [3]]"
proof -
  obtain s where s: "demo_session s" using demo_session_runs by blast
  with session_dispatchers_pin_flows [OF _ _ s, of 0 "Inl []"] show ?thesis
    by (intro exI [of _ s]) (simp add: demo_events_def)
qed

text \<open>C19: the first error of a session, of any goroutine, is the one that tears it down: sends to the
  error channel never block and the channel keeps the errors in the order they were reported, up
  to its capacity; as soon as there is an error, the waiting goroutine can take it, and what it takes
  is the first error of the run, cancels the session and closes every connection and every queue;
  nothing but the parent's cancellation ends the session otherwise, and nothing else closes a
  connection or a queue.\<close>

theorem session_first_error_tears_down:
  assumes "1 \<le> length conns" and "length conns \<le> 16"
    and "session_run dev wp odev conns devs evs (tunnel_start ctx cpus conns devs c) = Some s"
  defines "es \<equiv> session_errors dev wp odev conns devs evs (tunnel_start ctx cpus conns devs c)"
  shows "(case torn s of
      Some e \<Rightarrow> connDone s \<and> es \<noteq> [] \<and> hd es = e
        \<and> closedConns s = [0..<length conns] \<and> closedDevs s = [0..<length devs]
    | None \<Rightarrow> closedConns s = [] \<and> closedDevs s = [] \<and> echan_buf (eChan s) = take (cpus + length conns + 1) es
        \<and> connDone s = (ParentDone \<in> set evs)
        \<and> (if es = [] then session_step dev wp odev conns devs TakeError s = None
           else \<exists>s'. session_step dev wp odev conns devs TakeError s = Some s' \<and> torn s' = Some (hd es)
             \<and> connDone s' \<and> closedConns s' = [0..<length conns] \<and> closedDevs s' = [0..<length devs]))"
proof -
  have ok: "chan_ok (cpus + length conns + 1) es s"
    using chan_ok_run [OF assms(1,2) _ assms(3) tunnel_start_chan] by (simp add: es_def)
  have "connDone s = (ParentDone \<in> set evs)" if "torn s = None"
    using connDone_run [OF assms(3) that] by (simp add: tunnel_start_def Let_def)
  moreover have "closed_ok (length conns) (length devs) s"
    using closed_ok_run [OF assms(3) tunnel_start_shaped]
    by (simp add: closed_ok_def tunnel_start_def Let_def)
  moreover have "shaped (length conns) (length devs) s"
    by (rule session_run_shaped [OF assms(3) tunnel_start_shaped])
  ultimately show ?thesis
    using ok by (cases "torn s"; cases es)
      (auto simp: chan_ok_def closed_ok_def shaped_def session_step.simps(3) take_error_def)
qed

theorem session_first_error_tears_down_witness:
  "\<exists>s. demo_session s \<and> torn s = Some (FatalReadMASQUE 0 ''eof'') \<and> connDone s
     \<and> closedConns s = [0] \<and> closedDevs s = [0]"
proof -
  obtain s where s: "demo_session s" using demo_session_runs by blast
  moreover have "torn s = Some (FatalReadMASQUE 0 ''eof'')"
    using s by (auto simp: demo_events_def session_step.simps take_error_def tunnel_start_def Let_def reader_dev_def
      inbound_start_def reseq_enabled_def ctx_string_def ctx_Value_def inbound_observe_def inbound_order_def
      dev_Write_def outbound_start_def outbound_step_def tunnel_index_Some report_def)
  ultimately show ?thesis
    using session_first_error_tears_down [OF _ _ s] by (intro exI [of _ s]) simp
qed

end
