(* ===== verification/Host.thy ===== *)
theory Host
  imports Config
begin

text \<open>
  What the client does to the host: TCP congestion control and socket-buffer limits, and the
  policy-routing rules (\<open>main.go\<close>, lines 44 to 257). The operating system is a parameter: an
  \<open>os\<close> says how a command, a file read and a file write act on a host state of any type. What
  the theorems need of it is stated as a hypothesis: \<open>sysctl_fs\<close> (how \<open>/proc/sys\<close> files read
  back) and \<open>ip_spec\<close> (what the \<open>ip\<close> commands do to rules and routes). Log lines below the fatal
  level are left out; \<open>logger.Fatal\<close> ends the process.
\<close>

section \<open>The operating system\<close>

record 'h os =
  os_run :: "string list \<Rightarrow> 'h \<Rightarrow> 'h \<times> bool"
  os_read :: "string \<Rightarrow> 'h \<Rightarrow> string option"
  os_write :: "string \<Rightarrow> string \<Rightarrow> 'h \<Rightarrow> 'h \<times> bool"

datatype 'h proc = Running 'h | Exited 'h | Panicked 'h

section \<open>Host tuning\<close>

definition containsField :: "string \<Rightarrow> string \<Rightarrow> bool" where
  "containsField s tok = list_ex (\<lambda>f. f = tok) (Fields s)"

definition enforceBBR :: "'h os \<Rightarrow> ctx \<Rightarrow> 'h \<Rightarrow> 'h" where
  "enforceBBR os ctx h =
     (let v = ctx_string ctx ''TCP_CC'' in
      if v \<noteq> '''' \<and> (EqualFold v ''off'' \<or> EqualFold v ''none'') then h
      else
        let cc = (if v \<noteq> '''' then ToLower v else ''bbr'');
            h1 = fst (os_run os [''/sbin/modprobe'', ''tcp_'' @ cc] h)
        in case os_read os ''/proc/sys/net/ipv4/tcp_available_congestion_control'' h1 of
             None \<Rightarrow> h1
           | Some avail \<Rightarrow>
               if \<not> containsField avail cc then h1
               else fst (os_write os ''/proc/sys/net/ipv4/tcp_congestion_control'' cc h1))"

definition udpBufTarget :: int where
  "udpBufTarget = 7864320"

definition sysctl_path :: "string \<Rightarrow> string" where
  "sysctl_path key = ''/proc/sys/'' @ ReplaceAll key (CHR ''.'') (CHR ''/'')"

definition raiseSysctl :: "'h os \<Rightarrow> string \<Rightarrow> int \<Rightarrow> 'h \<Rightarrow> 'h" where
  "raiseSysctl os key target h =
     (let path = sysctl_path key;
          cur = (case os_read os path h of None \<Rightarrow> 0 | Some b \<Rightarrow> fst (Atoi (TrimSpace b)))
      in if target \<le> cur then h else fst (os_write os path (Itoa target) h))"

definition tuneUDPBuffers :: "'h os \<Rightarrow> 'h \<Rightarrow> 'h" where
  "tuneUDPBuffers os h =
     raiseSysctl os ''net.core.wmem_max'' udpBufTarget
       (raiseSysctl os ''net.core.rmem_max'' udpBufTarget h)"

definition innerTCPBufTarget :: int where
  "innerTCPBufTarget = 33554432"

definition raiseSysctlTriple :: "'h os \<Rightarrow> string \<Rightarrow> int \<Rightarrow> 'h \<Rightarrow> 'h" where
  "raiseSysctlTriple os key targetMax h =
     (let path = sysctl_path key in
      case os_read os path h of
        None \<Rightarrow> h
      | Some b \<Rightarrow>
          let fields = Fields (TrimSpace b) in
          if length fields \<noteq> 3 then h
          else
            let curMax = fst (Atoi (fields ! 2)) in
            if targetMax \<le> curMax then h
            else
              let val = fields ! 0 @ '' '' @ fields ! 1 @ '' '' @ Itoa targetMax
              in fst (os_write os path val h))"

definition tuneInnerTCPBuffers :: "'h os \<Rightarrow> 'h \<Rightarrow> 'h" where
  "tuneInnerTCPBuffers os h =
     raiseSysctlTriple os ''net.ipv4.tcp_rmem'' innerTCPBufTarget
       (raiseSysctlTriple os ''net.ipv4.tcp_wmem'' innerTCPBufTarget h)"

section \<open>Policy routing\<close>

definition del9000_cmd :: "string list" where
  "del9000_cmd = [''/sbin/ip'', ''rule'', ''del'', ''table'', ''9000'']"

definition delSuppress_cmd :: "string list" where
  "delSuppress_cmd = [''/sbin/ip'', ''rule'', ''del'', ''table'', ''main'', ''suppress_prefixlength'', ''0'']"

definition add9000_cmd :: "string \<Rightarrow> string list" where
  "add9000_cmd fwmark = [''/sbin/ip'', ''rule'', ''add'', ''not'', ''fwmark'', fwmark, ''table'', ''9000'']"

definition addSuppress_cmd :: "string list" where
  "addSuppress_cmd = [''/sbin/ip'', ''rule'', ''add'', ''table'', ''main'', ''suppress_prefixlength'', ''0'']"

definition flush_cmd :: "string list" where
  "flush_cmd = [''/sbin/ip'', ''route'', ''flush'', ''table'', ''9000'']"

definition replace_cmd :: "string \<Rightarrow> string \<Rightarrow> string list" where
  "replace_cmd pfx dev =
     [''/sbin/ip'', ''route'', ''replace'', pfx, ''dev'', dev, ''table'', ''9000'']"

text \<open>\<open>for i := 0; i < n; i++ { if err := run(cmd); err != nil { break } }\<close>\<close>

fun repeat_cmd :: "'h os \<Rightarrow> nat \<Rightarrow> string list \<Rightarrow> 'h \<Rightarrow> 'h" where
  "repeat_cmd os 0 cmd h = h"
| "repeat_cmd os (Suc n) cmd h =
     (let (h1, ok) = os_run os cmd h in if ok then repeat_cmd os n cmd h1 else h1)"

definition delAllTable9000Rules :: "'h os \<Rightarrow> 'h \<Rightarrow> 'h" where
  "delAllTable9000Rules os h = repeat_cmd os 64 del9000_cmd h"

definition delSuppressRule :: "'h os \<Rightarrow> 'h \<Rightarrow> 'h" where
  "delSuppressRule os h = repeat_cmd os 8 delSuppress_cmd h"

definition Bootstrap :: "'h os \<Rightarrow> ctx \<Rightarrow> bool \<Rightarrow> 'h \<Rightarrow> 'h proc" where
  "Bootstrap os ctx fullTunnel h =
     (let h1 = enforceBBR os ctx h;
          h2 = tuneUDPBuffers os h1;
          h3 = tuneInnerTCPBuffers os h2;
          h4 = delAllTable9000Rules os h3;
          h5 = delSuppressRule os h4
      in case ctx_Value ctx ''FWMARK'' of
           None \<Rightarrow> Panicked h5
         | Some fwmark \<Rightarrow>
             let (h6, ok) = os_run os (add9000_cmd fwmark) h5 in
             if \<not> ok then Exited h6
             else if fullTunnel then
               let (h7, ok2) = os_run os addSuppress_cmd h6 in if ok2 then Running h7 else Exited h7
             else Running h6)"

definition GracefullyShutdown :: "'h os \<Rightarrow> 'h \<Rightarrow> 'h" where
  "GracefullyShutdown os h =
     fst (os_run os flush_cmd (delSuppressRule os (delAllTable9000Rules os h)))"

text \<open>\<open>RunPostUp\<close>: whether the debug HTTP server is started.\<close>

definition RunPostUp :: "ctx \<Rightarrow> bool" where
  "RunPostUp ctx = parsed_bool (ctx_string ctx ''ENABLE_STATISTIC'')"

section \<open>Hypotheses about the operating system\<close>

text \<open>
  Files under \<open>/proc/sys\<close>: a write either fails and changes no file, or the written numbers read
  back separated by tabs and followed by a newline, and no other file changes.
\<close>

definition sysctl_fs :: "'h os \<Rightarrow> bool" where
  "sysctl_fs os \<longleftrightarrow>
     (\<forall>p d h q. os_read os q (fst (os_write os p d h)) =
        (if q = p \<and> snd (os_write os p d h)
         then Some (ReplaceAll d (CHR '' '') (CHR 0x09) @ [CHR 0x0A]) else os_read os q h))"

text \<open>What \<open>ip rule\<close> and \<open>ip route\<close> show of the host: the number of rules for table 9000, the
  number of rules that suppress the default route of the main table, and the routes of table
  9000.\<close>

record ipview =
  n9000 :: nat
  nsupp :: nat
  routes9000 :: "(string \<times> string) set"

definition is_ip :: "string list \<Rightarrow> bool" where
  "is_ip cmd \<longleftrightarrow> cmd \<noteq> [] \<and> hd cmd = ''/sbin/ip''"

text \<open>
  \<open>ip rule del\<close> removes one matching rule and fails if there is none, \<open>ip rule add\<close> adds one or
  fails without effect, \<open>ip route replace\<close> sets the route of a prefix or fails without effect,
  \<open>ip route flush\<close> empties the table; other programs and file writes do
  not touch rules and routes. The flush is taken to empty the table whatever its exit status (on an
  empty table it may report a failure): the code logs a failed flush and goes on, so routes that a
  flush really could not remove would stay.
\<close>

definition ip_spec :: "'h os \<Rightarrow> ('h \<Rightarrow> ipview) \<Rightarrow> bool" where
  "ip_spec os view \<longleftrightarrow>
     (\<forall>h. snd (os_run os del9000_cmd h) = (0 < n9000 (view h))
        \<and> view (fst (os_run os del9000_cmd h)) = (view h)\<lparr>n9000 := n9000 (view h) - 1\<rparr>
        \<and> snd (os_run os delSuppress_cmd h) = (0 < nsupp (view h))
        \<and> view (fst (os_run os delSuppress_cmd h)) = (view h)\<lparr>nsupp := nsupp (view h) - 1\<rparr>
        \<and> view (fst (os_run os flush_cmd h)) = (view h)\<lparr>routes9000 := {}\<rparr>
        \<and> (\<forall>mark. view (fst (os_run os (add9000_cmd mark) h)) =
             (if snd (os_run os (add9000_cmd mark) h)
              then (view h)\<lparr>n9000 := n9000 (view h) + 1\<rparr> else view h))
        \<and> view (fst (os_run os addSuppress_cmd h)) =
             (if snd (os_run os addSuppress_cmd h)
              then (view h)\<lparr>nsupp := nsupp (view h) + 1\<rparr> else view h)
        \<and> (\<forall>pfx dev. view (fst (os_run os (replace_cmd pfx dev) h)) =
             (if snd (os_run os (replace_cmd pfx dev) h)
              then (view h)\<lparr>routes9000 := insert (pfx, dev) {r \<in> routes9000 (view h). fst r \<noteq> pfx}\<rparr>
              else view h))
        \<and> (\<forall>cmd. \<not> is_ip cmd \<longrightarrow> view (fst (os_run os cmd h)) = view h)
        \<and> (\<forall>p d. view (fst (os_write os p d h)) = view h))"

lemma ip_spec_simps:
  assumes "ip_spec os view"
  shows "snd (os_run os del9000_cmd h) = (0 < n9000 (view h))"
    and "view (fst (os_run os del9000_cmd h)) = (view h)\<lparr>n9000 := n9000 (view h) - 1\<rparr>"
    and "snd (os_run os delSuppress_cmd h) = (0 < nsupp (view h))"
    and "view (fst (os_run os delSuppress_cmd h)) = (view h)\<lparr>nsupp := nsupp (view h) - 1\<rparr>"
    and "view (fst (os_run os flush_cmd h)) = (view h)\<lparr>routes9000 := {}\<rparr>"
    and "view (fst (os_run os (add9000_cmd mark) h)) =
      (if snd (os_run os (add9000_cmd mark) h) then (view h)\<lparr>n9000 := n9000 (view h) + 1\<rparr> else view h)"
    and "view (fst (os_run os addSuppress_cmd h)) =
      (if snd (os_run os addSuppress_cmd h) then (view h)\<lparr>nsupp := nsupp (view h) + 1\<rparr> else view h)"
    and "view (fst (os_run os (replace_cmd pfx dev) h)) =
      (if snd (os_run os (replace_cmd pfx dev) h)
       then (view h)\<lparr>routes9000 := insert (pfx, dev) {r \<in> routes9000 (view h). fst r \<noteq> pfx}\<rparr>
       else view h)"
    and "\<not> is_ip cmd \<Longrightarrow> view (fst (os_run os cmd h)) = view h"
    and "view (fst (os_write os p d h)) = view h"
  using assms unfolding ip_spec_def by blast+

section \<open>Lemmas on policy routing\<close>

lemma view_repeat_del9000:
  assumes "ip_spec os view"
  shows "view (repeat_cmd os k del9000_cmd h) = (view h)\<lparr>n9000 := n9000 (view h) - k\<rparr>"
proof (induction k arbitrary: h)
  case (Suc k)
  show ?case
    by (cases "n9000 (view h)")
      (simp_all add: Suc case_prod_beta ip_spec_simps [OF assms])
qed simp

lemma view_repeat_delSuppress:
  assumes "ip_spec os view"
  shows "view (repeat_cmd os k delSuppress_cmd h) = (view h)\<lparr>nsupp := nsupp (view h) - k\<rparr>"
proof (induction k arbitrary: h)
  case (Suc k)
  show ?case
    by (cases "nsupp (view h)")
      (simp_all add: Suc case_prod_beta ip_spec_simps [OF assms])
qed simp

lemma view_delete_rules:
  assumes "ip_spec os view"
  shows "view (delSuppressRule os (delAllTable9000Rules os h)) =
    (view h)\<lparr>n9000 := n9000 (view h) - 64, nsupp := nsupp (view h) - 8\<rparr>"
  by (simp add: delSuppressRule_def delAllTable9000Rules_def view_repeat_del9000 [OF assms]
      view_repeat_delSuppress [OF assms])

lemma view_tuning:
  assumes "ip_spec os view"
  shows "view (tuneInnerTCPBuffers os (tuneUDPBuffers os (enforceBBR os ctx h))) = view h"
proof -
  have "view (enforceBBR os ctx h) = view h" for h
    by (simp add: enforceBBR_def Let_def is_ip_def ip_spec_simps [OF assms] split: option.split)
  moreover have "view (raiseSysctl os key t h) = view h" for key t h
    by (simp add: raiseSysctl_def Let_def ip_spec_simps [OF assms])
  moreover have "view (raiseSysctlTriple os key t h) = view h" for key t h
    by (simp add: raiseSysctlTriple_def Let_def ip_spec_simps [OF assms] split: option.split)
  ultimately show ?thesis by (simp add: tuneInnerTCPBuffers_def tuneUDPBuffers_def)
qed

text \<open>The view after \<open>Bootstrap\<close>, for each way it ends.\<close>

definition bootstrapped :: "ipview \<Rightarrow> nat \<Rightarrow> nat \<Rightarrow> ipview" where
  "bootstrapped v rules suppressed =
     v\<lparr>n9000 := n9000 v - 64 + rules, nsupp := nsupp v - 8 + suppressed\<rparr>"

lemma Bootstrap_view:
  assumes "ip_spec os view"
  shows "case Bootstrap os ctx full h of
      Running h' \<Rightarrow> view h' = bootstrapped (view h) 1 (if full then 1 else 0)
    | Exited h' \<Rightarrow> view h' = bootstrapped (view h) 0 0 \<or> (full \<and> view h' = bootstrapped (view h) 1 0)
    | Panicked h' \<Rightarrow> view h' = bootstrapped (view h) 0 0"
proof -
  define h5 where "h5 = delSuppressRule os (delAllTable9000Rules os
    (tuneInnerTCPBuffers os (tuneUDPBuffers os (enforceBBR os ctx h))))"
  have v5: "view h5 = bootstrapped (view h) 0 0"
    by (simp add: h5_def view_delete_rules [OF assms] view_tuning [OF assms] bootstrapped_def)
  show ?thesis
    unfolding Bootstrap_def Let_def h5_def [symmetric]
    by (auto simp: v5 case_prod_beta ip_spec_simps [OF assms] bootstrapped_def
        split: option.splits if_splits)
qed

section \<open>Properties of policy routing\<close>

text \<open>C29: \<open>GracefullyShutdown\<close> removes up to 64 rules for table 9000 and up to 8 suppress rules and
  empties the table, so a host that carries no more than that is left without a trace of the
  client; running it again, as the signal handler and the run loop may do, changes nothing more.\<close>

theorem GracefullyShutdown_cleans:
  assumes "ip_spec os view"
  shows "view (GracefullyShutdown os h) =
      \<lparr>n9000 = n9000 (view h) - 64, nsupp = nsupp (view h) - 8, routes9000 = {}\<rparr>
    \<and> (if n9000 (view h) \<le> 64 \<and> nsupp (view h) \<le> 8
       then view (GracefullyShutdown os h) = \<lparr>n9000 = 0, nsupp = 0, routes9000 = {}\<rparr>
         \<and> view (GracefullyShutdown os (GracefullyShutdown os h)) = view (GracefullyShutdown os h)
       else True)"
  by (simp add: GracefullyShutdown_def view_delete_rules [OF assms] ip_spec_simps [OF assms])

text \<open>A concrete host for the examples: the view itself and the files, every command succeeding
  where it can.\<close>

type_synonym demo_host = "ipview \<times> (string \<rightharpoonup> string)"

definition demo_run :: "string list \<Rightarrow> demo_host \<Rightarrow> demo_host \<times> bool" where
  "demo_run cmd h =
     (let v = fst h; fs = snd h in
      if \<not> is_ip cmd then (h, True)
      else if cmd = del9000_cmd then ((v\<lparr>n9000 := n9000 v - 1\<rparr>, fs), 0 < n9000 v)
      else if cmd = delSuppress_cmd then ((v\<lparr>nsupp := nsupp v - 1\<rparr>, fs), 0 < nsupp v)
      else if cmd = flush_cmd then ((v\<lparr>routes9000 := {}\<rparr>, fs), True)
      else if cmd = addSuppress_cmd then ((v\<lparr>nsupp := nsupp v + 1\<rparr>, fs), True)
      else if length cmd = 8 \<and> cmd = add9000_cmd (cmd ! 5) then ((v\<lparr>n9000 := n9000 v + 1\<rparr>, fs), True)
      else if length cmd = 8 \<and> cmd = replace_cmd (cmd ! 3) (cmd ! 5)
      then ((v\<lparr>routes9000 := insert (cmd ! 3, cmd ! 5) {r \<in> routes9000 v. fst r \<noteq> cmd ! 3}\<rparr>, fs), True)
      else (h, True))"

definition demo_os :: "demo_host os" where
  "demo_os =
     \<lparr>os_run = demo_run, os_read = (\<lambda>p h. snd h p),
      os_write = (\<lambda>p d h. ((fst h,
          (snd h)(p \<mapsto> ReplaceAll d (CHR '' '') (CHR 0x09) @ [CHR 0x0A])), True))\<rparr>"

lemma ip_spec_demo: "ip_spec demo_os fst"
  by (auto simp: ip_spec_def demo_os_def demo_run_def Let_def del9000_cmd_def delSuppress_cmd_def
      flush_cmd_def addSuppress_cmd_def add9000_cmd_def replace_cmd_def is_ip_def)

lemma sysctl_fs_demo: "sysctl_fs demo_os"
  by (simp add: sysctl_fs_def demo_os_def)

theorem GracefullyShutdown_cleans_witness:
  "ip_spec demo_os fst
   \<and> fst (GracefullyShutdown demo_os (\<lparr>n9000 = 3, nsupp = 1, routes9000 = {(''0.0.0.0/0'', ''tun0'')}\<rparr>, Map.empty)) =
      \<lparr>n9000 = 0, nsupp = 0, routes9000 = {}\<rparr>"
  using GracefullyShutdown_cleans [OF ip_spec_demo,
      of "(\<lparr>n9000 = 3, nsupp = 1, routes9000 = {(''0.0.0.0/0'', ''tun0'')}\<rparr>, Map.empty)"] ip_spec_demo
  by simp

text \<open>C30: \<open>Bootstrap\<close> never accumulates rules. From a host with at most 64 rules for table 9000 and
  8 suppress rules, left by earlier attempts or an unclean exit, a successful run leaves exactly
  one rule for table 9000, and one suppress rule exactly for a full tunnel, with the routes as they
  were. When adding the first rule fails the process exits with no rule in place; when adding
  the suppress rule of a full tunnel fails it exits with the first rule still in place.\<close>

theorem Bootstrap_exact_rules:
  assumes "ip_spec os view" and "n9000 (view h) \<le> 64" and "nsupp (view h) \<le> 8"
  shows "case Bootstrap os ctx full h of
      Running h' \<Rightarrow> view h' = (view h)\<lparr>n9000 := 1, nsupp := if full then 1 else 0\<rparr>
    | Exited h' \<Rightarrow> view h' = (view h)\<lparr>n9000 := 0, nsupp := 0\<rparr>
        \<or> (full \<and> view h' = (view h)\<lparr>n9000 := 1, nsupp := 0\<rparr>)
    | Panicked h' \<Rightarrow> view h' = (view h)\<lparr>n9000 := 0, nsupp := 0\<rparr>"
  using Bootstrap_view [OF assms(1), where ctx = ctx and full = full and h = h] assms(2,3)
  by (cases "Bootstrap os ctx full h") (auto simp: bootstrapped_def)

theorem Bootstrap_exact_rules_witness:
  "ip_spec demo_os fst
   \<and> (case Bootstrap demo_os [(''FWMARK'', ''51820'')] True
          (\<lparr>n9000 = 2, nsupp = 0, routes9000 = {}\<rparr>, Map.empty) of
        Running h \<Rightarrow> fst h = \<lparr>n9000 = 1, nsupp = 1, routes9000 = {}\<rparr>
      | _ \<Rightarrow> False)"
proof -
  have "case Bootstrap demo_os [(''FWMARK'', ''51820'')] True
          (\<lparr>n9000 = 2, nsupp = 0, routes9000 = {}\<rparr>, Map.empty) of Running h \<Rightarrow> True | _ \<Rightarrow> False"
    by (simp add: Bootstrap_def Let_def ctx_Value_def demo_os_def demo_run_def case_prod_beta
        add9000_cmd_def addSuppress_cmd_def del9000_cmd_def delSuppress_cmd_def flush_cmd_def is_ip_def)
  then show ?thesis
    using Bootstrap_exact_rules [OF ip_spec_demo,
        where h = "(\<lparr>n9000 = 2, nsupp = 0, routes9000 = {}\<rparr>, Map.empty)"
          and ctx = "[(''FWMARK'', ''51820'')]" and full = True] ip_spec_demo
    by (auto split: proc.splits)
qed

section \<open>Lemmas on host tuning\<close>

definition sysctl_val :: "string \<Rightarrow> int" where
  "sysctl_val b = fst (Atoi (TrimSpace b))"

lemma read_after_write:
  assumes "sysctl_fs os"
  shows "os_read os q (fst (os_write os p d h)) =
    (if q = p \<and> snd (os_write os p d h)
     then Some (ReplaceAll d (CHR '' '') (CHR 0x09) @ [CHR 0x0A]) else os_read os q h)"
  using assms unfolding sysctl_fs_def by blast

lemma ReplaceAll_none [simp]: "old \<notin> set s \<Longrightarrow> ReplaceAll s old new = s"
  by (auto simp: ReplaceAll_def intro: map_idI)

lemma ReplaceAll_append [simp]:
  "ReplaceAll (s @ t) old new = ReplaceAll s old new @ ReplaceAll t old new"
  "ReplaceAll [old] old new = [new]"
  by (simp_all add: ReplaceAll_def)

lemma Itoa_no_space: "CHR '' '' \<notin> set (Itoa i)"
  using Itoa_no_start [of "CHR '' ''" i] by (auto simp: space_start_def)

lemma solid_no_space: "solid f \<Longrightarrow> CHR '' '' \<notin> set f"
proof
  assume f: "solid f" and "CHR '' '' \<in> set f"
  then obtain a b where "f = a @ CHR '' '' # b" by (meson split_list)
  then have "suffix (CHR '' '' # b) f" by (auto simp: suffix_def)
  with f have "lead space_seqs (CHR '' '' # b) = 0" by (auto simp: solid_def)
  then show False using lead_blank [of "CHR '' ''" b] by (simp add: blank_def)
qed

lemma raiseSysctl_reads:
  assumes "sysctl_fs os" and "0 \<le> target" and "target < 2 ^ 63"
    and "os_read os (sysctl_path key) h = Some b"
  shows "\<exists>b'. os_read os (sysctl_path key) (raiseSysctl os key target h) = Some b'
    \<and> sysctl_val b' = (if snd (os_write os (sysctl_path key) (Itoa target) h)
                       then max (sysctl_val b) target else sysctl_val b)"
proof -
  have "sysctl_val (Itoa target @ [CHR 0x0A]) = target"
    using assms(2,3) by (simp add: sysctl_val_def TrimSpace_Itoa_newline Atoi_Itoa)
  then show ?thesis
    using assms(4)
    by (auto simp: raiseSysctl_def Let_def read_after_write [OF assms(1)] Itoa_no_space
        sysctl_val_def [symmetric] max_def)
qed

lemma raiseSysctl_frame:
  assumes "sysctl_fs os" and "q \<noteq> sysctl_path key"
  shows "os_read os q (raiseSysctl os key target h) = os_read os q h"
  using assms(2) by (simp add: raiseSysctl_def Let_def read_after_write [OF assms(1)])

lemma raiseSysctlTriple_frame:
  assumes "sysctl_fs os" and "q \<noteq> sysctl_path key"
  shows "os_read os q (raiseSysctlTriple os key target h) = os_read os q h"
  using assms(2)
  by (simp add: raiseSysctlTriple_def Let_def read_after_write [OF assms(1)] split: option.split)

section \<open>Properties of host tuning\<close>

text \<open>C31: \<open>tuneUDPBuffers\<close> only raises: for both buffer limits, if the file can be read, the
  limit after the call is at least what it was, and is the larger of the old value and 7864320
  when writing succeeds; no other file changes.\<close>

theorem tuneUDPBuffers_only_raises:
  assumes "sysctl_fs os" and "key \<in> {''net.core.rmem_max'', ''net.core.wmem_max''}"
    and "os_read os (sysctl_path key) h = Some b"
  shows "(\<exists>b'. os_read os (sysctl_path key) (tuneUDPBuffers os h) = Some b'
      \<and> sysctl_val b \<le> sysctl_val b'
      \<and> (sysctl_val b' = sysctl_val b \<or> sysctl_val b' = max (sysctl_val b) 7864320))
    \<and> (if q \<noteq> sysctl_path ''net.core.rmem_max'' \<and> q \<noteq> sysctl_path ''net.core.wmem_max''
       then os_read os q (tuneUDPBuffers os h) = os_read os q h else True)"
proof -
  have ne: "sysctl_path ''net.core.rmem_max'' \<noteq> sysctl_path ''net.core.wmem_max''"
    by (simp add: sysctl_path_def ReplaceAll_def)
  let ?h = "raiseSysctl os ''net.core.rmem_max'' udpBufTarget h"
  have t: "0 \<le> udpBufTarget" "udpBufTarget < 2 ^ 63" by (simp_all add: udpBufTarget_def)
  note raise = raiseSysctl_reads [OF assms(1) t]
  have "\<exists>b'. os_read os (sysctl_path key) (tuneUDPBuffers os h) = Some b'
      \<and> (sysctl_val b' = sysctl_val b \<or> sysctl_val b' = max (sysctl_val b) udpBufTarget)"
  proof (cases "key = ''net.core.rmem_max''")
    case True
    with raise [OF assms(3)] show ?thesis
      using ne by (auto simp: tuneUDPBuffers_def raiseSysctl_frame [OF assms(1)] split: if_splits)
  next
    case False
    with assms(2) have k: "key = ''net.core.wmem_max''" by simp
    with assms(3) ne have "os_read os (sysctl_path key) ?h = Some b"
      by (simp add: raiseSysctl_frame [OF assms(1)])
    from raise [OF this] k show ?thesis by (auto simp: tuneUDPBuffers_def split: if_splits)
  qed
  then show ?thesis
    by (auto simp: udpBufTarget_def tuneUDPBuffers_def raiseSysctl_frame [OF assms(1)])
qed

theorem tuneUDPBuffers_only_raises_witness:
  "sysctl_fs demo_os
   \<and> (\<exists>b'. os_read demo_os (sysctl_path ''net.core.rmem_max'')
        (tuneUDPBuffers demo_os (\<lparr>n9000 = 0, nsupp = 0, routes9000 = {}\<rparr>,
           [sysctl_path ''net.core.rmem_max'' \<mapsto> ''212992'']))= Some b'
      \<and> sysctl_val ''212992'' \<le> sysctl_val b')"
  using tuneUDPBuffers_only_raises [OF sysctl_fs_demo, of "''net.core.rmem_max''"
      "(\<lparr>n9000 = 0, nsupp = 0, routes9000 = {}\<rparr>, [sysctl_path ''net.core.rmem_max'' \<mapsto> ''212992''])"
      "''212992''"] sysctl_fs_demo
  by (auto simp: demo_os_def)

text \<open>C32: \<open>raiseSysctlTriple\<close> changes a file exactly when it has three fields, the third is below
  the target and the write succeeds; it then reads as the same first and second field followed by
  the target. Any other content, and every other file, is left as it was.\<close>

theorem raiseSysctlTriple_keeps_fields:
  assumes "sysctl_fs os" and "os_read os (sysctl_path key) h = Some b"
  shows "(\<exists>b'. os_read os (sysctl_path key) (raiseSysctlTriple os key target h) = Some b'
      \<and> (if \<exists>mn df mx. Fields (TrimSpace b) = [mn, df, mx] \<and> fst (Atoi mx) < target
              \<and> snd (os_write os (sysctl_path key) (mn @ '' '' @ df @ '' '' @ Itoa target) h)
         then \<exists>mn df mx. Fields (TrimSpace b) = [mn, df, mx] \<and> Fields b' = [mn, df, Itoa target]
         else b' = b))
    \<and> (if q \<noteq> sysctl_path key
       then os_read os q (raiseSysctlTriple os key target h) = os_read os q h else True)"
proof -
  let ?low = "\<exists>mn df mx. Fields (TrimSpace b) = [mn, df, mx] \<and> fst (Atoi mx) < target"
  have same: "raiseSysctlTriple os key target h = h" if "\<not> ?low"
  proof (cases "length (Fields (TrimSpace b)) = 3")
    case True
    then obtain mn df mx where "Fields (TrimSpace b) = [mn, df, mx]"
      by (auto simp: numeral_3_eq_3 length_Suc_conv)
    then show ?thesis using that assms(2) by (auto simp: raiseSysctlTriple_def not_less)
  qed (use assms(2) in \<open>simp add: raiseSysctlTriple_def\<close>)
  show ?thesis
  proof (cases ?low)
    case True
    then obtain mn df mx where f: "Fields (TrimSpace b) = [mn, df, mx]" "fst (Atoi mx) < target" by blast
    have sol: "solid mn" "solid df" using Fields_solid [of _ "TrimSpace b"] f(1) by simp_all
    then have "CHR '' '' \<notin> set mn" "CHR '' '' \<notin> set df" by (simp_all add: solid_no_space)
    then have new: "ReplaceAll (mn @ '' '' @ df @ '' '' @ Itoa target) (CHR '' '') (CHR 0x09) @ [CHR 0x0A] =
        mn @ CHR 0x09 # df @ CHR 0x09 # Itoa target @ [CHR 0x0A]"
      by (simp add: Itoa_no_space del: append_Cons)
    have fields: "Fields (mn @ CHR 0x09 # df @ CHR 0x09 # Itoa target @ [CHR 0x0A]) = [mn, df, Itoa target]"
      using sol by (intro Fields_three) (simp_all add: solid_Itoa blank_def)
    have r: "raiseSysctlTriple os key target h =
        fst (os_write os (sysctl_path key) (mn @ '' '' @ df @ '' '' @ Itoa target) h)"
      using f assms(2) by (simp add: raiseSysctlTriple_def)
    show ?thesis
      unfolding r read_after_write [OF assms(1)] new using assms(2) f fields by auto
  next
    case False
    with same assms(2) show ?thesis by auto
  qed
qed

theorem raiseSysctlTriple_keeps_fields_witness:
  "\<exists>b'. os_read demo_os (sysctl_path ''k'') (raiseSysctlTriple demo_os ''k'' 9
        (\<lparr>n9000 = 0, nsupp = 0, routes9000 = {}\<rparr>, [sysctl_path ''k'' \<mapsto> ''1 2 3''])) = Some b'
     \<and> Fields b' = [''1'', ''2'', Itoa 9]"
proof -
  have "Itoa 3 = ''3''" by code_simp
  then have "fst (Atoi ''3'') = 3" using Atoi_Itoa [of 3] by simp
  moreover have "Fields (TrimSpace ''1 2 3'') = [''1'', ''2'', ''3'']" by code_simp
  ultimately show ?thesis
    using raiseSysctlTriple_keeps_fields [OF sysctl_fs_demo, of "''k''"
        "(\<lparr>n9000 = 0, nsupp = 0, routes9000 = {}\<rparr>, [sysctl_path ''k'' \<mapsto> ''1 2 3''])" "''1 2 3''" 9]
    by (simp add: demo_os_def)
qed

end
