(* ===== verification/IpUtil.thy ===== *)
theory IpUtil
  imports Prelude
begin

text \<open>
  \<open>utility/ip.go\<close>: the last address of a prefix and the conversion of a prefix to a
  \<open>net.IPNet\<close>. Of the standard library the model has the values of \<open>netip.Addr\<close> (the zero
  address, IPv4, IPv6), \<open>netip.Prefix\<close> (whose \<open>Bits\<close> is -1 for an invalid prefix) and
  \<open>net.CIDRMask\<close>. A prefix carries no IPv6 zone.
\<close>

section \<open>Standard library\<close>

datatype Addr = ZeroAddr | Addr4 bytes | Addr16 bytes

fun AsSlice :: "Addr \<Rightarrow> bytes" where
  "AsSlice ZeroAddr = []"
| "AsSlice (Addr4 b) = b"
| "AsSlice (Addr16 b) = b"

fun Is4 :: "Addr \<Rightarrow> bool" where
  "Is4 (Addr4 b) = True"
| "Is4 a = False"

definition BitLen :: "Addr \<Rightarrow> nat" where
  "BitLen a = 8 * length (AsSlice a)"

record Prefix =
  pfx_addr :: Addr
  pfx_bits :: int

text \<open>A valid address has 4 or 16 bytes; the length of a valid prefix is at most its width.\<close>

fun addr_ok :: "Addr \<Rightarrow> bool" where
  "addr_ok ZeroAddr = False"
| "addr_ok (Addr4 b) = (length b = 4)"
| "addr_ok (Addr16 b) = (length b = 16)"

definition IsValid :: "Prefix \<Rightarrow> bool" where
  "IsValid p \<longleftrightarrow> addr_ok (pfx_addr p) \<and> 0 \<le> pfx_bits p \<and> pfx_bits p \<le> int (BitLen (pfx_addr p))"

fun mask_bytes :: "nat \<Rightarrow> nat \<Rightarrow> bytes" where
  "mask_bytes 0 n = []"
| "mask_bytes (Suc l) n =
     (if 8 \<le> n then 0xff # mask_bytes l (n - 8) else NOT (drop_bit n 0xff) # mask_bytes l 0)"

text \<open>\<open>net.CIDRMask\<close>; \<open>None\<close> is the nil mask.\<close>

definition CIDRMask :: "int \<Rightarrow> nat \<Rightarrow> bytes option" where
  "CIDRMask ones bits =
     (if (bits \<noteq> 32 \<and> bits \<noteq> 128) \<or> ones < 0 \<or> int bits < ones then None
      else Some (mask_bytes (bits div 8) (nat ones)))"

record IPNet =
  net_IP :: bytes
  net_Mask :: "bytes option"

section \<open>Operations\<close>

text \<open>The loop of \<open>LastIP\<close>, at index \<open>i - 1\<close> with the remaining host bits.\<close>

fun LastIP_loop :: "nat \<Rightarrow> int \<Rightarrow> bytes \<Rightarrow> bytes" where
  "LastIP_loop 0 hostBits bs = bs"
| "LastIP_loop (Suc i) hostBits bs =
     (let setBits = (if hostBits < 8 then hostBits else 8) in
      if setBits \<le> 0 then bs
      else LastIP_loop i (hostBits - 8) (bs[i := bs ! i OR drop_bit (nat (8 - setBits)) 0xff]))"

text \<open>\<open>None\<close> is the panic of the conversion to a 16-byte array.\<close>

definition LastIP :: "Prefix \<Rightarrow> Addr option" where
  "LastIP p =
     (let addr = pfx_addr p;
          bs = AsSlice addr;
          hostBits = int (length bs) * 8 - pfx_bits p;
          bs' = LastIP_loop (length bs) hostBits bs
      in if Is4 addr then Option.bind (go_slice bs' 0 4) (\<lambda>b. Some (Addr4 b))
         else if length bs' < 16 then None
         else Some (Addr16 (take 16 bs')))"

definition PrefixToIPNet :: "Prefix \<Rightarrow> IPNet" where
  "PrefixToIPNet p =
     \<lparr>net_IP = AsSlice (pfx_addr p), net_Mask = CIDRMask (pfx_bits p) (BitLen (pfx_addr p))\<rparr>"

section \<open>Lemmas\<close>

text \<open>The number an address stands for.\<close>

definition addr_val :: "bytes \<Rightarrow> int" where
  "addr_val bs = foldl (\<lambda>v b. v * 256 + uint b) 0 bs"

lemma addr_val_snoc: "addr_val (bs @ [b]) = concat_bit 8 (uint b) (addr_val bs)"
proof -
  have "take_bit 8 (uint b) = uint b" by (rule take_bit_int_eq_self) (use uint_lt2p [of b] in simp_all)
  then show ?thesis by (simp add: addr_val_def concat_bit_eq push_bit_eq_mult)
qed

lemma set_low_bits: "n \<le> 8 \<Longrightarrow> drop_bit (8 - n) 0xff = (mask n :: byte)"
proof -
  have ff: "0xff = (mask 8 :: byte)" by (simp add: mask_eq_exp_minus_1)
  show "n \<le> 8 \<Longrightarrow> drop_bit (8 - n) 0xff = (mask n :: byte)"
    unfolding ff by (rule bit_word_eqI) (auto simp: bit_simps)
qed

lemma concat_or_mask:
  fixes b :: byte
  shows "n \<le> 8 \<Longrightarrow> concat_bit 8 (uint (b OR mask n)) v = concat_bit 8 (uint b) v OR mask n"
    and "concat_bit 8 (uint (b OR mask 8)) (v OR mask m) = concat_bit 8 (uint b) v OR mask (m + 8)"
  by (rule bit_eqI; auto simp: bit_simps bit_concat_bit_iff)+

text \<open>The loop sets the lowest host bits of the number, and nothing past its start.\<close>

lemma LastIP_loop_val:
  assumes "hb \<le> 8 * int (length xs)"
  shows "\<exists>zs. LastIP_loop (length xs) hb (xs @ ys) = zs @ ys \<and> length zs = length xs
    \<and> addr_val zs = addr_val xs OR mask (nat hb)"
  using assms
proof (induction xs arbitrary: hb ys rule: rev_induct)
  case Nil
  then show ?case by simp
next
  case (snoc x xs)
  consider (stop) "hb \<le> 0" | (last) "0 < hb" "hb < 8" | (full) "8 \<le> hb" by linarith
  then show ?case
  proof cases
    case stop
    then show ?thesis by (intro exI [of _ "xs @ [x]"]) simp
  next
    case last
    define b where "b = x OR mask (nat hb)"
    have "drop_bit (nat (8 - hb)) 0xff = (mask (nat hb) :: byte)"
      using last set_low_bits [of "nat hb"] by (simp add: nat_diff_distrib)
    moreover have "LastIP_loop (length xs) (hb - 8) (xs @ b # ys) = xs @ b # ys"
      using last by (cases xs rule: rev_cases) simp_all
    ultimately have "LastIP_loop (length (xs @ [x])) hb ((xs @ [x]) @ ys) = (xs @ [b]) @ ys"
      using last by (simp add: b_def list_update_append)
    moreover have "addr_val (xs @ [b]) = addr_val (xs @ [x]) OR mask (nat hb)"
      using last by (simp add: addr_val_snoc b_def concat_or_mask)
    ultimately show ?thesis by (intro exI [of _ "xs @ [b]"]) simp
  next
    case full
    define b where "b = x OR (mask 8 :: byte)"
    have b: "x OR 255 = b" by (simp add: b_def mask_eq_exp_minus_1)
    obtain zs where zs: "LastIP_loop (length xs) (hb - 8) (xs @ b # ys) = zs @ b # ys"
      "length zs = length xs" "addr_val zs = addr_val xs OR mask (nat (hb - 8))"
      using snoc.IH [of "hb - 8" "b # ys"] snoc.prems by auto
    have "nat hb = nat (hb - 8) + 8" using full by simp
    then have "addr_val (zs @ [b]) = addr_val (xs @ [x]) OR mask (nat hb)"
      by (simp only: addr_val_snoc zs(3) b_def concat_or_mask)
    then show ?thesis
      using full zs b by (intro exI [of _ "zs @ [b]"]) (simp add: list_update_append)
  qed
qed

text \<open>Setting the low bits of a number gives the largest number with the same high bits.\<close>

lemma or_mask_greatest:
  fixes v w :: int
  assumes "drop_bit n w = drop_bit n v"
  shows "drop_bit n (v OR mask n) = drop_bit n v" and "w \<le> v OR mask n"
proof -
  show same: "drop_bit n (v OR mask n) = drop_bit n v"
    by (rule bit_eqI) (simp add: bit_simps)
  have "take_bit n (v OR mask n) = mask n" by (rule bit_eqI) (auto simp: bit_simps)
  then have "v OR mask n = push_bit n (drop_bit n v) + mask n"
    by (metis bits_ident same)
  moreover have "w = push_bit n (drop_bit n v) + take_bit n w"
    by (metis assms bits_ident)
  moreover have "take_bit n w \<le> mask n" 
    using take_bit_int_less_exp [of n w] by (simp add: mask_eq_exp_minus_1)
  ultimately show "w \<le> v OR mask n" by linarith
qed

lemma length_LastIP_loop [simp]: "length (LastIP_loop i hb bs) = length bs"
  by (induction i hb bs rule: LastIP_loop.induct) (simp_all add: Let_def)

lemma AsSlice_LastIP:
  assumes "addr_ok (pfx_addr p)"
  shows "\<exists>a. LastIP p = Some a \<and> addr_ok a \<and> Is4 a = Is4 (pfx_addr p)
    \<and> AsSlice a = LastIP_loop (length (AsSlice (pfx_addr p)))
        (int (length (AsSlice (pfx_addr p))) * 8 - pfx_bits p) (AsSlice (pfx_addr p))"
  using assms by (cases "pfx_addr p") (simp_all add: LastIP_def)

text \<open>The bytes the loop and the netmask have at an index.\<close>

lemma LastIP_loop_nth:
  assumes "i \<le> length bs" and "j < length bs"
  shows "LastIP_loop i hb bs ! j =
    (if j < i then bs ! j OR mask (nat (min 8 (hb - 8 * (int i - 1 - int j)))) else bs ! j)"
  using assms
proof (induction i hb bs rule: LastIP_loop.induct)
  case (2 i hb bs)
  show ?case
  proof (cases "hb \<le> 0")
    case True
    then have "hb - 8 * (int (Suc i) - 1 - int j) \<le> 0" if "j < Suc i"
      using that by simp
    then show ?thesis using True by auto
  next
    case False
    define sb where "sb = (if hb < 8 then hb else 8)"
    have low: "drop_bit (nat (8 - sb)) 0xff = (mask (nat sb) :: byte)" "sb = min 8 hb" "0 < sb"
      using False set_low_bits [of "nat sb"] by (auto simp: sb_def nat_diff_distrib)
    have "LastIP_loop (Suc i) hb bs ! j =
        LastIP_loop i (hb - 8) (bs[i := bs ! i OR mask (nat sb)]) ! j"
      using low(1,3) unfolding LastIP_loop.simps Let_def sb_def [symmetric] by simp
    also have "\<dots> = (if j < Suc i then bs ! j OR mask (nat (min 8 (hb - 8 * (int (Suc i) - 1 - int j))))
        else bs ! j)"
      using 2 low False by (auto simp: sb_def [symmetric] nth_list_update less_Suc_eq algebra_simps)
    finally show ?thesis .
  qed
qed simp

lemma length_mask_bytes [simp]: "length (mask_bytes l n) = l"
  by (induction l n rule: mask_bytes.induct) simp_all

lemma mask_bytes_nth: "j < l \<Longrightarrow> mask_bytes l n ! j = NOT (mask (8 - min 8 (n - 8 * j)))"
proof (induction l n arbitrary: j rule: mask_bytes.induct)
  case (2 l n)
  show ?case
  proof (cases j)
    case 0
    have "8 - (8 - n) = n" if "\<not> 8 \<le> n" using that by simp
    then show ?thesis using 0 set_low_bits [of "8 - n"] by auto
  next
    case (Suc k)
    then show ?thesis using 2 by (cases "8 \<le> n") (simp_all add: diff_diff_eq)
  qed
qed simp

section \<open>Properties\<close>

text \<open>For a valid IPv4 or IPv6 prefix \<open>LastIP\<close> returns an address of the same family that
  lies in the prefix (it agrees with the prefix address on the network bits) and is the
  largest such address: no address with the same network bits has a greater value.\<close>

lemma LastIP_greatest:
  assumes "IsValid p"
  shows "\<exists>a. LastIP p = Some a \<and> addr_ok a \<and> Is4 a = Is4 (pfx_addr p)
    \<and> (let host = nat (int (BitLen (pfx_addr p)) - pfx_bits p) in
         drop_bit host (addr_val (AsSlice a)) = drop_bit host (addr_val (AsSlice (pfx_addr p)))
         \<and> (\<forall>v. drop_bit host v = drop_bit host (addr_val (AsSlice (pfx_addr p))) \<longrightarrow>
                v \<le> addr_val (AsSlice a)))"
proof -
  let ?bs = "AsSlice (pfx_addr p)"
  define hb where "hb = int (length ?bs) * 8 - pfx_bits p"
  have hb: "nat (int (BitLen (pfx_addr p)) - pfx_bits p) = nat hb" and le: "hb \<le> 8 * int (length ?bs)"
    using assms by (simp_all add: hb_def BitLen_def IsValid_def)
  obtain zs where zs: "LastIP_loop (length ?bs) hb ?bs = zs" "addr_val zs = addr_val ?bs OR mask (nat hb)"
    using LastIP_loop_val [OF le, of "[]"] by auto
  have "addr_ok (pfx_addr p)" using assms by (simp add: IsValid_def)
  from AsSlice_LastIP [OF this] obtain a where
    "LastIP p = Some a" "addr_ok a" "Is4 a = Is4 (pfx_addr p)" "AsSlice a = zs"
    unfolding hb_def [symmetric] zs(1) by blast
  moreover have "drop_bit (nat hb) (addr_val zs) = drop_bit (nat hb) (addr_val ?bs)"
    unfolding zs(2) by (rule or_mask_greatest(1) [OF refl])
  moreover have "v \<le> addr_val zs" if "drop_bit (nat hb) v = drop_bit (nat hb) (addr_val ?bs)" for v
    unfolding zs(2) by (rule or_mask_greatest(2) [OF that])
  ultimately show ?thesis unfolding hb Let_def by auto
qed

text \<open>C39: the two conversions of a valid prefix agree: the mask of \<open>PrefixToIPNet\<close> is as long as
  the address, and \<open>LastIP\<close> is the broadcast address of that network, every byte the address
  byte with the bits outside the mask set.\<close>

theorem LastIP_matches_IPNet:
  assumes "IsValid p"
  shows "\<exists>a m. LastIP p = Some a \<and> net_Mask (PrefixToIPNet p) = Some m
    \<and> length m = length (net_IP (PrefixToIPNet p))
    \<and> AsSlice a = map2 (\<lambda>b k. b OR NOT k) (net_IP (PrefixToIPNet p)) m"
proof -
  let ?bs = "AsSlice (pfx_addr p)" and ?n = "nat (pfx_bits p)"
  let ?hb = "int (length ?bs) * 8 - pfx_bits p"
  have ok: "addr_ok (pfx_addr p)" and bits: "0 \<le> pfx_bits p" "pfx_bits p \<le> 8 * int (length ?bs)"
    using assms by (auto simp: IsValid_def BitLen_def)
  have "length ?bs = 4 \<or> length ?bs = 16" using ok by (cases "pfx_addr p") simp_all
  then have mask: "net_Mask (PrefixToIPNet p) = Some (mask_bytes (length ?bs) ?n)"
    using bits by (auto simp: PrefixToIPNet_def CIDRMask_def BitLen_def)
  obtain a where a: "LastIP p = Some a" "AsSlice a = LastIP_loop (length ?bs) ?hb ?bs"
    using AsSlice_LastIP [OF ok] by blast
  have "nat (min 8 (?hb - 8 * (int (length ?bs) - 1 - int j))) = 8 - min 8 (?n - 8 * j)" for j
    using bits by (auto simp: min_def nat_diff_distrib)
  then have "AsSlice a = map2 (\<lambda>b k. b OR NOT k) ?bs (mask_bytes (length ?bs) ?n)"
    unfolding a(2) by (intro nth_equalityI) (simp_all add: LastIP_loop_nth mask_bytes_nth)
  with a mask show ?thesis by (simp add: PrefixToIPNet_def)
qed

theorem LastIP_matches_IPNet_witness:
  "IsValid \<lparr>pfx_addr = Addr4 [10, 1, 2, 0], pfx_bits = 20\<rparr>
   \<and> (\<exists>a m. LastIP \<lparr>pfx_addr = Addr4 [10, 1, 2, 0], pfx_bits = 20\<rparr> = Some a
       \<and> net_Mask (PrefixToIPNet \<lparr>pfx_addr = Addr4 [10, 1, 2, 0], pfx_bits = 20\<rparr>) = Some m
       \<and> AsSlice a = map2 (\<lambda>b k. b OR NOT k) [10, 1, 2, 0] m)"
  using LastIP_matches_IPNet [of "\<lparr>pfx_addr = Addr4 [10, 1, 2, 0], pfx_bits = 20\<rparr>"]
  by (auto simp: IsValid_def BitLen_def PrefixToIPNet_def)

end
