(* ===== verification/Startup.thy ===== *)
theory Startup
  imports Config IpUtil
begin

text \<open>
  What \<open>main\<close> computes before the first connection: the server's address and port, and the two
  packet sizes derived from the MTU of the link towards it (\<open>deriveTunnelMTU\<close>), which later
  configure the QUIC connection and, with the \<open>TUNNEL_MTU\<close> override, the TUN link. Name
  resolution, address parsing and netlink are parameters.
\<close>

section \<open>Packet sizes\<close>

definition xdpNativeMaxMTU :: int where
  "xdpNativeMaxMTU = 3506"

definition outerOverhead :: int where
  "outerOverhead = 56"

definition datagramOverhead :: int where
  "datagramOverhead = 28"

definition maxQUICPacket :: int where
  "maxQUICPacket = 4000"

record mtus =
  clientTunnelMTU :: int
  clientInitialPacketSize :: int

definition mtus_init :: mtus where
  "mtus_init = \<lparr>clientTunnelMTU = 1420, clientInitialPacketSize = 1452\<rparr>"

text \<open>The MTU of the link towards the server: \<open>routeGet\<close> is the answer of \<open>netlink.RouteGet\<close>, the
  link indices of the routes or an error, and \<open>linkMTU\<close> that of \<open>netlink.LinkByIndex\<close>.\<close>

definition wan_mtu :: "int list option \<Rightarrow> (int \<Rightarrow> int option) \<Rightarrow> int" where
  "wan_mtu routeGet linkMTU =
     (case routeGet of
        Some (i # _) \<Rightarrow> (case linkMTU i of Some m \<Rightarrow> if 0 < m then m else 1500 | None \<Rightarrow> 1500)
      | _ \<Rightarrow> 1500)"

definition deriveTunnelMTU :: "int list option \<Rightarrow> (int \<Rightarrow> int option) \<Rightarrow> mtus \<Rightarrow> mtus" where
  "deriveTunnelMTU routeGet linkMTU st =
     (let eff = wan_mtu routeGet linkMTU;
          eff = (if xdpNativeMaxMTU < eff then xdpNativeMaxMTU else eff);
          ips = eff - outerOverhead;
          ips = (if maxQUICPacket < ips then maxQUICPacket else ips);
          ips = (if ips < 1252 then 1252 else ips);
          inner = ips - datagramOverhead;
          inner = (if inner < 576 then 576 else inner)
      in st\<lparr>clientInitialPacketSize := ips, clientTunnelMTU := inner\<rparr>)"

text \<open>The MTU set on the TUN link: \<open>int(m)\<close> of an unsigned 64-bit number.\<close>

definition tun_link_mtu :: "ctx \<Rightarrow> mtus \<Rightarrow> int" where
  "tun_link_mtu ctx st =
     (case ctx_Value ctx ''TUNNEL_MTU'' of
        None \<Rightarrow> clientTunnelMTU st
      | Some v \<Rightarrow>
          let (m, perr) = ParseUint v 64 in
          if perr = None \<and> 576 \<le> m then sint (word_of_nat m :: u64) else clientTunnelMTU st)"

record quicConfig =
  EnableDatagrams :: bool
  InitialPacketSize :: u16
  MaxIdleTimeout :: duration
  KeepAlivePeriod :: duration
  InitialStreamReceiveWindow :: int
  MaxStreamReceiveWindow :: int
  InitialConnectionReceiveWindow :: int
  MaxConnectionReceiveWindow :: int

definition quic_config :: "mtus \<Rightarrow> quicConfig" where
  "quic_config st =
     \<lparr>EnableDatagrams = True,
      InitialPacketSize = word_of_int (clientInitialPacketSize st),
      MaxIdleTimeout = 30 * Second,
      KeepAlivePeriod = 10 * Second,
      InitialStreamReceiveWindow = 10 * 1024 * 1024,
      MaxStreamReceiveWindow = 10 * 1024 * 1024,
      InitialConnectionReceiveWindow = 15 * 1024 * 1024,
      MaxConnectionReceiveWindow = 15 * 1024 * 1024\<rparr>"

section \<open>The server\<close>

text \<open>\<open>SERVER\<close> is a host, optionally followed by a colon and a port; \<open>None\<close> is the fatal exit.\<close>

definition parse_server :: "string \<Rightarrow> (string \<times> int) option" where
  "parse_server serverInfo =
     (case index_byte serverInfo (CHR '':'') of
        None \<Rightarrow> Some (serverInfo, 443)
      | Some portIndex \<Rightarrow>
          let host = take portIndex serverInfo;
              (port, err) = Atoi (drop (portIndex + 1) serverInfo)
          in if err \<noteq> None then None else Some (host, port))"

text \<open>
  \<open>parseAddr\<close> is \<open>netip.ParseAddr\<close>, \<open>lookupIP\<close> is \<open>net.LookupIP\<close> with its addresses
  converted and \<open>addrString\<close> prints an address; the result is the context extended by
  \<open>SERVER_IP\<close>, the address and the port \<open>uint16(serverPort)\<close>, \<open>None\<close> when the process exits
  or panics.
\<close>

definition server_addr ::
  "(string \<Rightarrow> Addr option) \<Rightarrow> (string \<Rightarrow> Addr list option) \<Rightarrow> (Addr \<Rightarrow> string) \<Rightarrow> ctx
    \<Rightarrow> (ctx \<times> Addr \<times> u16) option" where
  "server_addr parseAddr lookupIP addrString ctx = do {
     serverInfo \<leftarrow> ctx_Value ctx ''SERVER'';
     (serverHost, serverPort) \<leftarrow> parse_server serverInfo;
     serverIp \<leftarrow> (case parseAddr serverHost of
                   Some ip \<Rightarrow> Some ip
                 | None \<Rightarrow> do { ips \<leftarrow> lookupIP serverHost; go_index ips 0 });
     Some (WithValue ctx ''SERVER_IP'' (addrString serverIp), serverIp, word_of_int serverPort)
   }"

section \<open>Properties\<close>

text \<open>C37: whatever the routing lookup answers, the derived sizes lie in their bounds: the QUIC packet
  size is between 1252 and 3450 and fits the 16-bit configuration field unchanged, the TUN MTU is
  exactly the 28 bytes of \<open>datagramOverhead\<close> smaller, and the outer IP packet (28 bytes of IP and UDP
  header more) fits the link exactly when the link MTU is at least 1280; the margin is 28 bytes
  from 1308 up to the XDP limit. A 1500-byte link, which is also what an unresolved route counts as,
  gives 1444 and 1416. Whether 28 bytes are enough is a matter of the QUIC library: by the budget in
  the comment above the use of the MTU (type byte 1, connection id 20, AEAD 16, two varints), 39
  bytes would be needed, and the TUN MTU is always 11 bytes too large.\<close>

theorem deriveTunnelMTU_safe:
  "(let m = wan_mtu routeGet linkMTU; r = deriveTunnelMTU routeGet linkMTU st;
        ips = clientInitialPacketSize r
    in 1252 \<le> ips \<and> ips \<le> 3450 \<and> clientTunnelMTU r = ips - 28
       \<and> clientTunnelMTU r = (ips - 1 - 20 - 16 - 1 - 1) + 11
       \<and> uint (InitialPacketSize (quic_config r)) = ips
       \<and> (ips + 28 \<le> m) = (1280 \<le> m)
       \<and> (ips + 56 = m) = (1308 \<le> m \<and> m \<le> 3506)
       \<and> (if m = 1500 then ips = 1444 \<and> clientTunnelMTU r = 1416 else True))
   \<and> wan_mtu None linkMTU = 1500"
  by (simp add: deriveTunnelMTU_def Let_def xdpNativeMaxMTU_def outerOverhead_def maxQUICPacket_def
      datagramOverhead_def quic_config_def unsigned_of_int take_bit_int_eq_self wan_mtu_def [of None])

text \<open>C38: the \<open>SERVER\<close> setting is read back from host and port: a host without a colon stands for
  port 443, a host followed by a colon and a decimal port gives that port, reduced modulo 65536
  when it is out of range. A host that is an address is used as it is, any other resolves to the
  first address of the lookup; the address becomes \<open>SERVER_IP\<close> and every other setting is kept.\<close>

theorem server_addr_round_trip:
  assumes "CHR '':'' \<notin> set host" and "- (2 ^ 63) \<le> port" and "port < 2 ^ 63"
    and "parseAddr host = Some ip \<or> parseAddr host = None \<and> lookupIP host = Some (ip # ips)"
    and "ctx_Value ctx ''SERVER'' = Some (host @ (if explicit then '':'' @ Itoa port else ''''))"
  shows "\<exists>c p. server_addr parseAddr lookupIP addrString ctx = Some (c, ip, p)
    \<and> uint p = (if explicit then port mod 65536 else 443)
    \<and> ctx_Value c = (ctx_Value ctx)(''SERVER_IP'' \<mapsto> addrString ip)"
proof -
  have "index_byte host (CHR '':'') = None" using assms(1) by (induction host) auto
  moreover have "index_byte (host @ '':'' @ Itoa port) (CHR '':'') = Some (length host)"
    using assms(1) by (induction host) auto
  ultimately have "parse_server (host @ (if explicit then '':'' @ Itoa port else '''')) =
      Some (host, if explicit then port else 443)"
    using Atoi_Itoa [OF assms(2,3)] by (simp add: parse_server_def)
  then show ?thesis
    using assms(4,5)
    by (auto simp: server_addr_def ctx_Value_def WithValue_def unsigned_of_int take_bit_eq_mod fun_eq_iff)
qed

theorem server_addr_round_trip_witness:
  "\<exists>c p. server_addr (\<lambda>_. Some (Addr4 [10, 0, 0, 1])) (\<lambda>_. None) (\<lambda>_. ''10.0.0.1'')
        [(''SERVER'', ''vpn'' @ '':'' @ Itoa 8443)] = Some (c, Addr4 [10, 0, 0, 1], p)
     \<and> uint p = 8443 \<and> ctx_Value c ''SERVER_IP'' = Some ''10.0.0.1''"
proof -
  have "ctx_Value [(''SERVER'', ''vpn'' @ '':'' @ Itoa 8443)] ''SERVER'' =
      Some (''vpn'' @ (if True then '':'' @ Itoa 8443 else ''''))"
    by (simp add: ctx_Value_def)
  from server_addr_round_trip [where host = "''vpn''" and port = 8443 and parseAddr = "\<lambda>_. Some (Addr4 [10, 0, 0, 1])"
      and ip = "Addr4 [10, 0, 0, 1]", OF _ _ _ _ this]
  show ?thesis by fastforce
qed

end
