(* ===== verification/Establish.thy ===== *)
theory Establish
  imports Host Startup
begin

text \<open>
  Bringing up the bonded tunnels: \<open>establishMASQUEConn\<close>, \<open>establishTunTapAndRoutes\<close> and
  \<open>establishAllTunnels\<close> of \<open>main.go\<close>. The network, the TUN driver and netlink are parameters:
  a \<open>dial_env\<close> and a \<open>tun_env\<close> say what each call of an attempt answers. The model tracks the objects
  the program has created and not closed itself (UDP sockets, QUIC connections, connect-ip
  connections, TUN queues), so that the theorems can say what a failed attempt leaves behind. The
  program calls \<open>Close\<close> on connect-ip connections and TUN queues only; what the connect-ip library's
  \<open>Close\<close> does to the QUIC connection under it is not part of the model.
\<close>

section \<open>State and environment\<close>

record 'h world =
  host :: 'h
  socks :: "nat list"
  quics :: "nat list"
  ipconns :: "nat list"
  tuns :: "nat list"
  keylogs :: "string list"
  fullTunnel :: bool
  link_mtu :: "int option"
  tun_gso :: bool

text \<open>The answers of one dial; \<open>dial_id\<close> names the objects it creates.\<close>

record dial_env =
  dial_id :: nat
  listen_ok :: bool
  is_udp :: bool
  cert_ok :: bool
  pool_ok :: bool
  ca_ok :: bool
  keylog_ok :: bool
  quic_ok :: bool
  connectip_ok :: bool
  status :: nat
  routes_of :: "string list list option"
  prefixes_of :: "string list option"

record tun_env =
  tun_id :: "nat \<Rightarrow> nat"
  tun_ok :: "nat \<Rightarrow> bool"
  dev_name :: string
  link_ok :: bool
  mtu_ok :: bool
  nil_link_panics :: bool
  addr_added :: "string \<Rightarrow> bool"
  up_ok :: bool
  numCPU :: nat

text \<open>How a step ends: with a value, an error, or the end of the process (exit or panic).\<close>

datatype ('w, 'a) result = Ok 'a 'w | Err 'w | Ended 'w

section \<open>One connection\<close>

definition establishMASQUEConn ::
  "ctx \<Rightarrow> string \<Rightarrow> dial_env \<Rightarrow> 'h world \<Rightarrow> ('h world, string list list \<times> string list \<times> nat) result" where
  "establishMASQUEConn ctx keyLogPath e w =
     (case ctx_Value ctx ''FWMARK'' of
        None \<Rightarrow> Ended w
      | Some mark \<Rightarrow>
          if snd (ParseInt mark 32) \<noteq> None then Err w
          else if \<not> listen_ok e then Err w
          else
            let w = w\<lparr>socks := dial_id e # socks w\<rparr> in
            if \<not> is_udp e then Err w
            else if \<not> (cert_ok e \<and> pool_ok e \<and> ca_ok e) then Ended w
            else
              let w = (if keyLogPath \<noteq> '''' \<and> keylog_ok e then w\<lparr>keylogs := keyLogPath # keylogs w\<rparr> else w)
              in if \<not> quic_ok e then Err w
                 else
                   let w = w\<lparr>quics := dial_id e # quics w\<rparr> in
                   if \<not> connectip_ok e then Err w
                   else
                     let w = w\<lparr>ipconns := dial_id e # ipconns w\<rparr> in
                     if status e \<noteq> 200 then Err w
                     else
                       (case routes_of e of
                          None \<Rightarrow> Err w
                        | Some rs \<Rightarrow>
                            (case prefixes_of e of
                               None \<Rightarrow> Err w
                             | Some ps \<Rightarrow> Ok (rs, ps, dial_id e) w)))"

definition close_ipconn :: "nat \<Rightarrow> 'h world \<Rightarrow> 'h world" where
  "close_ipconn c w = w\<lparr>ipconns := filter (\<lambda>d. d \<noteq> c) (ipconns w)\<rparr>"

definition close_tun :: "nat \<Rightarrow> 'h world \<Rightarrow> 'h world" where
  "close_tun d w = w\<lparr>tuns := filter (\<lambda>x. x \<noteq> d) (tuns w)\<rparr>"

section \<open>The TUN device and the routes\<close>

definition num_queues :: "ctx \<Rightarrow> nat \<Rightarrow> nat" where
  "num_queues ctx cpus =
     (case ctx_Value ctx ''TUN_QUEUES'' of
        None \<Rightarrow> cpus
      | Some v \<Rightarrow> let (n, perr) = Atoi v in if perr = None \<and> 0 < n then nat n else cpus)"

text \<open>Open queues \<open>i, i + 1, ...\<close> (\<open>k\<close> of them).\<close>

fun open_queues :: "tun_env \<Rightarrow> nat \<Rightarrow> nat \<Rightarrow> 'h world \<Rightarrow> ('h world, nat list) result" where
  "open_queues t i 0 w = Ok [] w"
| "open_queues t i (Suc k) w =
     (if \<not> tun_ok t i then Err w
      else case open_queues t (Suc i) k (w\<lparr>tuns := tun_id t i # tuns w\<rparr>) of
             Ok ds w' \<Rightarrow> Ok (tun_id t i # ds) w'
           | Err w' \<Rightarrow> Err w'
           | Ended w' \<Rightarrow> Ended w')"

fun add_routes :: "'h os \<Rightarrow> string \<Rightarrow> string list \<Rightarrow> 'h world \<Rightarrow> ('h world, unit) result" where
  "add_routes os dev [] w = Ok () w"
| "add_routes os dev (p # ps) w =
     (let w = (if p = ''0.0.0.0/0'' then w\<lparr>fullTunnel := True\<rparr> else w);
          (h, ok) = os_run os (replace_cmd p dev) (host w);
          w = w\<lparr>host := h\<rparr>
      in if ok then add_routes os dev ps w else Err w)"

definition gso_requested :: "ctx \<Rightarrow> bool" where
  "gso_requested ctx = (case ctx_Value ctx ''TUN_GSO'' of None \<Rightarrow> False | Some v \<Rightarrow> v = ''true'')"

text \<open>\<open>netlink.LinkSetMTU\<close> on an existing link, whose error is ignored.\<close>

definition LinkSetMTU :: "tun_env \<Rightarrow> int \<Rightarrow> 'h world \<Rightarrow> 'h world" where
  "LinkSetMTU t mtu w = (if mtu_ok t then w\<lparr>link_mtu := Some mtu\<rparr> else w)"

definition establishTunTapAndRoutes ::
  "'h os \<Rightarrow> ctx \<Rightarrow> mtus \<Rightarrow> tun_env \<Rightarrow> string list list \<Rightarrow> string list \<Rightarrow> 'h world
    \<Rightarrow> ('h world, nat list) result" where
  "establishTunTapAndRoutes os ctx m t routes localPrefixes w =
     (case open_queues t 0 (num_queues ctx (numCPU t)) (w\<lparr>tun_gso := gso_requested ctx\<rparr>) of
        Err w \<Rightarrow> Err w
      | Ended w \<Rightarrow> Ended w
      | Ok devs w \<Rightarrow>
          if \<not> link_ok t then (if nil_link_panics t then Ended w else Err w)
          else
            let w = LinkSetMTU t (tun_link_mtu ctx m) w in
            if \<not> list_all (addr_added t) localPrefixes then Err w
            else if \<not> up_ok t then Err w
            else
              (case add_routes os (dev_name t) (concat routes) (w\<lparr>fullTunnel := False\<rparr>) of
                 Err w \<Rightarrow> Err w
               | Ended w \<Rightarrow> Ended w
               | Ok _ w \<Rightarrow>
                   (case Bootstrap os ctx (fullTunnel w) (host w) of
                      Running h \<Rightarrow> Ok devs (w\<lparr>host := h\<rparr>)
                    | Exited h \<Rightarrow> Ended (w\<lparr>host := h\<rparr>)
                    | Panicked h \<Rightarrow> Ended (w\<lparr>host := h\<rparr>))))"

section \<open>All tunnels\<close>

fun more_tunnels ::
  "ctx \<Rightarrow> string \<Rightarrow> dial_env list \<Rightarrow> nat list \<Rightarrow> nat list \<Rightarrow> 'h world \<Rightarrow> ('h world, nat list) result" where
  "more_tunnels ctx kl [] conns devs w = Ok conns w"
| "more_tunnels ctx kl (e # es) conns devs w =
     (case establishMASQUEConn ctx kl e w of
        Err w \<Rightarrow> Err (fold close_tun devs (fold close_ipconn conns w))
      | Ended w \<Rightarrow> Ended w
      | Ok (_, _, c) w \<Rightarrow> more_tunnels ctx kl es (conns @ [c]) devs w)"

text \<open>The environments of the dials are a list, one for each of the tunnels.\<close>

definition establishAllTunnels ::
  "'h os \<Rightarrow> ctx \<Rightarrow> mtus \<Rightarrow> string \<Rightarrow> dial_env \<Rightarrow> dial_env list \<Rightarrow> tun_env \<Rightarrow> 'h world
    \<Rightarrow> ('h world, nat list \<times> nat list) result" where
  "establishAllTunnels os ctx m kl e0 es t w =
     (case establishMASQUEConn ctx kl e0 w of
        Err w \<Rightarrow> Err w
      | Ended w \<Rightarrow> Ended w
      | Ok (routes, localPrefixes, c0) w \<Rightarrow>
          (case establishTunTapAndRoutes os ctx m t routes localPrefixes w of
             Err w \<Rightarrow> Err (close_ipconn c0 w)
           | Ended w \<Rightarrow> Ended w
           | Ok devs w \<Rightarrow>
               (case more_tunnels ctx kl es [c0] devs w of
                  Err w \<Rightarrow> Err w
                | Ended w \<Rightarrow> Ended w
                | Ok conns w \<Rightarrow> Ok (conns, devs) w)))"

section \<open>Lemmas\<close>

lemma open_queues_Ok:
  "open_queues t i k w = Ok ds w' \<Longrightarrow>
     ds = map (tun_id t) [i..<i + k] \<and> w' = w\<lparr>tuns := rev ds @ tuns w\<rparr>"
proof (induction t i k w arbitrary: ds w' rule: open_queues.induct)
  case (2 t i k w)
  from 2(2) obtain ds1 where ok: "tun_ok t i"
    and r: "open_queues t (Suc i) k (w\<lparr>tuns := tun_id t i # tuns w\<rparr>) = Ok ds1 w'"
    and ds: "ds = tun_id t i # ds1"
    by (auto split: if_splits result.splits)
  from 2(1) [OF _ r] ok show ?case by (simp add: ds upt_rec)
qed simp

lemma open_queues_all: "(\<forall>j. i \<le> j \<and> j < i + k \<longrightarrow> tun_ok t j) \<Longrightarrow>
  open_queues t i k w = Ok (map (tun_id t) [i..<i + k]) (w\<lparr>tuns := rev (map (tun_id t) [i..<i + k]) @ tuns w\<rparr>)"
proof (induction k arbitrary: i w)
  case (Suc k)
  then have "open_queues t (Suc i) k (w\<lparr>tuns := tun_id t i # tuns w\<rparr>) =
      Ok (map (tun_id t) [Suc i..<Suc i + k])
        (w\<lparr>tuns := rev (map (tun_id t) [Suc i..<Suc i + k]) @ tun_id t i # tuns w\<rparr>)"
    using Suc.IH [of "Suc i"] by simp
  then show ?case using Suc.prems by (simp add: upt_rec [of i])
qed simp

text \<open>The connections, sockets and queues are not touched by the route setup.\<close>

abbreviation handles :: "'h world \<Rightarrow> nat list \<times> nat list \<times> nat list \<times> nat list" where
  "handles w \<equiv> (socks w, quics w, ipconns w, tuns w)"

fun final :: "('w, 'a) result \<Rightarrow> 'w" where
  "final (Ok a w) = w"
| "final (Err w) = w"
| "final (Ended w) = w"

lemma add_routes_held: "handles (final (add_routes os dev ps w)) = handles w"
  by (induction ps arbitrary: w) (simp_all add: Let_def case_prod_beta)

lemma add_routes_Ok:
  assumes "add_routes os dev ps w = Ok u w'" and "ip_spec os view"
  shows "fullTunnel w' = (fullTunnel w \<or> ''0.0.0.0/0'' \<in> set ps)"
    and "(\<forall>p\<in>set ps. (p, dev) \<in> routes9000 (view (host w')))"
    and "n9000 (view (host w')) = n9000 (view (host w))" and "nsupp (view (host w')) = nsupp (view (host w))"
    and "q \<notin> set ps \<Longrightarrow> (q, d) \<in> routes9000 (view (host w')) \<longleftrightarrow> (q, d) \<in> routes9000 (view (host w))"
    and "link_mtu w' = link_mtu w" and "tun_gso w' = tun_gso w"
proof -
  have "fullTunnel w' = (fullTunnel w \<or> ''0.0.0.0/0'' \<in> set ps)
    \<and> (\<forall>q. (\<forall>p\<in>set ps. p \<noteq> q) \<longrightarrow> (\<forall>d. (q, d) \<in> routes9000 (view (host w')) \<longleftrightarrow> (q, d) \<in> routes9000 (view (host w))))
    \<and> (\<forall>p\<in>set ps. (p, dev) \<in> routes9000 (view (host w')))
    \<and> n9000 (view (host w')) = n9000 (view (host w)) \<and> nsupp (view (host w')) = nsupp (view (host w))
    \<and> link_mtu w' = link_mtu w \<and> tun_gso w' = tun_gso w"
    using assms(1)
  proof (induction ps arbitrary: w)
    case (Cons p ps)
    define v where "v = (if p = ''0.0.0.0/0'' then w\<lparr>fullTunnel := True\<rparr> else w)
      \<lparr>host := fst (os_run os (replace_cmd p dev) (host w))\<rparr>"
    have ok: "snd (os_run os (replace_cmd p dev) (host w))" and r: "add_routes os dev ps v = Ok u w'"
      using Cons.prems by (auto simp: Let_def case_prod_beta v_def split: if_splits)
    have view: "view (host v) = (view (host w))
        \<lparr>routes9000 := insert (p, dev) {r \<in> routes9000 (view (host w)). fst r \<noteq> p}\<rparr>"
      using ok by (simp add: v_def ip_spec_simps [OF assms(2)])
    have v: "fullTunnel v = (fullTunnel w \<or> ''0.0.0.0/0'' = p)" "link_mtu v = link_mtu w"
      "tun_gso v = tun_gso w"
      by (auto simp: v_def)
    note IH = Cons.IH [OF r]
    have "(p, dev) \<in> routes9000 (view (host w'))"
      using IH view by (cases "p \<in> set ps") auto
    then show ?case using IH view v by auto
  qed simp
  then show "fullTunnel w' = (fullTunnel w \<or> ''0.0.0.0/0'' \<in> set ps)"
    and "(\<forall>p\<in>set ps. (p, dev) \<in> routes9000 (view (host w')))"
    and "n9000 (view (host w')) = n9000 (view (host w))" and "nsupp (view (host w')) = nsupp (view (host w))"
    and "q \<notin> set ps \<Longrightarrow> (q, d) \<in> routes9000 (view (host w')) \<longleftrightarrow> (q, d) \<in> routes9000 (view (host w))"
    and "link_mtu w' = link_mtu w" and "tun_gso w' = tun_gso w"
    by auto
qed

lemma establishMASQUEConn_Ok:
  assumes "establishMASQUEConn ctx kl e w = Ok (rs, ps, c) w'"
  shows "c = dial_id e \<and> routes_of e = Some rs \<and> prefixes_of e = Some ps
    \<and> handles w' = (c # socks w, c # quics w, c # ipconns w, tuns w) \<and> host w' = host w
    \<and> link_mtu w' = link_mtu w \<and> tun_gso w' = tun_gso w"
  using assms by (auto simp: establishMASQUEConn_def Let_def split: option.splits if_splits)

lemma Bootstrap_rules:
  assumes "ip_spec os view"
  shows "Bootstrap os ctx full h = Running h' \<Longrightarrow> view h' = bootstrapped (view h) 1 (if full then 1 else 0)"
  using Bootstrap_view [OF assms, where ctx = ctx and full = full and h = h] by simp

lemma more_tunnels_Ok:
  "more_tunnels ctx kl es cs ds w = Ok conns w' \<Longrightarrow>
     conns = cs @ map dial_id es \<and> ipconns w' = rev (map dial_id es) @ ipconns w \<and> tuns w' = tuns w
     \<and> host w' = host w \<and> link_mtu w' = link_mtu w \<and> tun_gso w' = tun_gso w"
proof (induction es arbitrary: cs w)
  case (Cons e es)
  from Cons.prems obtain rs ps c w1 where m: "establishMASQUEConn ctx kl e w = Ok (rs, ps, c) w1"
    and r: "more_tunnels ctx kl es (cs @ [c]) ds w1 = Ok conns w'"
    by (auto split: result.splits)
  from Cons.IH [OF r] establishMASQUEConn_Ok [OF m] show ?case by simp
qed simp

lemma close_tuns: "fold close_tun ds w = w\<lparr>tuns := filter (\<lambda>x. x \<notin> set ds) (tuns w)\<rparr>"
  by (induction ds arbitrary: w) (simp_all add: close_tun_def conj_commute)

lemma close_ipconns: "fold close_ipconn cs w = w\<lparr>ipconns := filter (\<lambda>x. x \<notin> set cs) (ipconns w)\<rparr>"
  by (induction cs arbitrary: w) (simp_all add: close_ipconn_def conj_commute)

lemma establishTunTapAndRoutes_Ok:
  assumes "establishTunTapAndRoutes os ctx m t rs ps w = Ok devs w'" and "ip_spec os view"
  shows "devs = map (tun_id t) [0..<num_queues ctx (numCPU t)]"
    and "handles w' = (socks w, quics w, ipconns w, rev devs @ tuns w)"
    and "fullTunnel w' = (''0.0.0.0/0'' \<in> set (concat rs))"
    and "\<forall>p\<in>set (concat rs). (p, dev_name t) \<in> routes9000 (view (host w'))"
    and "n9000 (view (host w')) = n9000 (view (host w)) - 64 + 1"
    and "nsupp (view (host w')) = nsupp (view (host w)) - 8 + (if fullTunnel w' then 1 else 0)"
    and "link_mtu w' = (if mtu_ok t then Some (tun_link_mtu ctx m) else link_mtu w)"
    and "tun_gso w' = gso_requested ctx"
proof -
  obtain w1 w2 h where q: "open_queues t 0 (num_queues ctx (numCPU t)) (w\<lparr>tun_gso := gso_requested ctx\<rparr>) = Ok devs w1"
    and r: "add_routes os (dev_name t) (concat rs)
        ((LinkSetMTU t (tun_link_mtu ctx m) w1)\<lparr>fullTunnel := False\<rparr>) = Ok () w2"
    and b: "Bootstrap os ctx (fullTunnel w2) (host w2) = Running h" and w': "w' = w2\<lparr>host := h\<rparr>"
    using assms(1)
    by (auto simp: establishTunTapAndRoutes_def Let_def split: result.splits if_splits proc.splits)
  note q = open_queues_Ok [OF q]
  show "devs = map (tun_id t) [0..<num_queues ctx (numCPU t)]" using q by simp
  note rt = add_routes_Ok [OF r assms(2)]
  have "handles w2 = handles w1"
    using add_routes_held [of os "dev_name t" "concat rs"
        "(LinkSetMTU t (tun_link_mtu ctx m) w1)\<lparr>fullTunnel := False\<rparr>"] r
    by (simp add: LinkSetMTU_def)
  then show "handles w' = (socks w, quics w, ipconns w, rev devs @ tuns w)" using q by (simp add: w')
  show full: "fullTunnel w' = (''0.0.0.0/0'' \<in> set (concat rs))" using rt(1) by (simp add: w')
  have "view h = bootstrapped (view (host w2)) 1 (if fullTunnel w2 then 1 else 0)"
    by (rule Bootstrap_rules [OF assms(2) b])
  then show "\<forall>p\<in>set (concat rs). (p, dev_name t) \<in> routes9000 (view (host w'))"
    and "n9000 (view (host w')) = n9000 (view (host w)) - 64 + 1"
    and "nsupp (view (host w')) = nsupp (view (host w)) - 8 + (if fullTunnel w' then 1 else 0)"
    using rt(2-4) q by (simp_all add: w' bootstrapped_def LinkSetMTU_def)
  show "link_mtu w' = (if mtu_ok t then Some (tun_link_mtu ctx m) else link_mtu w)"
    and "tun_gso w' = gso_requested ctx"
    using rt(6,7) q by (simp_all add: w' LinkSetMTU_def)
qed

lemma establishMASQUEConn_Err:
  assumes "establishMASQUEConn ctx kl e w = Err w'"
  shows "tuns w' = tuns w \<and> (ipconns w' = ipconns w \<or> ipconns w' = dial_id e # ipconns w)"
  using assms by (auto simp: establishMASQUEConn_def Let_def split: option.splits if_splits)

lemma more_tunnels_Err:
  assumes "more_tunnels ctx kl es cs ds w = Err w'"
  shows "\<exists>es1 e es2. es = es1 @ e # es2 \<and> tuns w' = filter (\<lambda>x. x \<notin> set ds) (tuns w)
    \<and> ipconns w' \<in> (\<lambda>cl. filter (\<lambda>x. x \<notin> set (cs @ map dial_id es1)) cl) `
        {rev (map dial_id es1) @ ipconns w, dial_id e # rev (map dial_id es1) @ ipconns w}"
  using assms
proof (induction es arbitrary: cs w)
  case (Cons e es)
  show ?case
  proof (cases "establishMASQUEConn ctx kl e w")
    case (Ok a w1)
    obtain rs ps c where a: "a = (rs, ps, c)" by (cases a)
    note m = establishMASQUEConn_Ok [OF Ok [unfolded a]]
    from Cons.prems have "more_tunnels ctx kl es (cs @ [c]) ds w1 = Err w'" by (simp add: Ok a)
    from Cons.IH [OF this] obtain es1 e1 es2 where "es = es1 @ e1 # es2"
      "tuns w' = filter (\<lambda>x. x \<notin> set ds) (tuns w)"
      "ipconns w' \<in> (\<lambda>cl. filter (\<lambda>x. x \<notin> set ((cs @ [c]) @ map dial_id es1)) cl) `
        {rev (map dial_id es1) @ ipconns w1, dial_id e1 # rev (map dial_id es1) @ ipconns w1}"
      using m by auto
    then show ?thesis
      using m by (intro exI [of _ "e # es1"] exI [of _ e1] exI [of _ es2]) auto
  next
    case (Err w1)
    from establishMASQUEConn_Err [OF Err] Cons.prems show ?thesis
      by (intro exI [of _ "[]"] exI [of _ e] exI [of _ es]) (auto simp: Err close_tuns close_ipconns)
  qed (use Cons.prems in simp)
qed simp

lemma establishAllTunnels_Ok_rules:
  assumes "ip_spec os view" and "establishAllTunnels os ctx m kl e0 es t w = Ok (conns, devs) w'"
  shows "n9000 (view (host w')) = n9000 (view (host w)) - 64 + 1"
proof -
  obtain rs ps c0 w1 w2 where d: "establishMASQUEConn ctx kl e0 w = Ok (rs, ps, c0) w1"
    and u: "establishTunTapAndRoutes os ctx m t rs ps w1 = Ok devs w2"
    and mt: "more_tunnels ctx kl es [c0] devs w2 = Ok conns w'"
    using assms(2) by (auto simp: establishAllTunnels_def split: result.splits)
  show ?thesis
    using establishMASQUEConn_Ok [OF d] establishTunTapAndRoutes_Ok(5) [OF u assms(1)]
      more_tunnels_Ok [OF mt]
    by simp
qed

section \<open>Properties\<close>


definition demo_dial :: "nat \<Rightarrow> bool \<Rightarrow> dial_env" where
  "demo_dial i q =
     \<lparr>dial_id = i, listen_ok = True, is_udp = True, cert_ok = True, pool_ok = True, ca_ok = True,
      keylog_ok = True, quic_ok = q, connectip_ok = True, status = 200,
      routes_of = Some [[''0.0.0.0/0'']], prefixes_of = Some [''10.0.0.2/32'']\<rparr>"

definition demo_tun :: "bool \<Rightarrow> tun_env" where
  "demo_tun up =
     \<lparr>tun_id = (\<lambda>i. 100 + i), tun_ok = (\<lambda>_. True), dev_name = ''tun0'', link_ok = True, mtu_ok = True,
      nil_link_panics = True, addr_added = (\<lambda>_. True), up_ok = up, numCPU = 2\<rparr>"

definition demo_world :: "demo_host world" where
  "demo_world =
     \<lparr>host = (\<lparr>n9000 = 0, nsupp = 0, routes9000 = {}\<rparr>, Map.empty), socks = [], quics = [], ipconns = [],
      tuns = [], keylogs = [], fullTunnel = False, link_mtu = None, tun_gso = False\<rparr>"

definition demo_ctx :: ctx where
  "demo_ctx = [(''FWMARK'', ''7'')]"

lemma demo_mark: "snd (ParseInt ''7'' 32) = None"
  by (simp add: ParseInt_def ParseUint_def digit_val_def less_eq_char_def)

lemma demo_bootstrap: "\<exists>h'. Bootstrap demo_os demo_ctx b h = Running h'"
  by (auto simp: Bootstrap_def demo_ctx_def Let_def ctx_Value_def demo_os_def demo_run_def
      case_prod_beta add9000_cmd_def addSuppress_cmd_def del9000_cmd_def delSuppress_cmd_def
      flush_cmd_def is_ip_def)

lemma demo_conn:
  "establishMASQUEConn demo_ctx '''' (demo_dial i True) w =
     Ok ([[''0.0.0.0/0'']], [''10.0.0.2/32''], i)
       (w\<lparr>socks := i # socks w, quics := i # quics w, ipconns := i # ipconns w\<rparr>)"
  by (simp add: establishMASQUEConn_def demo_dial_def demo_ctx_def ctx_Value_def demo_mark)

lemma demo_routes: "\<exists>w2. add_routes demo_os dev ps w = Ok () w2"
proof (induction ps arbitrary: w)
  case (Cons p ps)
  have "snd (os_run demo_os (replace_cmd p dev) h)" for h
    by (simp add: demo_os_def demo_run_def replace_cmd_def is_ip_def del9000_cmd_def
        delSuppress_cmd_def flush_cmd_def addSuppress_cmd_def Let_def)
  then show ?case using Cons by (simp add: Let_def case_prod_beta)
qed simp

lemma demo_tuntap:
  "\<exists>devs w'. establishTunTapAndRoutes demo_os demo_ctx mtus_init (demo_tun True) [[''0.0.0.0/0'']]
     [''10.0.0.2/32''] w = Ok devs w'"
proof -
  let ?v = "w\<lparr>tun_gso := gso_requested demo_ctx\<rparr>"
  let ?w = "?v\<lparr>tuns := rev (map (tun_id (demo_tun True)) [0..<2]) @ tuns w\<rparr>"
  have n: "num_queues demo_ctx (numCPU (demo_tun True)) = 2"
    by (simp add: num_queues_def demo_ctx_def ctx_Value_def demo_tun_def)
  have q: "open_queues (demo_tun True) 0 2 ?v = Ok (map (tun_id (demo_tun True)) [0..<2]) ?w"
    using open_queues_all [where i = 0 and k = 2 and t = "demo_tun True" and w = ?v]
    unfolding add_0 by (simp add: demo_tun_def del: upt_conv_Cons)
  obtain w2 where r: "add_routes demo_os ''tun0'' (concat [[''0.0.0.0/0'']])
      ((LinkSetMTU (demo_tun True) (tun_link_mtu demo_ctx mtus_init) ?w)\<lparr>fullTunnel := False\<rparr>) = Ok () w2"
    using demo_routes by blast
  obtain h where b: "Bootstrap demo_os demo_ctx (fullTunnel w2) (host w2) = Running h"
    using demo_bootstrap by blast
  have t: "dev_name (demo_tun True) = ''tun0''" "link_ok (demo_tun True)" "up_ok (demo_tun True)"
    "addr_added (demo_tun True) a" for a
    by (simp_all add: demo_tun_def)
  then show ?thesis
    unfolding establishTunTapAndRoutes_def n q result.case Let_def t(1) r by (simp add: b)
qed


text \<open>C27: when a later tunnel cannot be brought up, the earlier connections and all TUN queues of the
  attempt are closed again: the queues that are open are those that were open before, and of the
  connections at most the one whose own setup failed remains.\<close>

theorem establishAllTunnels_tears_down:
  assumes "establishMASQUEConn ctx kl e0 w = Ok (rs, ps, c0) w1"
    and "establishTunTapAndRoutes os ctx m t rs ps w1 = Ok devs w2" and "ip_spec os view"
    and "establishAllTunnels os ctx m kl e0 es t w = Err w'"
    and "distinct (map dial_id (e0 # es) @ ipconns w)" and "set devs \<inter> set (tuns w) = {}"
  shows "tuns w' = tuns w
    \<and> (ipconns w' = ipconns w \<or> (\<exists>e\<in>set es. ipconns w' = dial_id e # ipconns w))"
proof -
  have mt: "more_tunnels ctx kl es [c0] devs w2 = Err w'"
    using assms(1,2,4) by (auto simp: establishAllTunnels_def split: result.splits)
  note d = establishMASQUEConn_Ok [OF assms(1)]
  note u = establishTunTapAndRoutes_Ok(2) [OF assms(2,3)]
  from more_tunnels_Err [OF mt] obtain es1 e es2 where es: "es = es1 @ e # es2"
    and tn: "tuns w' = filter (\<lambda>x. x \<notin> set devs) (tuns w2)"
    and ic: "ipconns w' \<in> (\<lambda>cl. filter (\<lambda>x. x \<notin> set ([c0] @ map dial_id es1)) cl) `
        {rev (map dial_id es1) @ ipconns w2, dial_id e # rev (map dial_id es1) @ ipconns w2}"
    by blast
  have "filter (\<lambda>x. x \<notin> set devs) (tuns w) = tuns w" using assms(6) by (auto simp: filter_id_conv)
  then have "tuns w' = tuns w" using tn d u by (simp add: filter_id_conv)
  moreover have "filter (\<lambda>x. x \<notin> set ([c0] @ map dial_id es1)) (ipconns w) = ipconns w"
    using assms(5) es d by (auto simp: filter_id_conv)
  moreover have "filter (\<lambda>x. x \<notin> set ([c0] @ map dial_id es1)) (rev (map dial_id es1)) = []"
    by (auto simp: filter_empty_conv)
  moreover have "dial_id e \<notin> set ([c0] @ map dial_id es1)" using assms(5) es d by auto
  ultimately show ?thesis using ic d u es by auto
qed

theorem establishAllTunnels_tears_down_witness:
  "\<exists>w'. establishAllTunnels demo_os demo_ctx mtus_init '''' (demo_dial 5 True) [demo_dial 6 False]
       (demo_tun True) demo_world = Err w' \<and> tuns w' = []"
proof -
  let ?w = "demo_world\<lparr>socks := 5 # socks demo_world, quics := 5 # quics demo_world, ipconns := 5 # ipconns demo_world\<rparr>"
  obtain devs w1 where u: "establishTunTapAndRoutes demo_os demo_ctx mtus_init (demo_tun True)
      [[''0.0.0.0/0'']] [''10.0.0.2/32''] ?w = Ok devs w1"
    using demo_tuntap by blast
  have "\<exists>w3. establishMASQUEConn demo_ctx '''' (demo_dial 6 False) w1 = Err w3"
    by (simp add: establishMASQUEConn_def demo_dial_def demo_ctx_def ctx_Value_def demo_mark)
  then obtain w2 where err: "establishAllTunnels demo_os demo_ctx mtus_init '''' (demo_dial 5 True)
      [demo_dial 6 False] (demo_tun True) demo_world = Err w2"
    using u by (auto simp: establishAllTunnels_def demo_conn)
  have fresh: "distinct (map dial_id [demo_dial 5 True, demo_dial 6 False] @ ipconns demo_world)"
    "set devs \<inter> set (tuns demo_world) = {}"
    by (simp_all add: demo_dial_def demo_world_def)
  from establishAllTunnels_tears_down [OF demo_conn u ip_spec_demo err fresh] err show ?thesis
    by (simp add: demo_world_def)
qed

text \<open>C28: a failure while the TUN device is being configured is not undone. When the first
  connection is up, all queues are open and bringing the link up fails, \<open>establishAllTunnels\<close>
  returns an error with the connect-ip connection closed, but every TUN queue, the UDP socket
  and the QUIC connection of the attempt still open.\<close>

theorem establishAllTunnels_leaks_queues:
  assumes "establishMASQUEConn ctx kl e0 w = Ok (rs, ps, c0) w1"
    and "\<forall>j. tun_ok t j" and "link_ok t" and "\<not> up_ok t" and "c0 \<notin> set (ipconns w)"
  shows "\<exists>w'. establishAllTunnels os ctx m kl e0 es t w = Err w'
    \<and> tuns w' = rev (map (tun_id t) [0..<num_queues ctx (numCPU t)]) @ tuns w
    \<and> socks w' = c0 # socks w \<and> quics w' = c0 # quics w \<and> ipconns w' = ipconns w"
proof -
  note d = establishMASQUEConn_Ok [OF assms(1)]
  have "open_queues t 0 (num_queues ctx (numCPU t)) (w1\<lparr>tun_gso := gso_requested ctx\<rparr>) =
      Ok (map (tun_id t) [0..<num_queues ctx (numCPU t)])
        (w1\<lparr>tun_gso := gso_requested ctx, tuns := rev (map (tun_id t) [0..<num_queues ctx (numCPU t)]) @ tuns w1\<rparr>)"
    using open_queues_all [where i = 0 and k = "num_queues ctx (numCPU t)" and t = t and w = "w1\<lparr>tun_gso := gso_requested ctx\<rparr>"] assms(2)
    by simp
  moreover have "filter (\<lambda>d. d \<noteq> c0) (ipconns w) = ipconns w"
    using assms(5) by (auto simp: filter_id_conv)
  ultimately show ?thesis
    using assms(1,3,4) d
    by (simp add: establishAllTunnels_def establishTunTapAndRoutes_def close_ipconn_def LinkSetMTU_def Let_def)
qed

theorem establishAllTunnels_leaks_queues_witness:
  "\<exists>w'. establishAllTunnels demo_os demo_ctx mtus_init '''' (demo_dial 5 True) [] (demo_tun False) demo_world
       = Err w' \<and> tuns w' \<noteq> []"
proof -
  have t: "\<forall>j. tun_ok (demo_tun False) j" "link_ok (demo_tun False)" "\<not> up_ok (demo_tun False)"
    "5 \<notin> set (ipconns demo_world)"
    by (simp_all add: demo_tun_def demo_world_def)
  have "num_queues demo_ctx (numCPU (demo_tun False)) = 2"
    by (simp add: num_queues_def demo_ctx_def ctx_Value_def demo_tun_def)
  with establishAllTunnels_leaks_queues [OF demo_conn t, of demo_os mtus_init "[]"] show ?thesis
    by auto
qed

end
