(* ===== verification/Reconnect.thy ===== *)
theory Reconnect
  imports Establish
begin

text \<open>
  The connection loop of \<open>main\<close>: establish the tunnels, run them until the connection drops, and
  retry within a budget of attempts with capped exponential backoff; when the budget is used up,
  restore the host's routing and cancel. Each iteration takes an environment that says how the
  attempt goes: the answers to the dials and the TUN setup, how long the session stays up, and
  whether the program is cancelled meanwhile.
\<close>

section \<open>State\<close>

definition maxBackoff :: duration where
  "maxBackoff = 15 * Second"

definition stableUptime :: duration where
  "stableUptime = 10 * Second"

definition tunnelCount :: nat where
  "tunnelCount = 1"

definition max_attempts :: "ctx \<Rightarrow> nat" where
  "max_attempts ctx =
     (case ctx_Value ctx ''RECONNECT_ATTEMPTS'' of
        None \<Rightarrow> 1
      | Some v \<Rightarrow> let (n, perr) = Atoi v in if perr = None \<and> 0 < n then nat n else 1)"

record budget =
  attempts :: nat
  backoff :: duration
  waits :: "duration list"

definition budget_start :: budget where
  "budget_start = \<lparr>attempts = 0, backoff = Second, waits = []\<rparr>"

record iter_env =
  it_dial :: dial_env
  it_tun :: tun_env
  it_uptime :: duration
  it_cancelled :: bool
  it_cancelled_waiting :: bool

text \<open>The loop goes on, gives up, returns because the context is cancelled, or the process ends.\<close>

datatype 'h loop =
    Looping "'h world" budget
  | GaveUp "'h world" budget
  | Cancelled "'h world" budget
  | Died "'h world" budget

section \<open>Operations\<close>

definition giveUp :: "'h os \<Rightarrow> 'h world \<Rightarrow> budget \<Rightarrow> 'h loop" where
  "giveUp os w r = GaveUp (w\<lparr>host := GracefullyShutdown os (host w)\<rparr>) r"

text \<open>The tail of a failed attempt: count it, then give up or wait.\<close>

definition count_failure :: "'h os \<Rightarrow> nat \<Rightarrow> bool \<Rightarrow> 'h world \<Rightarrow> budget \<Rightarrow> 'h loop" where
  "count_failure os maxAttempts done w r =
     (let r = r\<lparr>attempts := attempts r + 1\<rparr> in
      if maxAttempts \<le> attempts r then giveUp os w r
      else if done then Cancelled w r
      else Looping w (r\<lparr>waits := waits r @ [backoff r], backoff := min (backoff r * 2) maxBackoff\<rparr>))"

definition reconnect_iter ::
  "'h os \<Rightarrow> ctx \<Rightarrow> mtus \<Rightarrow> string \<Rightarrow> iter_env \<Rightarrow> 'h world \<Rightarrow> budget \<Rightarrow> 'h loop" where
  "reconnect_iter os ctx m keyLogPath e w r =
     (case establishAllTunnels os ctx m keyLogPath (it_dial e) (replicate (tunnelCount - 1) (it_dial e))
             (it_tun e) w of
        Ended w \<Rightarrow> Died w r
      | Err w \<Rightarrow> count_failure os (max_attempts ctx) (it_cancelled_waiting e) w r
      | Ok (conns, devs) w \<Rightarrow>
          let r = r\<lparr>backoff := Second\<rparr> in
          if it_cancelled e then Cancelled w r
          else
            let w = fold close_tun devs (fold close_ipconn conns w) in
            if stableUptime \<le> it_uptime e then Looping w (r\<lparr>attempts := 0, backoff := Second\<rparr>)
            else count_failure os (max_attempts ctx) (it_cancelled_waiting e) w r)"

fun reconnect_loop ::
  "'h os \<Rightarrow> ctx \<Rightarrow> mtus \<Rightarrow> string \<Rightarrow> iter_env list \<Rightarrow> 'h world \<Rightarrow> budget \<Rightarrow> 'h loop" where
  "reconnect_loop os ctx m kl [] w r = Looping w r"
| "reconnect_loop os ctx m kl (e # es) w r =
     (case reconnect_iter os ctx m kl e w r of
        Looping w' r' \<Rightarrow> reconnect_loop os ctx m kl es w' r'
      | ended \<Rightarrow> ended)"

section \<open>Lemmas\<close>

fun budget_of :: "'h loop \<Rightarrow> budget" where
  "budget_of (Looping w r) = r"
| "budget_of (GaveUp w r) = r"
| "budget_of (Cancelled w r) = r"
| "budget_of (Died w r) = r"

fun world_of :: "'h loop \<Rightarrow> 'h world" where
  "world_of (Looping w r) = w"
| "world_of (GaveUp w r) = w"
| "world_of (Cancelled w r) = w"
| "world_of (Died w r) = w"

definition budget_ok :: "budget \<Rightarrow> bool" where
  "budget_ok r \<longleftrightarrow> Second \<le> backoff r \<and> backoff r \<le> maxBackoff
     \<and> (\<forall>d\<in>set (waits r). Second \<le> d \<and> d \<le> maxBackoff)"

lemma max_attempts_default: "ctx_Value ctx ''RECONNECT_ATTEMPTS'' = None \<Longrightarrow> max_attempts ctx = 1"
  by (simp add: max_attempts_def)

lemma max_attempts_pos: "0 < max_attempts ctx"
  by (auto simp: max_attempts_def split: option.split prod.split)

lemma count_failure_budget: "budget_ok r \<Longrightarrow> budget_ok (budget_of (count_failure os n d w r))"
  by (auto simp: count_failure_def giveUp_def Let_def budget_ok_def maxBackoff_def Second_def)

lemma count_failure_Looping:
  "count_failure os n d w r = Looping w' r' \<Longrightarrow>
     attempts r' = attempts r + 1 \<and> attempts r' < n \<and> w' = w"
  by (auto simp: count_failure_def giveUp_def Let_def split: if_splits)

lemma reconnect_iter_budget:
  assumes "budget_ok r" and "attempts r < max_attempts ctx"
  shows "budget_ok (budget_of (reconnect_iter os ctx m kl e w r))"
    and "reconnect_iter os ctx m kl e w r = Looping w' r' \<Longrightarrow> attempts r' < max_attempts ctx"
proof -
  have ok: "budget_ok (r\<lparr>backoff := Second\<rparr>)" "budget_ok (r\<lparr>backoff := Second, attempts := 0\<rparr>)"
    "budget_ok (r\<lparr>attempts := 0, backoff := Second\<rparr>)"
    using assms(1) by (auto simp: budget_ok_def maxBackoff_def Second_def)
  show "budget_ok (budget_of (reconnect_iter os ctx m kl e w r))"
    using assms ok count_failure_budget [where os = os]
    by (simp add: reconnect_iter_def Let_def split: result.split prod.split)
  show "reconnect_iter os ctx m kl e w r = Looping w' r' \<Longrightarrow> attempts r' < max_attempts ctx"
    using assms max_attempts_pos
    by (auto simp: reconnect_iter_def Let_def split: result.splits prod.splits if_splits
        dest: count_failure_Looping)
qed

lemma reconnect_loop_budget:
  assumes "budget_ok r" and "attempts r < max_attempts ctx"
  shows "budget_ok (budget_of (reconnect_loop os ctx m kl es w r))
    \<and> (\<forall>w' r'. reconnect_loop os ctx m kl es w r = Looping w' r' \<longrightarrow> attempts r' < max_attempts ctx)"
  using assms
proof (induction es arbitrary: w r)
  case (Cons e es)
  note it = reconnect_iter_budget [OF Cons.prems, of os m kl e w]
  show ?case
    using it Cons.IH by (cases "reconnect_iter os ctx m kl e w r") auto
qed simp

text \<open>Rules never pile up beyond what a shutdown removes.\<close>

definition rules_ok :: "ipview \<Rightarrow> bool" where
  "rules_ok v \<longleftrightarrow> n9000 v \<le> 64 \<and> nsupp v \<le> 8"

lemma add_routes_rules:
  assumes "ip_spec os view"
  shows "rules_ok (view (host (final (add_routes os dev ps w)))) = rules_ok (view (host w))"
  by (induction ps arbitrary: w)
    (simp_all add: Let_def case_prod_beta ip_spec_simps [OF assms] rules_ok_def)

lemma open_queues_host: "host (final (open_queues t i k w)) = host w"
  by (induction t i k w rule: open_queues.induct) (auto split: result.split)

lemma establishMASQUEConn_host: "host (final (establishMASQUEConn ctx kl e w)) = host w"
  by (simp add: establishMASQUEConn_def Let_def split: option.split)

lemma Bootstrap_rules_ok:
  assumes "ip_spec os view" and "rules_ok (view h)"
  shows "case Bootstrap os ctx full h of Running h' \<Rightarrow> rules_ok (view h')
    | Exited h' \<Rightarrow> rules_ok (view h') | Panicked h' \<Rightarrow> rules_ok (view h')"
  using Bootstrap_view [OF assms(1), where ctx = ctx and full = full and h = h] assms(2)
  by (cases "Bootstrap os ctx full h") (auto simp: bootstrapped_def rules_ok_def)

lemma establishTunTapAndRoutes_rules:
  assumes "ip_spec os view" and "rules_ok (view (host w))"
  shows "rules_ok (view (host (final (establishTunTapAndRoutes os ctx m t rs ps w))))"
proof (cases "open_queues t 0 (num_queues ctx (numCPU t)) (w\<lparr>tun_gso := gso_requested ctx\<rparr>)")
  case (Ok devs w1)
  let ?w = "(LinkSetMTU t (tun_link_mtu ctx m) w1)\<lparr>fullTunnel := False\<rparr>"
  have h: "host (LinkSetMTU t n v) = host v" for n v by (simp add: LinkSetMTU_def)
  have "host w1 = host w"
    using open_queues_host [of t 0 "num_queues ctx (numCPU t)" "w\<lparr>tun_gso := gso_requested ctx\<rparr>"] Ok by simp
  with assms have w1: "rules_ok (view (host w1))" by simp
  then have r: "rules_ok (view (host (final (add_routes os (dev_name t) (concat rs) ?w))))"
    by (simp add: add_routes_rules [OF assms(1)] h)
  show ?thesis
  proof (cases "add_routes os (dev_name t) (concat rs) ?w")
    case a: (Ok u w2)
    with r have "rules_ok (view (host w2))" by simp
    from Bootstrap_rules_ok [OF assms(1) this, where ctx = ctx and full = "fullTunnel w2"] show ?thesis
      using w1 a
      by (cases "Bootstrap os ctx (fullTunnel w2) (host w2)")
        (simp_all add: establishTunTapAndRoutes_def Ok Let_def h)
  qed (use w1 r Ok in \<open>simp_all add: establishTunTapAndRoutes_def Let_def h\<close>)
qed (use assms open_queues_host [of t 0 "num_queues ctx (numCPU t)" "w\<lparr>tun_gso := gso_requested ctx\<rparr>"] in
  \<open>simp_all add: establishTunTapAndRoutes_def\<close>)

lemma more_tunnels_host: "host (final (more_tunnels ctx kl es cs ds w)) = host w"
proof (induction es arbitrary: cs w)
  case (Cons e es)
  have "host (final (establishMASQUEConn ctx kl e w)) = host w" by (rule establishMASQUEConn_host)
  then show ?case
    using Cons.IH by (cases "establishMASQUEConn ctx kl e w") (auto simp: close_tuns close_ipconns)
qed simp

lemma establishAllTunnels_rules:
  assumes "ip_spec os view" and "rules_ok (view (host w))"
  shows "rules_ok (view (host (final (establishAllTunnels os ctx m kl e0 es t w))))"
proof (cases "establishMASQUEConn ctx kl e0 w")
  case (Ok a w1)
  obtain rs ps c0 where a: "a = (rs, ps, c0)" by (cases a)
  have "host w1 = host w" using establishMASQUEConn_host [of ctx kl e0 w] Ok by simp
  with assms(2) have "rules_ok (view (host w1))" by simp
  from establishTunTapAndRoutes_rules [OF assms(1) this, of ctx m t rs ps]
  show ?thesis
  proof (cases "establishTunTapAndRoutes os ctx m t rs ps w1")
    case u: (Ok devs w2)
    have "host (final (more_tunnels ctx kl es [c0] devs w2)) = host w2" by (rule more_tunnels_host)
    moreover have "rules_ok (view (host w2))"
      using establishTunTapAndRoutes_rules [OF assms(1) \<open>rules_ok (view (host w1))\<close>, of ctx m t rs ps] u
      by simp
    ultimately show ?thesis
      by (cases "more_tunnels ctx kl es [c0] devs w2") (simp_all add: establishAllTunnels_def Ok a u)
  qed (simp_all add: establishAllTunnels_def Ok a close_ipconn_def)
qed (use assms establishMASQUEConn_host [of ctx kl e0 w] in \<open>simp_all add: establishAllTunnels_def\<close>)

lemma reconnect_iter_rules:
  assumes "ip_spec os view" and "rules_ok (view (host w))"
  shows "rules_ok (view (host (world_of (reconnect_iter os ctx m kl e w r))))"
    and "reconnect_iter os ctx m kl e w r = GaveUp w' r' \<Longrightarrow>
      view (host w') = \<lparr>n9000 = 0, nsupp = 0, routes9000 = {}\<rparr>"
proof -
  have clean: "view (GracefullyShutdown os h) = \<lparr>n9000 = 0, nsupp = 0, routes9000 = {}\<rparr>"
    if "rules_ok (view h)" for h
    using that
    by (simp add: GracefullyShutdown_def view_delete_rules [OF assms(1)] ip_spec_simps [OF assms(1)]
        rules_ok_def)
  have fail: "rules_ok (view (host (world_of (count_failure os n d v b))))"
    "count_failure os n d v b = GaveUp w' r' \<Longrightarrow>
      view (host w') = \<lparr>n9000 = 0, nsupp = 0, routes9000 = {}\<rparr>"
    if "rules_ok (view (host v))" for n d v b
    using that clean by (auto simp: count_failure_def giveUp_def Let_def rules_ok_def split: if_splits)
  let ?r = "establishAllTunnels os ctx m kl (it_dial e) (replicate (tunnelCount - 1) (it_dial e)) (it_tun e) w"
  have est: "rules_ok (view (host (final ?r)))" by (rule establishAllTunnels_rules [OF assms])
  show "rules_ok (view (host (world_of (reconnect_iter os ctx m kl e w r))))"
    using est fail(1)
    by (cases ?r) (auto simp: reconnect_iter_def Let_def close_tuns close_ipconns split: prod.split)
  show "reconnect_iter os ctx m kl e w r = GaveUp w' r' \<Longrightarrow>
      view (host w') = \<lparr>n9000 = 0, nsupp = 0, routes9000 = {}\<rparr>"
    using est
    by (cases ?r)
      (auto simp: reconnect_iter_def Let_def close_tuns close_ipconns split: prod.splits if_splits
        dest!: fail(2) [rotated])
qed

lemma reconnect_iter_GaveUp:
  assumes "attempts r < max_attempts ctx"
  shows "reconnect_iter os ctx m kl e w r = GaveUp w' r' \<Longrightarrow> attempts r' = max_attempts ctx"
  using assms
  by (auto simp: reconnect_iter_def count_failure_def giveUp_def Let_def
      split: result.splits prod.splits if_splits)

lemma reconnect_loop_GaveUp:
  "budget_ok r \<Longrightarrow> attempts r < max_attempts ctx \<Longrightarrow>
     reconnect_loop os ctx m kl es w r = GaveUp w' r' \<Longrightarrow> attempts r' = max_attempts ctx"
proof (induction es arbitrary: w r)
  case (Cons e es)
  show ?case
  proof (cases "reconnect_iter os ctx m kl e w r")
    case (Looping w1 r1)
    with reconnect_iter_budget [OF Cons.prems(1,2), of os m kl e w] Cons show ?thesis by auto
  next
    case (GaveUp w1 r1)
    with reconnect_iter_GaveUp [OF Cons.prems(2) GaveUp] Cons.prems(3) show ?thesis by simp
  qed (use Cons.prems(3) in simp_all)
qed simp

text \<open>An iteration that ends before the session is stable, and is not cancelled.\<close>

definition unstable :: "iter_env \<Rightarrow> bool" where
  "unstable e \<longleftrightarrow> it_uptime e < stableUptime \<and> \<not> it_cancelled e \<and> \<not> it_cancelled_waiting e"

lemma unstable_iter:
  assumes "unstable e"
  shows "case reconnect_iter os ctx m kl e w r of
      Looping w' r' \<Rightarrow> attempts r' = attempts r + 1 \<and> attempts r + 1 < max_attempts ctx
    | GaveUp w' r' \<Rightarrow> max_attempts ctx \<le> attempts r + 1
    | Cancelled w' r' \<Rightarrow> False
    | Died w' r' \<Rightarrow> True"
  using assms
  by (auto simp: reconnect_iter_def count_failure_def giveUp_def unstable_def Let_def
      split: result.splits prod.splits)

lemma unstable_loop:
  assumes "\<forall>e\<in>set es. unstable e" and "attempts r < max_attempts ctx"
  shows "case reconnect_loop os ctx m kl es w r of
      Looping w' r' \<Rightarrow> attempts r' = attempts r + length es \<and> attempts r + length es < max_attempts ctx
    | GaveUp w' r' \<Rightarrow> max_attempts ctx \<le> attempts r + length es
    | Cancelled w' r' \<Rightarrow> False
    | Died w' r' \<Rightarrow> True"
  using assms
proof (induction es arbitrary: w r)
  case (Cons e es)
  have "unstable e" using Cons.prems by simp
  note it = unstable_iter [OF this, where os = os and ctx = ctx and m = m and kl = kl and w = w and r = r]
  show ?case
  proof (cases "reconnect_iter os ctx m kl e w r")
    case (Looping w1 r1)
    with it have "attempts r1 = attempts r + 1" "attempts r1 < max_attempts ctx" by simp_all
    with Cons.IH [of r1 w1] Cons.prems(1) show ?thesis by (simp add: Looping split: loop.splits)
  qed (use it in simp_all)
qed simp

lemma budget_start_ok: "budget_ok budget_start" "attempts budget_start < max_attempts ctx"
  using max_attempts_pos by (simp_all add: budget_start_def budget_ok_def maxBackoff_def Second_def)

section \<open>Properties\<close>

text \<open>C25: throughout any run of the connection loop the failure counter stays below the budget while
  the loop goes on and equals it when the loop gives up, and every wait between attempts lasts at
  least one second and at most fifteen.\<close>

theorem reconnect_budget_invariant:
  "(case reconnect_loop os ctx m kl es w budget_start of
      Looping w' r \<Rightarrow> attempts r < max_attempts ctx
    | GaveUp w' r \<Rightarrow> attempts r = max_attempts ctx
    | Cancelled w' r \<Rightarrow> True
    | Died w' r \<Rightarrow> True)
   \<and> list_all (\<lambda>d. 1000000000 \<le> d \<and> d \<le> 15000000000)
       (waits (budget_of (reconnect_loop os ctx m kl es w budget_start)))"
proof -
  let ?l = "reconnect_loop os ctx m kl es w budget_start"
  have ok: "budget_ok (budget_of ?l)" and loop: "?l = Looping w' r' \<Longrightarrow> attempts r' < max_attempts ctx"
    for w' r'
    using reconnect_loop_budget [OF budget_start_ok, where os = os and m = m and kl = kl] by auto
  have gave: "?l = GaveUp w' r' \<Longrightarrow> attempts r' = max_attempts ctx" for w' r'
    by (rule reconnect_loop_GaveUp [OF budget_start_ok])
  have "list_all (\<lambda>d. 1000000000 \<le> d \<and> d \<le> 15000000000) (waits (budget_of ?l))"
    using ok by (simp add: budget_ok_def Second_def maxBackoff_def list_all_iff)
  with loop gave show ?thesis by (cases ?l) simp_all
qed

text \<open>C24: an unreachable server does not keep the client alive: after as many consecutive attempts as
  the budget allows, each failing or dropping before ten seconds of uptime, the loop has given up
  (or the process has ended during setup), and it does not give up on fewer. Without
  \<open>RECONNECT_ATTEMPTS\<close> the budget is a single attempt.\<close>

theorem reconnect_gives_up:
  assumes "\<forall>e\<in>set es. unstable e"
  shows "(case reconnect_loop os ctx m kl es w budget_start of
      Looping w' r \<Rightarrow> length es < max_attempts ctx \<and> attempts r = length es
    | GaveUp w' r \<Rightarrow> max_attempts ctx \<le> length es
    | Cancelled w' r \<Rightarrow> False
    | Died w' r \<Rightarrow> True)
    \<and> (if ctx_Value ctx ''RECONNECT_ATTEMPTS'' = None then max_attempts ctx = 1 else True)"
proof
  show "case reconnect_loop os ctx m kl es w budget_start of
      Looping w' r \<Rightarrow> length es < max_attempts ctx \<and> attempts r = length es
    | GaveUp w' r \<Rightarrow> max_attempts ctx \<le> length es
    | Cancelled w' r \<Rightarrow> False
    | Died w' r \<Rightarrow> True"
    using unstable_loop [OF assms budget_start_ok(2), where os = os and ctx = ctx and m = m
        and kl = kl and w = w]
    by (simp add: budget_start_def split: loop.splits)
qed (simp add: max_attempts_default)

text \<open>An environment in which every dial fails at the UDP socket.\<close>

definition demo_iter :: iter_env where
  "demo_iter =
     \<lparr>it_dial = (demo_dial 5 True)\<lparr>listen_ok := False\<rparr>, it_tun = demo_tun True, it_uptime = 0,
      it_cancelled = False, it_cancelled_waiting = False\<rparr>"

lemma demo_iter_fails:
  "reconnect_iter demo_os demo_ctx mtus_init '''' demo_iter w r =
     count_failure demo_os (max_attempts demo_ctx) False w r"
  by (simp add: reconnect_iter_def demo_iter_def establishAllTunnels_def establishMASQUEConn_def
      demo_ctx_def ctx_Value_def demo_mark)

lemma demo_budget: "max_attempts demo_ctx = 1"
  by (simp add: max_attempts_def demo_ctx_def ctx_Value_def)

lemma demo_unstable: "unstable demo_iter"
  by (simp add: unstable_def demo_iter_def stableUptime_def Second_def)

theorem reconnect_gives_up_witness:
  "unstable demo_iter
   \<and> (\<exists>w' r. reconnect_loop demo_os demo_ctx mtus_init '''' [demo_iter] demo_world budget_start = GaveUp w' r
        \<and> max_attempts demo_ctx \<le> 1)"
proof -
  have one: "\<forall>e\<in>set [demo_iter]. unstable e" using demo_unstable by simp
  have "\<exists>w' r. reconnect_loop demo_os demo_ctx mtus_init '''' [demo_iter] demo_world budget_start = GaveUp w' r"
    by (simp add: demo_iter_fails count_failure_def giveUp_def budget_start_def demo_budget)
  with reconnect_gives_up [OF one, where os = demo_os and ctx = demo_ctx and m = mtus_init
      and kl = "''''" and w = demo_world] demo_unstable
  show ?thesis by auto
qed

text \<open>C23: giving up restores the host. Whatever mixture of failed, dropped and stable sessions came
  before, when the loop gives up there is no rule for table 9000, no suppress rule and no route in
  table 9000, provided the host started with at most 64 and 8 of the rules.\<close>

theorem give_up_restores_host:
  assumes "ip_spec os view" and "n9000 (view (host w)) \<le> 64" and "nsupp (view (host w)) \<le> 8"
    and "reconnect_loop os ctx m kl es w r = GaveUp w' r'"
  shows "view (host w') = \<lparr>n9000 = 0, nsupp = 0, routes9000 = {}\<rparr>"
proof -
  have "rules_ok (view (host w))" using assms(2,3) by (simp add: rules_ok_def)
  then show ?thesis
    using assms(4)
  proof (induction es arbitrary: w r)
    case (Cons e es)
    note it = reconnect_iter_rules [OF assms(1) Cons.prems(1), of ctx m kl e r]
    show ?case
      using it Cons.IH Cons.prems(2) by (cases "reconnect_iter os ctx m kl e w r") auto
  qed simp
qed

theorem give_up_restores_host_witness:
  "\<exists>w' r. reconnect_loop demo_os demo_ctx mtus_init '''' [demo_iter]
        (demo_world\<lparr>host := (\<lparr>n9000 = 2, nsupp = 1, routes9000 = {}\<rparr>, Map.empty)\<rparr>) budget_start = GaveUp w' r
     \<and> fst (host w') = \<lparr>n9000 = 0, nsupp = 0, routes9000 = {}\<rparr>"
proof -
  let ?w = "demo_world\<lparr>host := (\<lparr>n9000 = 2, nsupp = 1, routes9000 = {}\<rparr>, Map.empty)\<rparr>"
  obtain w' r where g: "reconnect_loop demo_os demo_ctx mtus_init '''' [demo_iter] ?w budget_start = GaveUp w' r"
    by (simp add: demo_iter_fails count_failure_def giveUp_def budget_start_def demo_budget)
  have "n9000 (fst (host ?w)) \<le> 64" "nsupp (fst (host ?w)) \<le> 8" by simp_all
  from give_up_restores_host [OF ip_spec_demo this g] g show ?thesis by simp
qed

end
