(* ===== verification/Commands.thy ===== *)
theory Commands
  imports Reconnect
begin

text \<open>
  The functions that act on the host, command by command. The goroutines of the process run them at
  the same time, so \<open>Lifecycle\<close> has to see where one can be interrupted by another: between any two
  commands or file accesses. A \<open>prog\<close> is what a goroutine has still to do, the next access to the
  operating system and how to go on with its answer. Each program here is shown to do, when it runs
  alone, what the function of the same name in \<open>Host\<close> and \<open>Establish\<close> does.
\<close>

section \<open>Programs\<close>

datatype 'a prog =
    Ret 'a
  | Run "string list" "bool \<Rightarrow> 'a prog"
  | ReadF string "string option \<Rightarrow> 'a prog"
  | WriteF string string "bool \<Rightarrow> 'a prog"

text \<open>One access to the operating system; a program that has returned makes none.\<close>

fun pstep :: "'h os \<Rightarrow> 'a prog \<Rightarrow> 'h \<Rightarrow> ('a prog \<times> 'h) option" where
  "pstep os (Ret x) h = None"
| "pstep os (Run cmd k) h = (let (h', ok) = os_run os cmd h in Some (k ok, h'))"
| "pstep os (ReadF path k) h = Some (k (os_read os path h), h)"
| "pstep os (WriteF path d k) h = (let (h', ok) = os_write os path d h in Some (k ok, h'))"

text \<open>A whole run without interruption.\<close>

primrec exec :: "'h os \<Rightarrow> 'a prog \<Rightarrow> 'h \<Rightarrow> 'a \<times> 'h" where
  "exec os (Ret x) = (\<lambda>h. (x, h))"
| "exec os (Run cmd k) = (\<lambda>h. exec os (k (snd (os_run os cmd h))) (fst (os_run os cmd h)))"
| "exec os (ReadF path k) = (\<lambda>h. exec os (k (os_read os path h)) h)"
| "exec os (WriteF path d k) = (\<lambda>h. exec os (k (snd (os_write os path d h))) (fst (os_write os path d h)))"

primrec bindp :: "'a prog \<Rightarrow> ('a \<Rightarrow> 'b prog) \<Rightarrow> 'b prog" where
  "bindp (Ret x) f = f x"
| "bindp (Run cmd k) f = Run cmd (\<lambda>ok. bindp (k ok) f)"
| "bindp (ReadF path k) f = ReadF path (\<lambda>b. bindp (k b) f)"
| "bindp (WriteF path d k) f = WriteF path d (\<lambda>ok. bindp (k ok) f)"

abbreviation seqp :: "unit prog \<Rightarrow> 'b prog \<Rightarrow> 'b prog" where
  "seqp p q \<equiv> bindp p (\<lambda>_. q)"

lemma exec_bindp: "exec os (bindp p f) h = (case exec os p h of (x, h') \<Rightarrow> exec os (f x) h')"
  by (induction p arbitrary: h) simp_all

section \<open>The host functions as programs\<close>

definition enforceBBR_p :: "ctx \<Rightarrow> unit prog" where
  "enforceBBR_p ctx =
     (let v = ctx_string ctx ''TCP_CC'' in
      if v \<noteq> '''' \<and> (EqualFold v ''off'' \<or> EqualFold v ''none'') then Ret ()
      else
        let cc = (if v \<noteq> '''' then ToLower v else ''bbr'') in
        Run [''/sbin/modprobe'', ''tcp_'' @ cc] (\<lambda>_.
          ReadF ''/proc/sys/net/ipv4/tcp_available_congestion_control'' (\<lambda>b.
            case b of
              None \<Rightarrow> Ret ()
            | Some avail \<Rightarrow>
                if \<not> containsField avail cc then Ret ()
                else WriteF ''/proc/sys/net/ipv4/tcp_congestion_control'' cc (\<lambda>_. Ret ()))))"

definition raiseSysctl_p :: "string \<Rightarrow> int \<Rightarrow> unit prog" where
  "raiseSysctl_p key target =
     (let path = sysctl_path key in
      ReadF path (\<lambda>b.
        let cur = (case b of None \<Rightarrow> 0 | Some b \<Rightarrow> fst (Atoi (TrimSpace b))) in
        if target \<le> cur then Ret () else WriteF path (Itoa target) (\<lambda>_. Ret ())))"

definition raiseSysctlTriple_p :: "string \<Rightarrow> int \<Rightarrow> unit prog" where
  "raiseSysctlTriple_p key targetMax =
     (let path = sysctl_path key in
      ReadF path (\<lambda>b.
        case b of
          None \<Rightarrow> Ret ()
        | Some b \<Rightarrow>
            let fields = Fields (TrimSpace b) in
            if length fields \<noteq> 3 then Ret ()
            else if targetMax \<le> fst (Atoi (fields ! 2)) then Ret ()
            else WriteF path (fields ! 0 @ '' '' @ fields ! 1 @ '' '' @ Itoa targetMax) (\<lambda>_. Ret ())))"

definition tuning_p :: "ctx \<Rightarrow> unit prog" where
  "tuning_p ctx =
     seqp (enforceBBR_p ctx)
       (seqp (raiseSysctl_p ''net.core.rmem_max'' udpBufTarget)
         (seqp (raiseSysctl_p ''net.core.wmem_max'' udpBufTarget)
           (seqp (raiseSysctlTriple_p ''net.ipv4.tcp_wmem'' innerTCPBufTarget)
             (raiseSysctlTriple_p ''net.ipv4.tcp_rmem'' innerTCPBufTarget))))"

fun repeat_p :: "nat \<Rightarrow> string list \<Rightarrow> unit prog" where
  "repeat_p 0 cmd = Ret ()"
| "repeat_p (Suc n) cmd = Run cmd (\<lambda>ok. if ok then repeat_p n cmd else Ret ())"

definition delete_rules_p :: "unit prog" where
  "delete_rules_p = seqp (repeat_p 64 del9000_cmd) (repeat_p 8 delSuppress_cmd)"

definition GracefullyShutdown_p :: "unit prog" where
  "GracefullyShutdown_p = seqp delete_rules_p (Run flush_cmd (\<lambda>_. Ret ()))"

text \<open>How \<open>Bootstrap\<close> ends: it returns, exits the process, or panics.\<close>

datatype boot = BootReturns | BootExits | BootPanics

definition Bootstrap_p :: "ctx \<Rightarrow> bool \<Rightarrow> boot prog" where
  "Bootstrap_p ctx full =
     seqp (tuning_p ctx) (seqp delete_rules_p
       (case ctx_Value ctx ''FWMARK'' of
          None \<Rightarrow> Ret BootPanics
        | Some fwmark \<Rightarrow>
            Run (add9000_cmd fwmark) (\<lambda>ok.
              if \<not> ok then Ret BootExits
              else if full then Run addSuppress_cmd (\<lambda>ok2. Ret (if ok2 then BootReturns else BootExits))
              else Ret BootReturns)))"

text \<open>The answer: whether all routes were added, and whether a default route was among them.\<close>

fun add_routes_p :: "string \<Rightarrow> string list \<Rightarrow> bool \<Rightarrow> (bool \<times> bool) prog" where
  "add_routes_p dev [] full = Ret (True, full)"
| "add_routes_p dev (p # ps) full =
     (let full = (full \<or> p = ''0.0.0.0/0'') in
      Run (replace_cmd p dev) (\<lambda>ok. if ok then add_routes_p dev ps full else Ret (False, full)))"

section \<open>An attempt as a program\<close>

text \<open>
  What the program opens and closes is private to the connection loop and is kept in a \<open>world\<close>
  beside the program; the \<open>host\<close> field of that world is the host at the start of the attempt, and
  \<open>with_host\<close> puts the current one in its place at the end.
\<close>

fun with_host :: "'h \<Rightarrow> ('h world, 'a) result \<Rightarrow> ('h world, 'a) result" where
  "with_host h (Ok x w) = Ok x (w\<lparr>host := h\<rparr>)"
| "with_host h (Err w) = Err (w\<lparr>host := h\<rparr>)"
| "with_host h (Ended w) = Ended (w\<lparr>host := h\<rparr>)"

definition establishTunTapAndRoutes_p ::
  "ctx \<Rightarrow> mtus \<Rightarrow> tun_env \<Rightarrow> string list list \<Rightarrow> string list \<Rightarrow> 'h world
    \<Rightarrow> ('h world, nat list) result prog" where
  "establishTunTapAndRoutes_p ctx m t routes localPrefixes w =
     (case open_queues t 0 (num_queues ctx (numCPU t)) (w\<lparr>tun_gso := gso_requested ctx\<rparr>) of
        Err w \<Rightarrow> Ret (Err w)
      | Ended w \<Rightarrow> Ret (Ended w)
      | Ok devs w \<Rightarrow>
          if \<not> link_ok t then Ret (if nil_link_panics t then Ended w else Err w)
          else
            let w = LinkSetMTU t (tun_link_mtu ctx m) w in
            if \<not> list_all (addr_added t) localPrefixes then Ret (Err w)
            else if \<not> up_ok t then Ret (Err w)
            else bindp (add_routes_p (dev_name t) (concat routes) False) (\<lambda>(ok, full).
              let w = w\<lparr>fullTunnel := full\<rparr> in
              if \<not> ok then Ret (Err w)
              else bindp (Bootstrap_p ctx full) (\<lambda>b.
                Ret (case b of BootReturns \<Rightarrow> Ok devs w | _ \<Rightarrow> Ended w))))"

definition finish_attempt ::
  "ctx \<Rightarrow> string \<Rightarrow> dial_env list \<Rightarrow> nat \<Rightarrow> ('h world, nat list) result
    \<Rightarrow> ('h world, nat list \<times> nat list) result" where
  "finish_attempt ctx kl es c0 r =
     (case r of
        Err w \<Rightarrow> Err (close_ipconn c0 w)
      | Ended w \<Rightarrow> Ended w
      | Ok devs w \<Rightarrow>
          (case more_tunnels ctx kl es [c0] devs w of
             Err w \<Rightarrow> Err w
           | Ended w \<Rightarrow> Ended w
           | Ok conns w \<Rightarrow> Ok (conns, devs) w))"

definition establishAllTunnels_p ::
  "ctx \<Rightarrow> mtus \<Rightarrow> string \<Rightarrow> dial_env \<Rightarrow> dial_env list \<Rightarrow> tun_env \<Rightarrow> 'h world
    \<Rightarrow> ('h world, nat list \<times> nat list) result prog" where
  "establishAllTunnels_p ctx m kl e0 es t w =
     (case establishMASQUEConn ctx kl e0 w of
        Err w \<Rightarrow> Ret (Err w)
      | Ended w \<Rightarrow> Ret (Ended w)
      | Ok (routes, localPrefixes, c0) w \<Rightarrow>
          bindp (establishTunTapAndRoutes_p ctx m t routes localPrefixes w)
            (\<lambda>r. Ret (finish_attempt ctx kl es c0 r)))"

section \<open>The programs do what the functions do\<close>

lemma exec_tuning: "exec os (tuning_p ctx) h = ((), tuneInnerTCPBuffers os (tuneUDPBuffers os (enforceBBR os ctx h)))"
proof -
  have "exec os (enforceBBR_p ctx) h = ((), enforceBBR os ctx h)" for h
    by (simp add: enforceBBR_p_def enforceBBR_def Let_def split: option.split)
  moreover have "exec os (raiseSysctl_p key t) h = ((), raiseSysctl os key t h)" for key t h
    by (simp add: raiseSysctl_p_def raiseSysctl_def Let_def split: option.split)
  moreover have "exec os (raiseSysctlTriple_p key t) h = ((), raiseSysctlTriple os key t h)" for key t h
    by (simp add: raiseSysctlTriple_p_def raiseSysctlTriple_def Let_def split: option.split)
  ultimately show ?thesis by (simp add: tuning_p_def tuneInnerTCPBuffers_def tuneUDPBuffers_def exec_bindp)
qed

lemma exec_repeat: "exec os (repeat_p n cmd) h = ((), repeat_cmd os n cmd h)"
  by (induction n arbitrary: h) (simp_all add: case_prod_beta)

lemma exec_delete_rules: "exec os delete_rules_p h = ((), delSuppressRule os (delAllTable9000Rules os h))"
  by (simp add: delete_rules_p_def exec_bindp exec_repeat delSuppressRule_def delAllTable9000Rules_def)

lemma exec_GracefullyShutdown: "exec os GracefullyShutdown_p h = ((), GracefullyShutdown os h)"
  by (simp add: GracefullyShutdown_p_def exec_bindp exec_delete_rules GracefullyShutdown_def)

lemma exec_Bootstrap:
  "Bootstrap os ctx full h =
     (case exec os (Bootstrap_p ctx full) h of
        (BootReturns, h') \<Rightarrow> Running h' | (BootExits, h') \<Rightarrow> Exited h' | (BootPanics, h') \<Rightarrow> Panicked h')"
  by (simp add: Bootstrap_p_def Bootstrap_def exec_bindp exec_tuning exec_delete_rules case_prod_beta Let_def
      split: option.split)

lemma exec_add_routes:
  "add_routes os dev ps w =
     (case exec os (add_routes_p dev ps (fullTunnel w)) (host w) of
        ((ok, full), h) \<Rightarrow>
          if ok then Ok () (w\<lparr>fullTunnel := full, host := h\<rparr>) else Err (w\<lparr>fullTunnel := full, host := h\<rparr>))"
proof (induction ps arbitrary: w)
  case (Cons p ps)
  then show ?case by (simp add: Let_def case_prod_beta)
qed simp

lemma dial_with_host:
  "establishMASQUEConn ctx kl e (w\<lparr>host := h\<rparr>) = with_host h (establishMASQUEConn ctx kl e w)"
  by (simp add: establishMASQUEConn_def Let_def split: option.split)

lemma open_queues_with_host:
  "open_queues t i k (w\<lparr>host := h\<rparr>) = with_host h (open_queues t i k w)"
proof (induction k arbitrary: i w)
  case (Suc k)
  have swap: "w\<lparr>host := h, tuns := x\<rparr> = w\<lparr>tuns := x, host := h\<rparr>" for x by simp
  have "open_queues t (Suc i) k (w\<lparr>host := h, tuns := tun_id t i # tuns w\<rparr>) =
      with_host h (open_queues t (Suc i) k (w\<lparr>tuns := tun_id t i # tuns w\<rparr>))"
    unfolding swap by (rule Suc.IH)
  then show ?case
    by (cases "open_queues t (Suc i) k (w\<lparr>tuns := tun_id t i # tuns w\<rparr>)") simp_all
qed simp

text \<open>The programs take the host where they find it, so the function is run on the host at the time.\<close>

lemma exec_establishTunTapAndRoutes:
  "establishTunTapAndRoutes os ctx m t rs ps (w\<lparr>host := h\<rparr>) =
     (case exec os (establishTunTapAndRoutes_p ctx m t rs ps w) h of (r, h') \<Rightarrow> with_host h' r)"
proof -
  let ?v = "w\<lparr>tun_gso := gso_requested ctx\<rparr>"
  have "w\<lparr>host := h, tun_gso := g\<rparr> = w\<lparr>tun_gso := g, host := h\<rparr>" for g by simp
  then have q: "open_queues t 0 (num_queues ctx (numCPU t)) (w\<lparr>host := h, tun_gso := gso_requested ctx\<rparr>) =
      with_host h (open_queues t 0 (num_queues ctx (numCPU t)) ?v)"
    by (simp only: open_queues_with_host)
  show ?thesis
  proof (cases "open_queues t 0 (num_queues ctx (numCPU t)) ?v")
    case (Ok devs w1)
    define w2 where "w2 = LinkSetMTU t (tun_link_mtu ctx m) w1"
    have w: "LinkSetMTU t (tun_link_mtu ctx m) (w1\<lparr>host := h\<rparr>) = w2\<lparr>host := h\<rparr>"
      by (simp add: w2_def LinkSetMTU_def)
    obtain ok full h1 where a: "exec os (add_routes_p (dev_name t) (concat rs) False) h = ((ok, full), h1)"
      by (metis prod.collapse)
    then have "add_routes os (dev_name t) (concat rs) (w2\<lparr>host := h, fullTunnel := False\<rparr>) =
        (if ok then Ok () (w2\<lparr>fullTunnel := full, host := h1\<rparr>) else Err (w2\<lparr>fullTunnel := full, host := h1\<rparr>))"
      by (simp add: exec_add_routes)
    then show ?thesis
      using a q
      by (simp add: establishTunTapAndRoutes_def establishTunTapAndRoutes_p_def Ok Let_def exec_bindp exec_Bootstrap
          case_prod_beta w flip: w2_def split: boot.split)
  qed (use q in \<open>simp_all add: establishTunTapAndRoutes_def establishTunTapAndRoutes_p_def\<close>)
qed

lemma more_tunnels_with_host:
  "more_tunnels ctx kl es cs ds (w\<lparr>host := h\<rparr>) = with_host h (more_tunnels ctx kl es cs ds w)"
proof (induction es arbitrary: cs w)
  case (Cons e es)
  show ?case
    by (cases "establishMASQUEConn ctx kl e w")
      (auto simp: dial_with_host Cons.IH close_tuns close_ipconns split: prod.split)
qed simp

lemma finish_with_host:
  "finish_attempt ctx kl es c0 (with_host h r) = with_host h (finish_attempt ctx kl es c0 r)"
proof (cases r)
  case (Ok devs w)
  then show ?thesis
    by (cases "more_tunnels ctx kl es [c0] devs w") (simp_all add: finish_attempt_def more_tunnels_with_host)
qed (simp_all add: finish_attempt_def close_ipconn_def)

lemma exec_establishAllTunnels:
  "establishAllTunnels os ctx m kl e0 es t (w\<lparr>host := h\<rparr>) =
     (case exec os (establishAllTunnels_p ctx m kl e0 es t w) h of (r, h') \<Rightarrow> with_host h' r)"
proof (cases "establishMASQUEConn ctx kl e0 w")
  case (Ok a w1)
  obtain rs ps c0 where a: "a = (rs, ps, c0)" by (cases a)
  obtain r h1 where e: "exec os (establishTunTapAndRoutes_p ctx m t rs ps w1) h = (r, h1)"
    by (metis prod.collapse)
  have "establishAllTunnels os ctx m kl e0 es t (w\<lparr>host := h\<rparr>) =
      finish_attempt ctx kl es c0 (establishTunTapAndRoutes os ctx m t rs ps (w1\<lparr>host := h\<rparr>))"
    by (simp add: establishAllTunnels_def finish_attempt_def dial_with_host Ok a)
  also have "establishTunTapAndRoutes os ctx m t rs ps (w1\<lparr>host := h\<rparr>) = with_host h1 r"
    by (simp add: exec_establishTunTapAndRoutes e)
  finally show ?thesis by (simp add: establishAllTunnels_p_def Ok a exec_bindp e finish_with_host)
qed (simp_all add: establishAllTunnels_def establishAllTunnels_p_def dial_with_host)

section \<open>Bounds on what a program leaves\<close>

text \<open>
  \<open>sound del a b e Q p\<close>: if the host has at most \<open>a\<close> rules for table 9000 and \<open>b\<close> suppress rules, and
  no route in the table when \<open>e\<close> holds, then \<open>p\<close> keeps the rules within 64 and 8, and where it returns
  the bounds reached satisfy \<open>Q\<close>. Only upper bounds appear, so they stay true when another goroutine
  removes rules or routes in between. With \<open>del\<close> the program does nothing else itself.
\<close>

inductive sound :: "bool \<Rightarrow> nat \<Rightarrow> nat \<Rightarrow> bool \<Rightarrow> (nat \<Rightarrow> nat \<Rightarrow> bool \<Rightarrow> 'a \<Rightarrow> bool) \<Rightarrow> 'a prog \<Rightarrow> bool"
  for del :: bool where
  s_ret: "a \<le> 64 \<Longrightarrow> b \<le> 8 \<Longrightarrow> Q a b e x \<Longrightarrow> sound del a b e Q (Ret x)"
| s_del9000: "a \<le> 64 \<Longrightarrow> b \<le> 8 \<Longrightarrow> sound del (a - 1) b e Q (k True) \<Longrightarrow> sound del 0 b e Q (k False) \<Longrightarrow>
    sound del a b e Q (Run del9000_cmd k)"
| s_delSuppress: "a \<le> 64 \<Longrightarrow> b \<le> 8 \<Longrightarrow> sound del a (b - 1) e Q (k True) \<Longrightarrow> sound del a 0 e Q (k False) \<Longrightarrow>
    sound del a b e Q (Run delSuppress_cmd k)"
| s_flush: "a \<le> 64 \<Longrightarrow> b \<le> 8 \<Longrightarrow> (\<And>ok. sound del a b True Q (k ok)) \<Longrightarrow> sound del a b e Q (Run flush_cmd k)"
| s_add9000: "\<not> del \<Longrightarrow> a < 64 \<Longrightarrow> b \<le> 8 \<Longrightarrow> sound del (a + 1) b e Q (k True) \<Longrightarrow> sound del a b e Q (k False) \<Longrightarrow>
    sound del a b e Q (Run (add9000_cmd mark) k)"
| s_addSuppress: "\<not> del \<Longrightarrow> a \<le> 64 \<Longrightarrow> b < 8 \<Longrightarrow> sound del a (b + 1) e Q (k True) \<Longrightarrow> sound del a b e Q (k False) \<Longrightarrow>
    sound del a b e Q (Run addSuppress_cmd k)"
| s_replace: "\<not> del \<Longrightarrow> a \<le> 64 \<Longrightarrow> b \<le> 8 \<Longrightarrow> (\<And>ok. sound del a b False Q (k ok)) \<Longrightarrow>
    sound del a b e Q (Run (replace_cmd pfx dev) k)"
| s_other: "\<not> is_ip cmd \<Longrightarrow> a \<le> 64 \<Longrightarrow> b \<le> 8 \<Longrightarrow> (\<And>ok. sound del a b e Q (k ok)) \<Longrightarrow> sound del a b e Q (Run cmd k)"
| s_read: "a \<le> 64 \<Longrightarrow> b \<le> 8 \<Longrightarrow> (\<And>d. sound del a b e Q (k d)) \<Longrightarrow> sound del a b e Q (ReadF path k)"
| s_write: "a \<le> 64 \<Longrightarrow> b \<le> 8 \<Longrightarrow> (\<And>ok. sound del a b e Q (k ok)) \<Longrightarrow> sound del a b e Q (WriteF path d k)"

inductive_simps sound_Ret: "sound del a b e Q (Ret x)"

definition bounded :: "nat \<Rightarrow> nat \<Rightarrow> bool \<Rightarrow> ipview \<Rightarrow> bool" where
  "bounded a b e v \<longleftrightarrow> n9000 v \<le> a \<and> nsupp v \<le> b \<and> (e \<longrightarrow> routes9000 v = {})"

definition less_view :: "ipview \<Rightarrow> ipview \<Rightarrow> bool" where
  "less_view v w \<longleftrightarrow> n9000 v \<le> n9000 w \<and> nsupp v \<le> nsupp w \<and> routes9000 v \<subseteq> routes9000 w"

lemma bounded_less: "bounded a b e w \<Longrightarrow> less_view v w \<Longrightarrow> bounded a b e v"
  by (auto simp: bounded_def less_view_def)

lemma sound_limits: "sound del a b e Q p \<Longrightarrow> a \<le> 64 \<and> b \<le> 8"
  by (induction rule: sound.induct) simp_all

lemma bounded_rules_ok: "sound del a b e Q p \<Longrightarrow> bounded a b e v \<Longrightarrow> rules_ok v"
  using sound_limits by (fastforce simp: bounded_def rules_ok_def)

lemma sound_bindp:
  assumes "sound del a b e Q p" and "\<And>a b e x. a \<le> 64 \<Longrightarrow> b \<le> 8 \<Longrightarrow> Q a b e x \<Longrightarrow> sound del a b e R (f x)"
  shows "sound del a b e R (bindp p f)"
  using assms by (induction rule: sound.induct) (auto intro: sound.intros)

text \<open>A step keeps the bounds; a program that only deletes never adds anything.\<close>

lemma sound_step:
  assumes "ip_spec os view" and "sound del a b e Q p" and "pstep os p h = Some (p', h')"
  shows "\<exists>a' b' e'. sound del a' b' e' Q p' \<and> (bounded a b e (view h) \<longrightarrow> bounded a' b' e' (view h'))"
    and "del \<Longrightarrow> less_view (view h') (view h)"
proof -
  note ip = ip_spec_simps [OF assms(1)]
  show "\<exists>a' b' e'. sound del a' b' e' Q p' \<and> (bounded a b e (view h) \<longrightarrow> bounded a' b' e' (view h'))"
    using assms(2,3)
  proof (cases rule: sound.cases)
    case (s_del9000 k)
    then show ?thesis
      using assms(3) by (cases "n9000 (view h) = 0") (auto simp: case_prod_beta ip bounded_def intro!: exI)
  next
    case (s_delSuppress k)
    then show ?thesis
      using assms(3) by (cases "nsupp (view h) = 0") (auto simp: case_prod_beta ip bounded_def intro!: exI)
  next
    case (s_flush k)
    then show ?thesis
      using assms(3)
      by (intro exI [of _ a] exI [of _ b] exI [of _ True]) (auto simp: case_prod_beta ip bounded_def)
  next
    case (s_add9000 k mark)
    then show ?thesis
      using assms(3)
      by (cases "snd (os_run os (add9000_cmd mark) h)") (auto simp: case_prod_beta ip bounded_def intro!: exI)
  next
    case (s_addSuppress k)
    then show ?thesis
      using assms(3)
      by (cases "snd (os_run os addSuppress_cmd h)") (auto simp: case_prod_beta ip bounded_def intro!: exI)
  next
    case (s_replace k pfx dev)
    then show ?thesis
      using assms(3)
      by (intro exI [of _ a] exI [of _ b] exI [of _ False]) (auto simp: case_prod_beta ip bounded_def)
  next
    case (s_other cmd k)
    then show ?thesis
      using assms(3)
      by (intro exI [of _ a] exI [of _ b] exI [of _ e]) (auto simp: case_prod_beta ip bounded_def)
  next
    case (s_read k path)
    then show ?thesis
      using assms(3) by (intro exI [of _ a] exI [of _ b] exI [of _ e]) auto
  next
    case (s_write k path d)
    then show ?thesis
      using assms(3)
      by (intro exI [of _ a] exI [of _ b] exI [of _ e]) (auto simp: case_prod_beta ip bounded_def)
  qed simp
  show "less_view (view h') (view h)" if del
    using assms(2,3) that
    by (cases rule: sound.cases) (auto simp: case_prod_beta ip less_view_def)
qed

text \<open>The deletion loops end with no rule left, whatever is deleted by others meanwhile.\<close>

lemma sound_repeat_del9000:
  "a \<le> n \<Longrightarrow> a \<le> 64 \<Longrightarrow> b \<le> 8 \<Longrightarrow>
     sound del a b e (\<lambda>a' b' e' _. a' = 0 \<and> b' = b \<and> e' = e) (repeat_p n del9000_cmd)"
  by (induction n arbitrary: a) (auto intro!: s_ret s_del9000)

lemma sound_repeat_delSuppress:
  "b \<le> n \<Longrightarrow> a \<le> 64 \<Longrightarrow> b \<le> 8 \<Longrightarrow>
     sound del a b e (\<lambda>a' b' e' _. a' = a \<and> b' = 0 \<and> e' = e) (repeat_p n delSuppress_cmd)"
  by (induction n arbitrary: b) (auto intro!: s_ret s_delSuppress)

lemma sound_delete_rules:
  "a \<le> 64 \<Longrightarrow> b \<le> 8 \<Longrightarrow> sound del a b e (\<lambda>a' b' e' _. a' = 0 \<and> b' = 0 \<and> e' = e) delete_rules_p"
  unfolding delete_rules_p_def
  by (rule sound_bindp [OF sound_repeat_del9000 [of a 64]], simp_all)
    (rule sound_repeat_delSuppress, simp_all)

abbreviation cleared :: "nat \<Rightarrow> nat \<Rightarrow> bool \<Rightarrow> unit \<Rightarrow> bool" where
  "cleared a b e u \<equiv> a = 0 \<and> b = 0 \<and> e"

lemma sound_shutdown: "a \<le> 64 \<Longrightarrow> b \<le> 8 \<Longrightarrow> sound True a b e cleared GracefullyShutdown_p"
  unfolding GracefullyShutdown_p_def
  by (rule sound_bindp [OF sound_delete_rules]) (auto intro!: s_ret s_flush)

lemma sound_tuning:
  assumes "a \<le> 64" and "b \<le> 8"
  shows "sound False a b e (\<lambda>a' b' e' _. a' = a \<and> b' = b \<and> e' = e) (tuning_p ctx)"
proof -
  let ?Q = "\<lambda>a' b' e' _. a' = a \<and> b' = b \<and> e' = e"
  have "sound False a b e ?Q (raiseSysctl_p key t)" for key t
    using assms unfolding raiseSysctl_p_def Let_def by (intro s_read) (auto intro!: s_ret s_write)
  moreover have "sound False a b e ?Q (raiseSysctlTriple_p key t)" for key t
    using assms unfolding raiseSysctlTriple_p_def Let_def
    by (intro s_read) (auto intro!: s_ret s_write split: option.split)
  moreover have "sound False a b e ?Q (enforceBBR_p ctx)"
    using assms unfolding enforceBBR_p_def Let_def
    by (auto intro!: s_ret s_other s_read s_write simp: is_ip_def split: option.split)
  ultimately show ?thesis
    unfolding tuning_p_def by (intro sound_bindp [where Q = ?Q]) auto
qed

lemma sound_Bootstrap:
  assumes "a \<le> 64" and "b \<le> 8"
  shows "sound False a b e (\<lambda>_ _ _ _. True) (Bootstrap_p ctx full)"
proof -
  let ?add = "case ctx_Value ctx ''FWMARK'' of None \<Rightarrow> Ret BootPanics
      | Some fwmark \<Rightarrow> Run (add9000_cmd fwmark) (\<lambda>ok. if \<not> ok then Ret BootExits
          else if full then Run addSuppress_cmd (\<lambda>ok2. Ret (if ok2 then BootReturns else BootExits))
          else Ret BootReturns)"
  have "sound False 0 0 e (\<lambda>_ _ _ _. True) ?add" for e
    by (auto intro!: s_ret s_add9000 s_addSuppress split: option.split)
  then have "sound False a b e (\<lambda>_ _ _ _. True) (seqp delete_rules_p ?add)"
    by (intro sound_bindp [OF sound_delete_rules [OF assms]]) auto
  then show ?thesis
    unfolding Bootstrap_p_def by (intro sound_bindp [OF sound_tuning [OF assms]]) auto
qed

lemma sound_add_routes:
  "a \<le> 64 \<Longrightarrow> b \<le> 8 \<Longrightarrow> sound False a b e (\<lambda>_ _ _ _. True) (add_routes_p dev ps full)"
  by (induction ps arbitrary: e full) (auto intro!: s_ret s_replace simp: Let_def)

lemma sound_attempt:
  assumes "a \<le> 64" and "b \<le> 8"
  shows "sound False a b e (\<lambda>_ _ _ _. True) (establishAllTunnels_p ctx m kl e0 es t w)"
proof -
  have "sound False a b e (\<lambda>_ _ _ _. True) (establishTunTapAndRoutes_p ctx m t rs ps v)" for rs ps v
    using assms unfolding establishTunTapAndRoutes_p_def Let_def
    by (auto intro!: s_ret sound_bindp [OF sound_add_routes] sound_bindp [OF sound_Bootstrap]
        split: result.split prod.split)
  then show ?thesis
    using assms unfolding establishAllTunnels_p_def
    by (auto intro!: s_ret sound_bindp [where Q = "\<lambda>_ _ _ _. True"] split: result.split prod.split)
qed

section \<open>Steps and runs\<close>

text \<open>What the steps keep, a whole run keeps.\<close>

lemma run_program:
  assumes "\<And>p h p' h'. P p h \<Longrightarrow> pstep os p h = Some (p', h') \<Longrightarrow> P p' h'" and "P p h"
  shows "P (Ret (fst (exec os p h))) (snd (exec os p h))"
  using assms(2)
proof (induction p arbitrary: h)
  case (Run cmd k)
  have "P (k (snd (os_run os cmd h))) (fst (os_run os cmd h))"
    using assms(1) [OF Run.prems] by (simp add: case_prod_beta)
  then show ?case using Run.IH by simp
next
  case (ReadF path k)
  have "P (k (os_read os path h)) h" using assms(1) [OF ReadF.prems] by simp
  then show ?case using ReadF.IH by simp
next
  case (WriteF path d k)
  have "P (k (snd (os_write os path d h))) (fst (os_write os path d h))"
    using assms(1) [OF WriteF.prems] by (simp add: case_prod_beta)
  then show ?case using WriteF.IH by simp
qed simp

text \<open>The next access is a run of \<open>/sbin/ip\<close>; no other one changes rules or routes.\<close>

fun runs_ip :: "'a prog \<Rightarrow> bool" where
  "runs_ip (Run cmd k) = is_ip cmd"
| "runs_ip p = False"

lemma quiet_step:
  assumes "ip_spec os view" and "pstep os p h = Some (p', h')" and "\<not> runs_ip p"
  shows "view h' = view h"
  using assms(2,3) by (cases p) (auto simp: case_prod_beta ip_spec_simps [OF assms(1)])

end
