(* ===== verification/Lifecycle.thy ===== *)
theory Lifecycle
  imports Commands
begin

text \<open>
  The goroutines of \<open>main\<close> side by side: the signal handler, the connection loop, the monitor that
  runs \<open>RunPostUp\<close> when a session is up, and the main goroutine, which ends the process when the
  context is cancelled. They share the host and the context and are not synchronised, so the
  steps are a relation: any goroutine may move next. A step is one access to the operating
  system (one command, one file read or written) of an attempt or of a shutdown, or one operation on
  the context, so an attempt and a shutdown interleave command by command.
  Nothing is ever sent on the monitor's error channel, and only \<open>true\<close> on its other one, so the
  monitor's two shutdown branches have no step.
\<close>

section \<open>State\<close>

text \<open>Where the two goroutines that act on the host are, with what they still have to run.\<close>

datatype sig_pc = SigWait | SigShutting "unit prog" | SigDone

datatype 'h loop_pc =
    LoopTop
  | Establishing "('h world, nat list \<times> nat list) result prog"
  | Announcing "nat list" "nat list"
  | InSession "nat list" "nat list"
  | Backoff
  | GivingUp "unit prog"
  | LoopGaveUp
  | Returned

record 'h client =
  world_st :: "'h world"
  budget_st :: budget
  loop_at :: "'h loop_pc"
  sig_at :: sig_pc
  cancelled :: bool
  gone :: bool
  crashed :: bool
  post_ups :: nat
  acted :: bool

text \<open>\<open>acted\<close> is a history variable: an attempt has run \<open>/sbin/ip\<close> since the signal handler began its
  shutdown.\<close>

definition client_start :: "'h world \<Rightarrow> 'h client" where
  "client_start w =
     \<lparr>world_st = w, budget_st = budget_start, loop_at = LoopTop, sig_at = SigWait, cancelled = False,
      gone = False, crashed = False, post_ups = 0, acted = False\<rparr>"

definition on_host :: "'h \<Rightarrow> 'h client \<Rightarrow> 'h client" where
  "on_host h s = s\<lparr>world_st := (world_st s)\<lparr>host := h\<rparr>\<rparr>"

text \<open>Counting a failed attempt: where the loop goes next.\<close>

definition fail_attempt :: "ctx \<Rightarrow> 'h client \<Rightarrow> 'h client" where
  "fail_attempt ctx s =
     (let b = (budget_st s)\<lparr>attempts := attempts (budget_st s) + 1\<rparr> in
      s\<lparr>budget_st := b,
        loop_at := (if max_attempts ctx \<le> attempts b then GivingUp GracefullyShutdown_p else Backoff)\<rparr>)"

definition after_establish ::
  "ctx \<Rightarrow> ('h world, nat list \<times> nat list) result \<Rightarrow> 'h client \<Rightarrow> 'h client" where
  "after_establish ctx r s =
     (case r of
        Ended w \<Rightarrow> s\<lparr>world_st := w, crashed := True, gone := True\<rparr>
      | Err w \<Rightarrow> fail_attempt ctx (s\<lparr>world_st := w\<rparr>)
      | Ok (conns, devs) w \<Rightarrow>
          s\<lparr>world_st := w, budget_st := (budget_st s)\<lparr>backoff := Second\<rparr>, loop_at := Announcing conns devs\<rparr>)"

definition close_session :: "nat list \<Rightarrow> nat list \<Rightarrow> 'h client \<Rightarrow> 'h client" where
  "close_session conns devs s =
     s\<lparr>world_st := fold close_tun devs (fold close_ipconn conns (world_st s))\<rparr>"

section \<open>Steps\<close>

inductive client_step ::
  "'h os \<Rightarrow> ctx \<Rightarrow> mtus \<Rightarrow> string \<Rightarrow> 'h client \<Rightarrow> 'h client \<Rightarrow> bool"
  for os :: "'h os" and ctx :: ctx and m :: mtus and kl :: string where
  sig_receive: "\<not> gone s \<Longrightarrow> sig_at s = SigWait \<Longrightarrow>
    client_step os ctx m kl s (s\<lparr>sig_at := SigShutting GracefullyShutdown_p, acted := False\<rparr>)"
| sig_command: "\<not> gone s \<Longrightarrow> sig_at s = SigShutting p \<Longrightarrow> pstep os p (host (world_st s)) = Some (p', h) \<Longrightarrow>
    client_step os ctx m kl s ((on_host h s)\<lparr>sig_at := SigShutting p'\<rparr>)"
| sig_cancel: "\<not> gone s \<Longrightarrow> sig_at s = SigShutting (Ret ()) \<Longrightarrow>
    client_step os ctx m kl s (s\<lparr>sig_at := SigDone, cancelled := True\<rparr>)"
| establish_begin: "\<not> gone s \<Longrightarrow> loop_at s = LoopTop \<Longrightarrow> length es = tunnelCount - 1 \<Longrightarrow>
    client_step os ctx m kl s
      (s\<lparr>loop_at := Establishing (establishAllTunnels_p ctx m kl e0 es t (world_st s))\<rparr>)"
| establish_command: "\<not> gone s \<Longrightarrow> loop_at s = Establishing p \<Longrightarrow>
    pstep os p (host (world_st s)) = Some (p', h) \<Longrightarrow>
    client_step os ctx m kl s ((on_host h s)\<lparr>loop_at := Establishing p', acted := acted s \<or> runs_ip p\<rparr>)"
| establish_end: "\<not> gone s \<Longrightarrow> loop_at s = Establishing (Ret r) \<Longrightarrow>
    client_step os ctx m kl s (after_establish ctx (with_host (host (world_st s)) r) s)"
| announce: "\<not> gone s \<Longrightarrow> loop_at s = Announcing conns devs \<Longrightarrow>
    client_step os ctx m kl s (s\<lparr>loop_at := InSession conns devs, post_ups := post_ups s + 1\<rparr>)"
| session_cancelled: "\<not> gone s \<Longrightarrow> loop_at s = InSession conns devs \<Longrightarrow> cancelled s \<Longrightarrow>
    client_step os ctx m kl s (s\<lparr>loop_at := Returned\<rparr>)"
| session_dropped_cancelled: "\<not> gone s \<Longrightarrow> loop_at s = InSession conns devs \<Longrightarrow> cancelled s \<Longrightarrow>
    client_step os ctx m kl s ((close_session conns devs s)\<lparr>loop_at := Returned\<rparr>)"
| session_stable: "\<not> gone s \<Longrightarrow> loop_at s = InSession conns devs \<Longrightarrow> \<not> cancelled s \<Longrightarrow>
    client_step os ctx m kl s ((close_session conns devs s)\<lparr>loop_at := LoopTop,
      budget_st := (budget_st s)\<lparr>attempts := 0, backoff := Second\<rparr>\<rparr>)"
| session_unstable: "\<not> gone s \<Longrightarrow> loop_at s = InSession conns devs \<Longrightarrow> \<not> cancelled s \<Longrightarrow>
    client_step os ctx m kl s (fail_attempt ctx (close_session conns devs s))"
| backoff_over: "\<not> gone s \<Longrightarrow> loop_at s = Backoff \<Longrightarrow>
    client_step os ctx m kl s (s\<lparr>loop_at := LoopTop,
      budget_st := (budget_st s)\<lparr>waits := waits (budget_st s) @ [backoff (budget_st s)],
        backoff := min (backoff (budget_st s) * 2) maxBackoff\<rparr>\<rparr>)"
| backoff_cancelled: "\<not> gone s \<Longrightarrow> loop_at s = Backoff \<Longrightarrow> cancelled s \<Longrightarrow>
    client_step os ctx m kl s (s\<lparr>loop_at := Returned\<rparr>)"
| give_up_command: "\<not> gone s \<Longrightarrow> loop_at s = GivingUp p \<Longrightarrow> pstep os p (host (world_st s)) = Some (p', h) \<Longrightarrow>
    client_step os ctx m kl s ((on_host h s)\<lparr>loop_at := GivingUp p'\<rparr>)"
| give_up_cancel: "\<not> gone s \<Longrightarrow> loop_at s = GivingUp (Ret ()) \<Longrightarrow>
    client_step os ctx m kl s (s\<lparr>loop_at := LoopGaveUp, cancelled := True\<rparr>)"
| main_returns: "\<not> gone s \<Longrightarrow> cancelled s \<Longrightarrow> client_step os ctx m kl s (s\<lparr>gone := True\<rparr>)"

inductive reachable ::
  "'h os \<Rightarrow> ctx \<Rightarrow> mtus \<Rightarrow> string \<Rightarrow> 'h world \<Rightarrow> 'h client \<Rightarrow> bool"
  for os :: "'h os" and ctx :: ctx and m :: mtus and kl :: string and w0 :: "'h world" where
  reach_start: "reachable os ctx m kl w0 (client_start w0)"
| reach_step: "reachable os ctx m kl w0 s \<Longrightarrow> client_step os ctx m kl s s' \<Longrightarrow> reachable os ctx m kl w0 s'"

section \<open>Invariants\<close>

text \<open>The loop is where it may still start or run a session.\<close>

fun live :: "'h loop_pc \<Rightarrow> bool" where
  "live (GivingUp p) = False"
| "live LoopGaveUp = False"
| "live Returned = False"
| "live pc = True"

definition clean :: ipview where
  "clean = \<lparr>n9000 = 0, nsupp = 0, routes9000 = {}\<rparr>"

text \<open>
  What each goroutine relies on: bounds that hold of the host where it stands and that its remaining
  program keeps. Those of the loop survive what the others do, which is only to delete; those of
  the signal handler survive as long as no attempt runs \<open>/sbin/ip\<close>.
\<close>

fun loop_ok :: "ipview \<Rightarrow> 'h loop_pc \<Rightarrow> bool" where
  "loop_ok v (Establishing p) = (\<exists>a b e. sound False a b e (\<lambda>_ _ _ _. True) p \<and> bounded a b e v)"
| "loop_ok v (GivingUp p) = (\<exists>a b e. sound True a b e cleared p \<and> bounded a b e v)"
| "loop_ok v LoopGaveUp = (v = clean)"
| "loop_ok v pc = True"

fun sig_ok :: "bool \<Rightarrow> ipview \<Rightarrow> sig_pc \<Rightarrow> bool" where
  "sig_ok ac v (SigShutting p) = (\<exists>a b e. sound True a b e cleared p \<and> (ac \<or> bounded a b e v))"
| "sig_ok ac v SigDone = (ac \<or> v = clean)"
| "sig_ok ac v SigWait = True"

text \<open>
  What holds in every reachable state: the rules never exceed what a shutdown removes, each goroutine
  may rely on its bounds, the budget is kept, and the context is cancelled only by a finished signal
  handler or by a loop that has given up.
\<close>

definition client_inv :: "ctx \<Rightarrow> ('h \<Rightarrow> ipview) \<Rightarrow> 'h client \<Rightarrow> bool" where
  "client_inv ctx view s \<longleftrightarrow>
     rules_ok (view (host (world_st s)))
     \<and> loop_ok (view (host (world_st s))) (loop_at s)
     \<and> sig_ok (acted s) (view (host (world_st s))) (sig_at s)
     \<and> (if live (loop_at s) then attempts (budget_st s) < max_attempts ctx
        else attempts (budget_st s) \<le> max_attempts ctx)
     \<and> budget_ok (budget_st s)
     \<and> (gone s \<longrightarrow> crashed s \<or> cancelled s)
     \<and> (cancelled s \<longrightarrow> sig_at s = SigDone \<or> loop_at s = LoopGaveUp)"

lemma rules_ok_clean [simp]: "rules_ok clean"
  by (simp add: rules_ok_def clean_def)

lemma less_view_clean: "less_view v clean \<Longrightarrow> v = clean"
  by (cases v) (simp add: less_view_def clean_def)

lemma rules_ok_less: "rules_ok w \<Longrightarrow> less_view v w \<Longrightarrow> rules_ok v"
  by (simp add: rules_ok_def less_view_def)

lemma loop_ok_less: "loop_ok w pc \<Longrightarrow> less_view v w \<Longrightarrow> loop_ok v pc"
  by (cases pc) (auto dest: less_view_clean intro: bounded_less)

lemma sig_ok_less: "sig_ok ac w pc \<Longrightarrow> less_view v w \<Longrightarrow> sig_ok ac v pc"
  by (cases pc) (auto dest: less_view_clean intro: bounded_less)

lemma bounded_cleared: "sound del a b e cleared (Ret u) \<Longrightarrow> bounded a b e v \<Longrightarrow> v = clean"
  by (cases v) (auto simp: sound_Ret bounded_def clean_def)

lemma shutdown_begins: "rules_ok v \<Longrightarrow> \<exists>a b e. sound True a b e cleared GracefullyShutdown_p \<and> bounded a b e v"
  by (intro exI [of _ 64] exI [of _ 8] exI [of _ False]) (simp add: sound_shutdown bounded_def rules_ok_def)

lemma attempt_begins:
  "rules_ok v \<Longrightarrow>
     \<exists>a b e. sound False a b e (\<lambda>_ _ _ _. True) (establishAllTunnels_p ctx m kl e0 es t w) \<and> bounded a b e v"
  by (intro exI [of _ 64] exI [of _ 8] exI [of _ False]) (simp add: sound_attempt bounded_def rules_ok_def)

lemma on_host_frame [simp]:
  "world_st (on_host h s) = (world_st s)\<lparr>host := h\<rparr>"
  "budget_st (on_host h s) = budget_st s" "loop_at (on_host h s) = loop_at s" "sig_at (on_host h s) = sig_at s"
  "cancelled (on_host h s) = cancelled s" "gone (on_host h s) = gone s" "crashed (on_host h s) = crashed s"
  "acted (on_host h s) = acted s"
  by (simp_all add: on_host_def)

lemma close_session_frame [simp]:
  "host (world_st (close_session cs ds s)) = host (world_st s)"
  "budget_st (close_session cs ds s) = budget_st s" "sig_at (close_session cs ds s) = sig_at s"
  "cancelled (close_session cs ds s) = cancelled s" "gone (close_session cs ds s) = gone s"
  "crashed (close_session cs ds s) = crashed s" "acted (close_session cs ds s) = acted s"
  by (simp_all add: close_session_def close_tuns close_ipconns)

lemma fail_attempt_frame [simp]:
  "world_st (fail_attempt ctx s) = world_st s" "sig_at (fail_attempt ctx s) = sig_at s"
  "cancelled (fail_attempt ctx s) = cancelled s" "gone (fail_attempt ctx s) = gone s"
  "crashed (fail_attempt ctx s) = crashed s" "acted (fail_attempt ctx s) = acted s"
  by (simp_all add: fail_attempt_def Let_def)

lemma fail_attempt_inv:
  assumes "client_inv ctx view s" and "live (loop_at s)"
  shows "client_inv ctx view (fail_attempt ctx s)"
proof -
  have "rules_ok (view (host (world_st s)))" using assms(1) by (simp add: client_inv_def)
  from shutdown_begins [OF this] show ?thesis
    using assms unfolding client_inv_def by (auto simp: fail_attempt_def Let_def budget_ok_def)
qed

lemma final_with_host [simp]: "host (final (with_host h r)) = h"
  by (cases r) simp_all

lemma after_establish_inv:
  assumes "client_inv ctx view s" and "loop_at s = Establishing p" and "host (final r) = host (world_st s)"
  shows "client_inv ctx view (after_establish ctx r s)"
proof (cases r)
  case (Ok a w)
  have "budget_ok ((budget_st s)\<lparr>backoff := Second\<rparr>)"
    using assms(1) by (simp add: client_inv_def budget_ok_def maxBackoff_def Second_def)
  with Ok assms show ?thesis by (auto simp: after_establish_def client_inv_def split: prod.split)
next
  case (Err w)
  have "client_inv ctx view (s\<lparr>world_st := w\<rparr>)"
    using assms Err by (auto simp: client_inv_def)
  then show ?thesis using Err assms(2) by (simp add: after_establish_def fail_attempt_inv)
next
  case (Ended w)
  with assms show ?thesis by (auto simp: after_establish_def client_inv_def)
qed

text \<open>The three goroutines' commands keep the invariant.\<close>

lemma sig_command_inv:
  assumes "ip_spec os view" and "client_inv ctx view s" and "sig_at s = SigShutting p"
    and "pstep os p (host (world_st s)) = Some (p', h)"
  shows "client_inv ctx view ((on_host h s)\<lparr>sig_at := SigShutting p'\<rparr>)"
proof -
  obtain a b e where p: "sound True a b e cleared p" "acted s \<or> bounded a b e (view (host (world_st s)))"
    using assms(2,3) by (auto simp: client_inv_def)
  have "sig_ok (acted s) (view h) (SigShutting p')"
    using sound_step(1) [OF assms(1) p(1) assms(4)] p(2) by auto
  moreover have "less_view (view h) (view (host (world_st s)))"
    using sound_step(2) [OF assms(1) p(1) assms(4)] by simp
  ultimately show ?thesis
    using assms(2,3) by (auto simp: client_inv_def intro: rules_ok_less loop_ok_less)
qed

lemma give_up_command_inv:
  assumes "ip_spec os view" and "client_inv ctx view s" and "loop_at s = GivingUp p"
    and "pstep os p (host (world_st s)) = Some (p', h)"
  shows "client_inv ctx view ((on_host h s)\<lparr>loop_at := GivingUp p'\<rparr>)"
proof -
  obtain a b e where p: "sound True a b e cleared p" "bounded a b e (view (host (world_st s)))"
    using assms(2,3) by (auto simp: client_inv_def)
  have "loop_ok (view h) (GivingUp p')"
    using sound_step(1) [OF assms(1) p(1) assms(4)] p(2) by auto
  moreover have "less_view (view h) (view (host (world_st s)))"
    using sound_step(2) [OF assms(1) p(1) assms(4)] by simp
  ultimately show ?thesis
    using assms(2,3) by (auto simp: client_inv_def intro: rules_ok_less sig_ok_less)
qed

lemma establish_command_inv:
  assumes "ip_spec os view" and "client_inv ctx view s" and "loop_at s = Establishing p"
    and "pstep os p (host (world_st s)) = Some (p', h)"
  shows "client_inv ctx view ((on_host h s)\<lparr>loop_at := Establishing p', acted := acted s \<or> runs_ip p\<rparr>)"
proof -
  obtain a b e where p: "sound False a b e (\<lambda>_ _ _ _. True) p" "bounded a b e (view (host (world_st s)))"
    using assms(2,3) by (auto simp: client_inv_def)
  obtain a' b' e' where p': "sound False a' b' e' (\<lambda>_ _ _ _. True) p'" "bounded a' b' e' (view h)"
    using sound_step(1) [OF assms(1) p(1) assms(4)] p(2) by blast
  have "sig_ok (acted s \<or> runs_ip p) (view h) (sig_at s)"
    using assms(2) quiet_step [OF assms(1,4)]
    by (cases "runs_ip p"; cases "sig_at s") (auto simp: client_inv_def)
  then show ?thesis
    using assms(2,3) p' bounded_rules_ok [OF p'] by (auto simp: client_inv_def)
qed

lemma client_inv_start:
  assumes "rules_ok (view (host w))"
  shows "client_inv ctx view (client_start w)"
  using assms budget_start_ok by (simp add: client_inv_def client_start_def)

lemma client_step_inv [inv_intros]:
  assumes "ip_spec os view" and "client_step os ctx m kl s s'" and "client_inv ctx view s"
  shows "client_inv ctx view s'"
  using assms(2,3)
proof (induction rule: client_step.induct)
  case (sig_receive s)
  then have "rules_ok (view (host (world_st s)))" by (simp add: client_inv_def)
  from shutdown_begins [OF this] show ?case using sig_receive by (auto simp: client_inv_def)
next
  case (sig_command s p p' h)
  then show ?case by (intro sig_command_inv [OF assms(1)])
next
  case (sig_cancel s)
  then show ?case by (auto simp: client_inv_def dest: bounded_cleared)
next
  case (establish_begin s es e0 t)
  then have "rules_ok (view (host (world_st s)))" by (simp add: client_inv_def)
  from attempt_begins [OF this] show ?case using establish_begin by (auto simp: client_inv_def)
next
  case (establish_command s p p' h)
  then show ?case by (intro establish_command_inv [OF assms(1)])
next
  case (establish_end s r)
  then show ?case by (intro after_establish_inv) simp_all
next
  case (session_unstable s conns devs)
  have "client_inv ctx view (close_session conns devs s)"
    using session_unstable by (auto simp: client_inv_def close_session_def close_tuns close_ipconns)
  then show ?case
    using session_unstable by (intro fail_attempt_inv) (simp_all add: close_session_def)
next
  case (session_stable s conns devs)
  then show ?case
    using max_attempts_pos [of ctx] by (auto simp: client_inv_def budget_ok_def maxBackoff_def Second_def)
next
  case (backoff_over s)
  then show ?case by (auto simp: client_inv_def budget_ok_def maxBackoff_def Second_def)
next
  case (give_up_command s p p' h)
  then show ?case by (intro give_up_command_inv [OF assms(1)])
next
  case (give_up_cancel s)
  then show ?case by (auto simp: client_inv_def dest: bounded_cleared)
qed (auto simp: client_inv_def)

lemma reachable_inv:
  assumes "ip_spec os view" and "rules_ok (view (host w0))" and "reachable os ctx m kl w0 s"
  shows "client_inv ctx view s"
  using assms(3)
proof (induction rule: reachable.induct)
  case reach_start
  show ?case using assms(2) by (rule client_inv_start)
next
  case (reach_step s s')
  then show ?case by (blast intro: client_step_inv [OF assms(1)])
qed

section \<open>Uninterrupted runs\<close>

lemma on_host_on_host [simp]: "on_host h (on_host h' s) = on_host h s"
  by (simp add: on_host_def)

lemma on_host_same [simp]: "on_host (host (world_st s)) s = s"
  by (simp add: on_host_def)

lemma pc_same [simp]:
  "sig_at s = x \<Longrightarrow> s\<lparr>sig_at := x\<rparr> = s" "loop_at s = y \<Longrightarrow> s\<lparr>loop_at := y\<rparr> = s"
  by auto

lemma on_host_updates [simp]:
  "on_host h (s\<lparr>sig_at := x\<rparr>) = (on_host h s)\<lparr>sig_at := x\<rparr>"
  "on_host h (s\<lparr>loop_at := y\<rparr>) = (on_host h s)\<lparr>loop_at := y\<rparr>"
  "on_host h (s\<lparr>acted := z\<rparr>) = (on_host h s)\<lparr>acted := z\<rparr>"
  by (simp_all add: on_host_def)

lemma run_signal:
  assumes "reachable os ctx m kl w0 s" and "\<not> gone s" and "sig_at s = SigShutting p"
  shows "reachable os ctx m kl w0
    ((on_host (snd (exec os p (host (world_st s)))) s)\<lparr>sig_at := SigShutting (Ret ())\<rparr>)"
proof -
  let ?P = "\<lambda>p h. reachable os ctx m kl w0 ((on_host h s)\<lparr>sig_at := SigShutting p\<rparr>)"
  have "?P p' h'" if "?P p h" "pstep os p h = Some (p', h')" for p h p' h'
    using reach_step [OF that(1) sig_command] that(2) assms(2) by simp
  moreover have "?P p (host (world_st s))" using assms(1,3) by simp
  ultimately have "?P (Ret (fst (exec os p (host (world_st s))))) (snd (exec os p (host (world_st s))))"
    by (rule run_program [where P = ?P and os = os])
  then show ?thesis by simp
qed

lemma run_give_up:
  assumes "reachable os ctx m kl w0 s" and "\<not> gone s" and "loop_at s = GivingUp p"
  shows "reachable os ctx m kl w0
    ((on_host (snd (exec os p (host (world_st s)))) s)\<lparr>loop_at := GivingUp (Ret ())\<rparr>)"
proof -
  let ?P = "\<lambda>p h. reachable os ctx m kl w0 ((on_host h s)\<lparr>loop_at := GivingUp p\<rparr>)"
  have "?P p' h'" if "?P p h" "pstep os p h = Some (p', h')" for p h p' h'
    using reach_step [OF that(1) give_up_command] that(2) assms(2) by simp
  moreover have "?P p (host (world_st s))" using assms(1,3) by simp
  ultimately have "?P (Ret (fst (exec os p (host (world_st s))))) (snd (exec os p (host (world_st s))))"
    by (rule run_program [where P = ?P and os = os])
  then show ?thesis by simp
qed

lemma run_attempt:
  assumes "reachable os ctx m kl w0 s" and "\<not> gone s" and "loop_at s = Establishing p"
    and "exec os p (host (world_st s)) = (r, h)"
  shows "\<exists>ac. reachable os ctx m kl w0 ((on_host h s)\<lparr>loop_at := Establishing (Ret r), acted := ac\<rparr>)"
proof -
  let ?P = "\<lambda>p h. \<exists>ac. reachable os ctx m kl w0 ((on_host h s)\<lparr>loop_at := Establishing p, acted := ac\<rparr>)"
  have "?P p' h'" if P: "?P p h" and st: "pstep os p h = Some (p', h')" for p h p' h'
  proof -
    from P obtain ac where "reachable os ctx m kl w0 ((on_host h s)\<lparr>loop_at := Establishing p, acted := ac\<rparr>)"
      by blast
    from reach_step [OF this establish_command] st assms(2) show ?thesis by fastforce
  qed
  moreover have "?P p (host (world_st s))" using assms(1,3) by (intro exI [of _ "acted s"]) simp
  ultimately have "?P (Ret (fst (exec os p (host (world_st s))))) (snd (exec os p (host (world_st s))))"
    by (rule run_program [where P = ?P and os = os])
  then show ?thesis by (simp add: assms(4))
qed

section \<open>Properties\<close>

text \<open>C21: in every interleaving of the goroutines' single commands, the rules stay within what a shutdown
  removes, and a process that ends by cancellation leaves the host without policy rules and without
  routes in table 9000, unless the signal handler ended it and an attempt ran an \<open>ip\<close> command after
  the handler had begun its own; when the connection loop has given up it always does.\<close>

theorem exit_leaves_host_clean:
  assumes "ip_spec os view" and "n9000 (view (host w0)) \<le> 64" and "nsupp (view (host w0)) \<le> 8"
    and "reachable os ctx m kl w0 s"
  shows "n9000 (view (host (world_st s))) \<le> 64 \<and> nsupp (view (host (world_st s))) \<le> 8
    \<and> (if gone s \<and> \<not> crashed s \<and> (sig_at s \<noteq> SigDone \<or> loop_at s = LoopGaveUp \<or> \<not> acted s)
       then view (host (world_st s)) = \<lparr>n9000 = 0, nsupp = 0, routes9000 = {}\<rparr> else True)"
proof -
  have "rules_ok (view (host w0))" using assms(2,3) by (simp add: rules_ok_def)
  from reachable_inv [OF assms(1) this assms(4)] show ?thesis
    by (auto simp: client_inv_def clean_def rules_ok_def)
qed

lemma demo_attempt_fails:
  "establishAllTunnels_p demo_ctx mtus_init '''' ((demo_dial 5 True)\<lparr>listen_ok := False\<rparr>) es t w = Ret (Err w)"
  by (simp add: establishAllTunnels_p_def establishMASQUEConn_def demo_dial_def demo_ctx_def ctx_Value_def
      demo_mark)

theorem exit_leaves_host_clean_witness:
  "\<exists>s. reachable demo_os demo_ctx mtus_init '''' demo_world s \<and> gone s \<and> \<not> crashed s \<and> sig_at s = SigWait
     \<and> fst (host (world_st s)) = \<lparr>n9000 = 0, nsupp = 0, routes9000 = {}\<rparr>"
proof -
  let ?R = "reachable demo_os demo_ctx mtus_init '''' demo_world"
  let ?s0 = "client_start demo_world"
  let ?s1 = "?s0\<lparr>loop_at := Establishing (Ret (Err demo_world))\<rparr>"
  let ?s2 = "fail_attempt demo_ctx ?s1"
  let ?s3 = "(on_host (snd (exec demo_os GracefullyShutdown_p (host (world_st ?s2)))) ?s2)
      \<lparr>loop_at := GivingUp (Ret ())\<rparr>"
  let ?s4 = "?s3\<lparr>loop_at := LoopGaveUp, cancelled := True\<rparr>"
  have "client_step demo_os demo_ctx mtus_init '''' ?s0 ?s1"
    using establish_begin [of ?s0 "[]" demo_os demo_ctx mtus_init "''''"
        "(demo_dial 5 True)\<lparr>listen_ok := False\<rparr>" "demo_tun True"]
    by (simp add: demo_attempt_fails tunnelCount_def) (simp add: client_start_def)
  with reach_start have r1: "?R ?s1" by (rule reach_step)
  have "after_establish demo_ctx (with_host (host (world_st ?s1)) (Err demo_world)) ?s1 = ?s2"
    by (simp add: after_establish_def client_start_def)
  with establish_end [of ?s1 "Err demo_world" demo_os demo_ctx mtus_init "''''"]
  have "client_step demo_os demo_ctx mtus_init '''' ?s1 ?s2" by (simp add: client_start_def)
  with r1 have "?R ?s2" by (rule reach_step)
  moreover have l: "loop_at ?s2 = GivingUp GracefullyShutdown_p" "\<not> gone ?s2"
    by (simp_all add: fail_attempt_def Let_def demo_budget client_start_def budget_start_def)
  ultimately have "?R ?s3" by (intro run_give_up)
  then have "?R ?s4" using l by (intro reach_step [OF _ give_up_cancel]) simp_all
  then have r: "?R (?s4\<lparr>gone := True\<rparr>)"
    using l by (intro reach_step [OF _ main_returns]) simp_all
  have "n9000 (fst (host demo_world)) \<le> 64" "nsupp (fst (host demo_world)) \<le> 8"
    by (simp_all add: demo_world_def)
  from exit_leaves_host_clean [OF ip_spec_demo this r] r show ?thesis
    by (intro exI [of _ "?s4\<lparr>gone := True\<rparr>"]) (simp add: client_start_def)
qed

text \<open>C22: a signal that arrives while the tunnels are being set up can leave the client's policy rule
  behind: if the attempt in progress succeeds after the signal handler has cleaned up the host and
  before the process ends, the process ends with the rule for table 9000 in place.\<close>

theorem signal_during_setup_leaves_rule:
  assumes "ip_spec os view" and "n9000 (view (host w0)) \<le> 64" and "nsupp (view (host w0)) \<le> 8"
    and "establishAllTunnels os ctx m kl e0 [] t (w0\<lparr>host := GracefullyShutdown os (host w0)\<rparr>) =
      Ok (conns, devs) w1"
  shows "\<exists>s. reachable os ctx m kl w0 s \<and> gone s \<and> \<not> crashed s \<and> n9000 (view (host (world_st s))) = 1"
proof -
  let ?R = "reachable os ctx m kl w0"
  let ?p = "establishAllTunnels_p ctx m kl e0 [] t w0"
  let ?h = "GracefullyShutdown os (host w0)"
  let ?s1 = "(client_start w0)\<lparr>loop_at := Establishing ?p\<rparr>"
  let ?s2 = "?s1\<lparr>sig_at := SigShutting GracefullyShutdown_p, acted := False\<rparr>"
  let ?s3 = "(on_host ?h ?s2)\<lparr>sig_at := SigShutting (Ret ())\<rparr>"
  obtain r h where e: "exec os ?p ?h = (r, h)" by fastforce
  then have wr: "with_host h r = Ok (conns, devs) w1" using assms(4) by (simp add: exec_establishAllTunnels)
  have g: "\<not> gone (client_start w0)" "\<not> crashed (client_start w0)" "world_st (client_start w0) = w0"
    "loop_at (client_start w0) = LoopTop" "sig_at (client_start w0) = SigWait"
    by (simp_all add: client_start_def)
  have "client_step os ctx m kl (client_start w0) ?s1"
    using establish_begin [of "client_start w0" "[]" os ctx m kl e0 t] g by (simp add: tunnelCount_def)
  with reach_start have "?R ?s1" by (rule reach_step)
  then have "?R ?s2" using g by (intro reach_step [OF _ sig_receive]) simp_all
  then have "?R ?s3" using run_signal [of os ctx m kl w0 ?s2] g by (simp add: exec_GracefullyShutdown)
  moreover have "\<not> gone ?s3" "loop_at ?s3 = Establishing ?p" "exec os ?p (host (world_st ?s3)) = (r, h)"
    using g e by simp_all
  ultimately have "\<exists>ac. ?R ((on_host h ?s3)\<lparr>loop_at := Establishing (Ret r), acted := ac\<rparr>)"
    by (rule run_attempt)
  then obtain ac where r4: "?R ((on_host h ?s3)\<lparr>loop_at := Establishing (Ret r), acted := ac\<rparr>)" (is "reachable _ _ _ _ _ ?s4") ..
  let ?s5 = "after_establish ctx (Ok (conns, devs) w1) ?s4"
  have "client_step os ctx m kl ?s4 ?s5"
    using establish_end [of ?s4 r os ctx m kl] g wr by simp
  with r4 have "?R ?s5" by (rule reach_step)
  moreover have s5: "sig_at ?s5 = SigShutting (Ret ())" "\<not> gone ?s5" "\<not> crashed ?s5" "world_st ?s5 = w1"
    using g by (simp_all add: after_establish_def)
  ultimately have "?R (?s5\<lparr>sig_at := SigDone, cancelled := True\<rparr>)" (is "reachable _ _ _ _ _ ?s6")
    by (intro reach_step [OF _ sig_cancel]) simp_all
  then have "?R (?s6\<lparr>gone := True\<rparr>)"
    using s5 by (intro reach_step [OF _ main_returns]) simp_all
  moreover have "n9000 (view (host w1)) = 1"
    using establishAllTunnels_Ok_rules [OF assms(1,4)] assms(2,3)
    by (simp add: GracefullyShutdown_def view_delete_rules [OF assms(1)] ip_spec_simps [OF assms(1)])
  ultimately show ?thesis using s5 by (intro exI [of _ "?s6\<lparr>gone := True\<rparr>"]) simp
qed

theorem signal_during_setup_leaves_rule_witness:
  "\<exists>s. reachable demo_os demo_ctx mtus_init '''' demo_world s \<and> gone s \<and> \<not> crashed s
     \<and> n9000 (fst (host (world_st s))) = 1"
proof -
  let ?w = "demo_world\<lparr>host := GracefullyShutdown demo_os (host demo_world)\<rparr>"
  obtain devs w1 where "establishTunTapAndRoutes demo_os demo_ctx mtus_init (demo_tun True)
      [[''0.0.0.0/0'']] [''10.0.0.2/32'']
      (?w\<lparr>socks := 5 # socks ?w, quics := 5 # quics ?w, ipconns := 5 # ipconns ?w\<rparr>) = Ok devs w1"
    using demo_tuntap by blast
  then have ok: "establishAllTunnels demo_os demo_ctx mtus_init '''' (demo_dial 5 True) [] (demo_tun True) ?w
      = Ok ([5], devs) w1"
    by (simp add: establishAllTunnels_def demo_conn)
  have "n9000 (fst (host demo_world)) \<le> 64" "nsupp (fst (host demo_world)) \<le> 8"
    by (simp_all add: demo_world_def)
  from signal_during_setup_leaves_rule [OF ip_spec_demo this ok] show ?thesis .
qed

end
