(* ===== verification/Spec2Isabelle.thy ===== *)
theory Spec2Isabelle
  imports Reseq_Props Observer_Props Session Lifecycle
begin

text \<open>
  Verification of \<open>tmasque\<close>, a client that carries the IP traffic of a host to a server over
  CONNECT-IP (MASQUE) on QUIC datagrams. All sources are under \<open>src/src/\<close>.

  \<^bold>\<open>The program.\<close> \<open>main.go\<close> loads the configuration (\<open>config/config.go\<close>), sets up logging
  (\<open>logger/logger.go\<close>, \<open>stats/stats.go\<close>), starts the watcher that reloads the file
  (\<open>config/watch.go\<close>), finds the server's address and derives the packet sizes. The connection
  loop then dials the tunnels, opens a TUN device, routes the prefixes the server advertises
  through routing table 9000, adds the policy rules (\<open>Bootstrap\<close>) and runs the session
  (\<open>tunnel\<close>): one reader per connection, which may put the segments of a flow back into order
  (\<open>utility/reseq.go\<close>), and one dispatcher per TUN queue, which pins a flow to a connection by
  its hash. When a session drops the loop retries within a budget; when the budget is used up, or
  on a signal, \<open>GracefullyShutdown\<close> removes rules and routes and the process ends.

  \<^bold>\<open>Conventions.\<close> Fixed-width integers are words, \<open>int\<close> and \<open>time.Duration\<close> are integers kept in
  their range by the code (the arithmetic that can saturate or wrap is written out), strings and
  byte slices are lists, structs are records. Go maps are association lists with distinct keys;
  the order in which \<open>range\<close> visits a map is an input wherever the result could depend on it. A
  panic or an exit is \<open>None\<close> or a constructor of a result type. What a system call or a library
  answers is an input of the definition that calls it, or a function parameter.

  \<^bold>\<open>The theories.\<close>

  \<^item> \<open>Prelude\<close>: words, bytes, durations, slices; the collections of simplification and
    introduction rules; shared lemmas. \<open>Go_Map\<close>: the interface of a Go map as a locale, with
    the lemmas on sweeps that its users need, interpreted on association lists.

  \<^item> \<open>Packet\<close> (\<open>parseTCP\<close>): the header parser, with and without the run-time checks; it never
    panics and reads back what a segment was built from, with IP and TCP options of any length the
    header fields allow.

  \<^item> \<open>Reseq\<close> (\<open>ForwardReseq\<close>): \<open>Push\<close>, \<open>FlushExpired\<close>, \<open>drain\<close>, \<open>skipGap\<close>, each of which holds
    the mutex for its whole body and is therefore one step. \<open>Reseq_Inv\<close>: the invariant of the
    state, conservation of packets, isolation of flows. \<open>Reseq_Order\<close>: a contiguous stream leaves
    the resequencer in order, if it has at most one segment more than the window, spans less than half
    the sequence space and arrives within one idle period. \<open>Reseq_Props\<close>: the properties. The
    loops end because the buffer shrinks; no fuel is used.

  \<^item> \<open>Stage\<close>: the contract of a packet stage, a locale with an extension for stages that lose
    nothing. The resequencer is an interpretation of the first and the pass-through of the second.

  \<^item> \<open>Observers\<close>, \<open>Observer_Props\<close> (\<open>PreReseqObserver\<close>, \<open>PreSendGenuineObserver\<close>): the counters
    equal reference counts over the observed segments, for up to 65536 and 256 flows; with
    more, \<open>PreReseqObserver\<close> forgets its flows and still never counts too much. A flow of \<open>PreReseqObserver\<close> may have
    any length, each segment within a quarter of the sequence space of the highest one before. The
    ring refines the window of the most
    recent sequence numbers (locale \<open>recent_window\<close>, interpreted on the ring and on its
    specification).

  \<^item> \<open>FlowHash\<close> (\<open>flowHashSym\<close>): equal to FNV-1a, defined independently over the natural
    numbers with its published constants, of the sorted endpoints; so both directions of
    a flow choose the same tunnel. The index is total for 1 to 16 connections; the code uses 1.

  \<^item> \<open>DataPlane\<close> (the goroutines of \<open>tunnel\<close>): the loops of a reader and of a dispatcher as
    functions of what their reads return. \<open>Session\<close>: all goroutines of a session interleaved,
    with the shared error channel, the counters and the teardown on the first error; each
    goroutine behaves as if it ran alone, and the first error ends the session and closes its
    connections and queues.

  \<^item> \<open>Go_Strings\<close>: what the program uses of \<open>strings\<close>, \<open>strconv\<close> and \<open>bufio\<close>. \<open>Logger\<close>: levels,
    the singleton, the print functions, the statistics switch. \<open>Config\<close>: \<open>Load\<close>, \<open>reloadAndApply\<close>
    and \<open>Watch\<close>; both readers of the file agree, hot reload gives what a restart gives as long as both
    settings are in the file (a removed one keeps its old value), and the watcher reacts exactly to
    writes and replacements, looking at no byte past those it has read.

  \<^item> \<open>IpUtil\<close> (\<open>utility/ip.go\<close>): \<open>LastIP\<close> is the broadcast address of \<open>PrefixToIPNet\<close>.
    \<open>Startup\<close>: server address and port, \<open>deriveTunnelMTU\<close>, the QUIC configuration.

  \<^item> \<open>Host\<close> (\<open>main.go\<close> 44 to 257): sysctl tuning and policy routing over an operating system
    that is a parameter (record \<open>os\<close>). The hypotheses are \<open>sysctl_fs\<close>, that a file of \<open>/proc/sys\<close>
    reads back what was written to it, and \<open>ip_spec\<close>, what each \<open>ip\<close> command does to the rules
    and to table 9000, as its manual says; \<open>demo_os\<close> satisfies both. Tuning only raises limits,
    \<open>Bootstrap\<close> leaves exactly the rules it needs, shutdown removes them.

  \<^item> \<open>Establish\<close> (\<open>establishMASQUEConn\<close>, \<open>establishTunTapAndRoutes\<close>, \<open>establishAllTunnels\<close>): each
    call of an attempt succeeds or fails as an input says, and the model tracks every handle the program has opened and not closed itself;
    the theorems give what success leaves in place and what each failure leaves behind.

  \<^item> \<open>Reconnect\<close>: the connection loop with budget and backoff; it gives up after exactly the
    budget of unstable attempts and then leaves the host clean.

  \<^item> \<open>Commands\<close>: the functions of \<open>Host\<close> and \<open>Establish\<close> that act on the host as programs that make
    one command or file access at a time. Run alone each does what the function does. The relation
    \<open>sound\<close> gives upper bounds on rules and routes along a program that stay true when others
    delete. \<open>Lifecycle\<close>: the signal handler, the loop, the monitor and the main goroutine as a
    step relation that interleaves those programs command by command; the invariant of its
    reachable states gives when the process ends with the host clean, and a run is given in which
    an attempt in progress at a signal leaves its rule behind.

  \<^bold>\<open>Bounds.\<close> The bounds in the definitions are the code's: 64 and 8 rule deletions, a window of
  128 segments, rings of 1024 numbers for 256 flows, lines of less than 64 KiB. The theorems on
  clean-up assume that the host starts with no more rules than these deletions remove.

  \<^bold>\<open>Not modelled.\<close> The QUIC, CONNECT-IP, TUN and netlink libraries and the TLS configuration are
  parameters or inputs; loading certificates and creating the key log file are calls whose failure
  is a branch of \<open>establishMASQUEConn\<close>. The statistics ticker of \<open>tunnel\<close> prints percentages of the
  counters and changes nothing. \<open>healthCheck\<close> is a stub and \<open>RandomBytes\<close> is not called. Log lines
  below the fatal level are modelled in the logger and the watcher and left out elsewhere. What the
  library's \<open>Close\<close> of a connection does to the QUIC connection beneath it is not modelled: a
  handle counts as open until the program closes it. A flush that cannot empty table 9000 is
  outside \<open>ip_spec\<close>; the code logs it and goes on.

  \<^bold>\<open>Further work.\<close> Linking the end of a \<open>Session\<close> to the step of \<open>Lifecycle\<close> that counts it, and the
  statistics ticker.
\<close>

end
